(* ===== verification/Prelude.thy ===== *)
theory Prelude
  imports Main "HOL-Library.Word" "HOL-Library.Multiset"
begin

text \<open>
  Shared vocabulary of the development: the collections of rewrite rules the component
  theories fill, the types for Go's effects (a computation over the world it runs in),
  and the generic facts on lists and integers that several components use.
\<close>

section \<open>Collections\<close>

named_theorems go_defs \<open>definitions of straight-line Go code, unfolded by component proofs\<close>
named_theorems inv_intros \<open>preservation of a component's invariant by its operations\<close>

section \<open>Computations\<close>

text \<open>
  Go code that calls functions it was given (handlers, hooks, callbacks) is modelled over an
  arbitrary type \<open>'w\<close> of worlds: whatever such a function reads or changes is in the
  world, and the call returns the world it leaves behind.
\<close>

type_synonym ('w, 'a) action = "'w \<Rightarrow> 'a \<times> 'w"

section \<open>Machine integers\<close>

text \<open>
  Go's \<open>int\<close> and \<open>int64\<close> (the targets are 64-bit) are \<open>int\<close> in the model. Where the
  source can leave the range, the operation is followed by \<open>wrap64\<close>, two's complement
  wrap-around; \<open>uint64\<close> counters are \<open>64 word\<close>.
\<close>

abbreviation min_int64 :: int where "min_int64 \<equiv> - (2 ^ 63)"
abbreviation max_int64 :: int where "max_int64 \<equiv> 2 ^ 63 - 1"

definition wrap64 :: "int \<Rightarrow> int" where
  "wrap64 x = (x + 2 ^ 63) mod 2 ^ 64 - 2 ^ 63"

definition in_int64 :: "int \<Rightarrow> bool" where
  "in_int64 x \<longleftrightarrow> min_int64 \<le> x \<and> x \<le> max_int64"

lemma wrap64_id: "in_int64 x \<Longrightarrow> wrap64 x = x"
  by (simp add: wrap64_def in_int64_def)

lemma wrap64_range: "in_int64 (wrap64 x)"
proof -
  have "0 \<le> (x + 2 ^ 63) mod 2 ^ 64" and "(x + 2 ^ 63) mod 2 ^ 64 < (2::int) ^ 64"
    by (simp_all add: pos_mod_bound)
  then show ?thesis by (simp add: wrap64_def in_int64_def)
qed

section \<open>Lists\<close>

lemma distinct_remove1_Cons:
  "distinct xs \<Longrightarrow> x \<in> set xs \<Longrightarrow> distinct (x # remove1 x xs)"
  by (simp add: set_remove1_eq)

lemma set_remove1_Cons: "x \<in> set xs \<Longrightarrow> set (x # remove1 x xs) = set xs"
  by (induction xs) auto

lemma map_remove1_inj:
  "inj_on f (insert x (set xs)) \<Longrightarrow> map f (remove1 x xs) = remove1 (f x) (map f xs)"
  by (induction xs) (auto simp: inj_on_def)

lemma distinct_remove1_filter:
  "distinct xs \<Longrightarrow> remove1 x xs = filter (\<lambda>y. y \<noteq> x) xs"
  by (simp add: distinct_remove1_removeAll removeAll_filter_not_eq eq_commute)

lemma butlast_filter_last:
  "distinct xs \<Longrightarrow> xs \<noteq> [] \<Longrightarrow> filter (\<lambda>y. y \<noteq> last xs) xs = butlast xs"
proof (induction xs)
  case Nil
  then show ?case by simp
next
  case (Cons x xs)
  then show ?case
    by (cases xs) (auto simp: filter_id_conv)
qed

lemma fold_id_when: "(\<And>x s. x \<in> set xs \<Longrightarrow> f x s = s) \<Longrightarrow> fold f xs s = s"
  by (induction xs arbitrary: s) auto

text \<open>A sum over the threads of a system when one of them changes its state.\<close>

lemma set_upd_mem: "x \<in> set (xs[i := y]) \<Longrightarrow> x = y \<or> x \<in> set xs"
  using set_update_subset_insert by fastforce

lemma list_all_upd: "list_all P xs \<Longrightarrow> P x \<Longrightarrow> list_all P (xs[i := x])"
  by (auto simp: list_all_iff dest!: set_upd_mem)

lemma sum_list_update_eq:
  fixes f :: "'b \<Rightarrow> 'a :: comm_monoid_add"
  shows "i < length xs \<Longrightarrow> sum_list (map f (xs[i := x])) + f (xs ! i) = sum_list (map f xs) + f x"
proof (induction xs arbitrary: i)
  case (Cons y ys)
  then show ?case by (cases i) (auto simp: algebra_simps add.left_commute)
qed simp

section \<open>Step systems\<close>

text \<open>
  Goroutines that share a component interleave its atomic steps. A system of this kind has
  initial states and labelled steps; \<open>reach\<close> holds of the states that some interleaving leads
  to.
\<close>

inductive reach :: "('s \<Rightarrow> bool) \<Rightarrow> ('s \<Rightarrow> 'e \<Rightarrow> 's \<Rightarrow> bool) \<Rightarrow> 's \<Rightarrow> bool"
  for init :: "'s \<Rightarrow> bool" and trans :: "'s \<Rightarrow> 'e \<Rightarrow> 's \<Rightarrow> bool" where
  reach_start: "init s \<Longrightarrow> reach init trans s"
| reach_step: "reach init trans s \<Longrightarrow> trans s e s' \<Longrightarrow> reach init trans s'"

text \<open>The interface of an invariant: it holds initially and every step keeps it.\<close>

locale step_invariant =
  fixes init :: "'s \<Rightarrow> bool"
    and trans :: "'s \<Rightarrow> 'e \<Rightarrow> 's \<Rightarrow> bool"
    and inv :: "'s \<Rightarrow> bool"
  assumes inv_init: "init s \<Longrightarrow> inv s"
    and inv_step: "trans s e s' \<Longrightarrow> inv s \<Longrightarrow> inv s'"
begin

lemma reach_inv: "reach init trans s \<Longrightarrow> inv s"
proof (induction rule: reach.induct)
  case (reach_start s)
  then show ?case by (rule inv_init)
next
  case (reach_step s e s')
  then show ?case by (blast intro: inv_step)
qed

end

text \<open>A run of a system, and the interface of progress: short of the goal some step gets nearer to it.\<close>

abbreviation runs_to :: "('s \<Rightarrow> 'e \<Rightarrow> 's \<Rightarrow> bool) \<Rightarrow> 's \<Rightarrow> 's \<Rightarrow> bool" where
  "runs_to tr \<equiv> (\<lambda>s s'. \<exists>e. tr s e s')\<^sup>*\<^sup>*"

lemma runs_to_one: "tr s e s' \<Longrightarrow> runs_to tr s s'"
  by auto

lemma runs_to_first: "tr s e s' \<Longrightarrow> runs_to tr s' s'' \<Longrightarrow> runs_to tr s s''"
  by (rule converse_rtranclp_into_rtranclp) auto

lemma runs_to_last: "runs_to tr s s' \<Longrightarrow> tr s' e s'' \<Longrightarrow> runs_to tr s s''"
  by (rule rtranclp.rtrancl_into_rtrancl) auto

locale step_progress =
  fixes trans :: "'s \<Rightarrow> 'e \<Rightarrow> 's \<Rightarrow> bool"
    and inv :: "'s \<Rightarrow> bool"
    and goal :: "'s \<Rightarrow> bool"
    and load :: "'s \<Rightarrow> nat"
  assumes nearer_step: "inv s \<Longrightarrow> \<not> goal s \<Longrightarrow> \<exists>e s'. trans s e s' \<and> inv s' \<and> load s' < load s"
begin

lemma reaches_goal: "inv s \<Longrightarrow> \<exists>s'. runs_to trans s s' \<and> inv s' \<and> goal s'"
proof (induction "load s" arbitrary: s rule: less_induct)
  case less
  show ?case
  proof (cases "goal s")
    case True
    then show ?thesis using less.prems by blast
  next
    case False
    from nearer_step [OF less.prems this] obtain e s1 where
      s1: "trans s e s1" "inv s1" "load s1 < load s" by blast
    from less.hyps [OF s1(3,2)] show ?thesis using runs_to_first [of trans, OF s1(1)] by blast
  qed
qed

end

section \<open>Data refinement\<close>

text \<open>
  A component's operations as one function from an operation to a result and a new state, and
  the results of a sequence of operations.
\<close>

fun run :: "('o \<Rightarrow> 's \<Rightarrow> 'r \<times> 's) \<Rightarrow> 'o list \<Rightarrow> 's \<Rightarrow> 'r list \<times> 's" where
  "run f [] s = ([], s)"
| "run f (x # xs) s =
     (fst (f x s) # fst (run f xs (snd (f x s))), snd (run f xs (snd (f x s))))"

lemma run_append:
  "run f (xs @ ys) s =
     (fst (run f xs s) @ fst (run f ys (snd (run f xs s))), snd (run f ys (snd (run f xs s))))"
  by (induction xs arbitrary: s) auto

text \<open>
  The interface between an implementation and its specification: the specification, run on the
  abstraction of a good state, gives the result and the abstraction of the state that the
  implementation gives.
\<close>

locale refinement =
  fixes impl :: "'o \<Rightarrow> 's \<Rightarrow> 'r \<times> 's"
    and spec :: "'o \<Rightarrow> 'a \<Rightarrow> 'r \<times> 'a"
    and abs :: "'s \<Rightarrow> 'a"
    and good :: "'s \<Rightarrow> bool"
  assumes good_impl: "good s \<Longrightarrow> good (snd (impl x s))"
    and spec_impl: "good s \<Longrightarrow> spec x (abs s) = (fst (impl x s), abs (snd (impl x s)))"
begin

lemma good_run: "good s \<Longrightarrow> good (snd (run impl xs s))"
proof (induction xs arbitrary: s)
  case Nil
  then show ?case by simp
next
  case (Cons x xs)
  from good_impl [OF Cons.prems, of x] have "good (snd (run impl xs (snd (impl x s))))"
    by (rule Cons.IH)
  then show ?case by simp
qed

lemma spec_run:
  "good s \<Longrightarrow> run spec xs (abs s) = (fst (run impl xs s), abs (snd (run impl xs s)))"
proof (induction xs arbitrary: s)
  case Nil
  then show ?case by simp
next
  case (Cons x xs)
  from Cons.IH [OF good_impl [OF Cons.prems, of x]] show ?case
    by (simp add: spec_impl [OF Cons.prems])
qed

end

end
