(* ===== verification/GoStd.thy ===== *)
theory GoStd
  imports Prelude "HOL-Library.Signed_Division"
begin

text \<open>
  What the packages use of Go's standard library: \<open>time.Time\<close> and \<open>time.Duration\<close>,
  decimal and quoted text (\<open>strconv\<close>, \<open>fmt\<close>), and the \<open>errors\<close> package with the two
  error types of \<open>pkg/retry\<close> and the one of \<open>pkg/saga\<close>, which take part in the same
  wrapping chains.
\<close>

section \<open>Time\<close>

text \<open>
  A \<open>time.Time\<close> is the number of nanoseconds since Go's zero time (January 1, year 1), so
  the zero value is 0 and \<open>IsZero\<close> compares with it. A \<open>time.Duration\<close> is an \<open>int64\<close>
  count of nanoseconds; \<open>Sub\<close> saturates at its ends.
\<close>

type_synonym gotime = int
type_synonym duration = int

abbreviation Millisecond :: duration where "Millisecond \<equiv> 1000000"
abbreviation Second :: duration where "Second \<equiv> 1000000000"
abbreviation Minute :: duration where "Minute \<equiv> 60000000000"
abbreviation Hour :: duration where "Hour \<equiv> 3600000000000"

definition sat64 :: "int \<Rightarrow> int" where
  "sat64 x = max min_int64 (min max_int64 x)"

definition time_IsZero :: "gotime \<Rightarrow> bool" where
  "time_IsZero t \<longleftrightarrow> t = 0"

definition time_Add :: "gotime \<Rightarrow> duration \<Rightarrow> gotime" where
  "time_Add t d = t + d"

definition time_Sub :: "gotime \<Rightarrow> gotime \<Rightarrow> duration" where
  "time_Sub t u = sat64 (t - u)"

definition duration_Truncate :: "duration \<Rightarrow> duration \<Rightarrow> duration" where
  "duration_Truncate d m = (if m \<le> 0 then d else d - d smod m)"

lemmas [go_defs] = time_IsZero_def time_Add_def

lemma sat64_range: "in_int64 (sat64 x)"
  by (simp add: sat64_def in_int64_def)

lemma sat64_mono: "x \<le> y \<Longrightarrow> sat64 x \<le> sat64 y"
  unfolding sat64_def by linarith

lemma sat64_ge_iff: "min_int64 < d \<Longrightarrow> d \<le> max_int64 \<Longrightarrow> d \<le> sat64 x \<longleftrightarrow> d \<le> x"
  by (auto simp: sat64_def le_max_iff_disj)

lemma time_Sub_ge_iff:
  "min_int64 < d \<Longrightarrow> d \<le> max_int64 \<Longrightarrow> d \<le> time_Sub t u \<longleftrightarrow> u + d \<le> t"
  using sat64_ge_iff [of d "t - u"] unfolding time_Sub_def by linarith

section \<open>Text\<close>

text \<open>Decimal digits of a natural number and of an integer (\<open>strconv.Itoa\<close>, \<open>%d\<close>).\<close>

definition digit_char :: "nat \<Rightarrow> char" where
  "digit_char n = char_of (48 + n)"

fun nat_digits :: "nat \<Rightarrow> string" where
  "nat_digits n =
     (if n < 10 then [digit_char n] else nat_digits (n div 10) @ [digit_char (n mod 10)])"

declare nat_digits.simps [simp del]

definition Itoa :: "int \<Rightarrow> string" where
  "Itoa x = (if x < 0 then CHR ''-'' # nat_digits (nat (- x)) else nat_digits (nat x))"

text \<open>
  \<open>%q\<close>: a double-quoted string with Go's escapes. Bytes from 0x80 on belong to UTF-8
  encoded characters, which are kept as they are.
\<close>

definition hex_digit :: "nat \<Rightarrow> char" where
  "hex_digit n = (if n < 10 then char_of (48 + n) else char_of (87 + n))"

definition quote_char :: "char \<Rightarrow> string" where
  "quote_char c =
     (let n = of_char c :: nat in
      if n = 34 \<or> n = 92 then [CHR 0x5C, c]
      else if n = 7 then [CHR 0x5C, CHR ''a'']
      else if n = 8 then [CHR 0x5C, CHR ''b'']
      else if n = 12 then [CHR 0x5C, CHR ''f'']
      else if n = 10 then [CHR 0x5C, CHR ''n'']
      else if n = 13 then [CHR 0x5C, CHR ''r'']
      else if n = 9 then [CHR 0x5C, CHR ''t'']
      else if n = 11 then [CHR 0x5C, CHR ''v'']
      else if n < 32 \<or> n = 127 then [CHR 0x5C, CHR ''x'', hex_digit (n div 16), hex_digit (n mod 16)]
      else [c])"

definition Quote :: "string \<Rightarrow> string" where
  "Quote s = CHR 0x22 # concat (map quote_char s) @ [CHR 0x22]"

text \<open>\<open>time.Duration.String\<close>: the fraction drops trailing zeros, leading units are omitted.\<close>

fun pad_digits :: "nat \<Rightarrow> nat \<Rightarrow> string" where
  "pad_digits 0 v = []"
| "pad_digits (Suc p) v = pad_digits p (v div 10) @ [digit_char (v mod 10)]"

definition fmt_frac :: "nat \<Rightarrow> nat \<Rightarrow> string" where
  "fmt_frac v prec =
     (let ds = rev (dropWhile (\<lambda>c. c = CHR ''0'') (rev (pad_digits prec v)))
      in if ds = [] then [] else CHR ''.'' # ds)"

definition duration_String :: "duration \<Rightarrow> string" where
  "duration_String d =
     (let u = nat \<bar>d\<bar>;
          body =
            (if u = 0 then ''0s''
             else if u < 1000 then nat_digits u @ ''ns''
             else if u < 1000000 then
               nat_digits (u div 1000) @ fmt_frac u 3 @ [CHR 0xC2, CHR 0xB5, CHR ''s'']
             else if u < 1000000000 then nat_digits (u div 1000000) @ fmt_frac u 6 @ ''ms''
             else
               (let s = u div 1000000000;
                    sec = nat_digits (s mod 60) @ fmt_frac u 9 @ ''s'';
                    m = s div 60;
                    h = m div 60
                in if m = 0 then sec
                   else if h = 0 then nat_digits (m mod 60) @ ''m'' @ sec
                   else nat_digits h @ ''h'' @ nat_digits (m mod 60) @ ''m'' @ sec))
      in if d < 0 then CHR ''-'' # body else body)"

section \<open>Errors\<close>

text \<open>
  An \<open>error\<close> value. \<open>ErrNew\<close> is the result of \<open>errors.New\<close> (the packages' sentinels, which
  have pairwise different texts, and the errors of the world outside); \<open>Errorf\<close> is
  \<open>fmt.Errorf\<close> with its format split into pieces, a \<open>Wrapped\<close> piece for each \<open>%w\<close>;
  \<open>Join\<close> is \<open>errors.Join\<close> of a non-empty list. The other constructors are the error
  types declared by \<open>pkg/retry\<close> and \<open>pkg/saga\<close>. \<open>nil\<close> is \<open>None\<close> at type \<open>err option\<close>.
\<close>

datatype 'e piece = Lit string | Quoted string | Dec int | Dur duration | Wrapped 'e

datatype err =
    ErrNew string
  | Errorf "err piece list"
  | Join "err list"
  | StopError err
  | ErrMaxAttempts int "err option"
  | SagaError string string err "(string \<times> err) list"

text \<open>The \<open>Error\<close> methods: the text of an error.\<close>

fun intersperse_concat :: "string \<Rightarrow> string list \<Rightarrow> string" where
  "intersperse_concat sep [] = []"
| "intersperse_concat sep [x] = x"
| "intersperse_concat sep (x # y # zs) = x @ sep @ intersperse_concat sep (y # zs)"

fun piece_text :: "string piece \<Rightarrow> string" where
  "piece_text (Lit s) = s"
| "piece_text (Quoted s) = Quote s"
| "piece_text (Dec n) = Itoa n"
| "piece_text (Dur d) = duration_String d"
| "piece_text (Wrapped s) = s"

definition saga_error_text :: "string \<Rightarrow> string \<Rightarrow> string \<Rightarrow> (string \<times> string) list \<Rightarrow> string" where
  "saga_error_text sagaName failedStep cause ces =
     ''saga '' @ Quote sagaName @ '' failed at step '' @ Quote failedStep @ '': '' @ cause @
     (if ces \<noteq> [] then ''; compensation errors: '' @
        intersperse_concat '', '' (map (\<lambda>(step, e). step @ '': '' @ e) ces) else [])"

primrec err_Error :: "err \<Rightarrow> string" where
  "err_Error (ErrNew s) = s"
| "err_Error (Errorf ps) = concat (map piece_text (map (map_piece err_Error) ps))"
| "err_Error (Join es) = intersperse_concat [CHR 0x0A] (map err_Error es)"
| "err_Error (StopError e) = err_Error e"
| "err_Error (ErrMaxAttempts n l) =
     ''retry: exhausted after '' @ Itoa n @ '' attempts: '' @
     (case map_option err_Error l of None \<Rightarrow> ''<nil>'' | Some s \<Rightarrow> s)"
| "err_Error (SagaError sn fs c ces) =
     saga_error_text sn fs (err_Error c) (map (map_prod id err_Error) ces)"

fun piece_errs :: "'e piece \<Rightarrow> 'e list" where
  "piece_errs (Wrapped e) = [e]"
| "piece_errs _ = []"

text \<open>The errors that an error's \<open>Unwrap\<close> method returns.\<close>

fun err_Unwrap :: "err \<Rightarrow> err list" where
  "err_Unwrap (ErrNew s) = []"
| "err_Unwrap (Errorf ps) = concat (map piece_errs ps)"
| "err_Unwrap (Join es) = es"
| "err_Unwrap (StopError e) = [e]"
| "err_Unwrap (ErrMaxAttempts n l) = (case l of None \<Rightarrow> [] | Some e \<Rightarrow> [e])"
| "err_Unwrap (SagaError sn fs c ces) = [c]"

lemma size_piece_errs: "e \<in> set (piece_errs p) \<Longrightarrow> size e < size_piece size p"
  by (cases p) auto

lemma err_Unwrap_size [termination_simp]: "c \<in> set (err_Unwrap e) \<Longrightarrow> size c < size e"
proof (cases e)
  case (Errorf ps)
  assume "c \<in> set (err_Unwrap e)"
  with Errorf obtain p where p: "p \<in> set ps" "c \<in> set (piece_errs p)" by auto
  then have "size c < size_piece size p" by (simp add: size_piece_errs)
  also have "\<dots> \<le> size_list (size_piece size) ps"
    using p(1) by (simp add: size_list_estimation')
  finally show ?thesis using Errorf by simp
next
  case (Join es)
  assume "c \<in> set (err_Unwrap e)"
  with Join have "size c \<le> size_list size es" by (simp add: size_list_estimation')
  with Join show ?thesis by simp
qed (auto split: option.splits)

text \<open>
  \<open>errors.Is\<close>: the error itself or one it wraps is the target. The \<open>Is\<close> method of
  \<open>saga.Error\<close> asks the same of its cause, which \<open>Unwrap\<close> also returns.
\<close>

function errors_Is :: "err \<Rightarrow> err \<Rightarrow> bool" where
  "errors_Is e t = (e = t \<or> (\<exists>c \<in> set (err_Unwrap e). errors_Is c t))"
  by pat_completeness auto
termination
  by (relation "measure (\<lambda>(e, t). size e)") (auto simp: err_Unwrap_size)

text \<open>\<open>errors.As\<close> for \<open>*retry.StopError\<close>: the first one in depth-first order; its \<open>Err\<close> field.\<close>

fun first_Some :: "'a option list \<Rightarrow> 'a option" where
  "first_Some [] = None"
| "first_Some (x # xs) = (case x of None \<Rightarrow> first_Some xs | Some y \<Rightarrow> Some y)"

function as_StopError :: "err \<Rightarrow> err option" where
  "as_StopError e =
     (case e of StopError i \<Rightarrow> Some i
      | _ \<Rightarrow> first_Some (map as_StopError (err_Unwrap e)))"
  by pat_completeness auto
termination
  by (relation "measure size") (simp_all only: wf_measure in_measure err_Unwrap_size)

declare errors_Is.simps [simp del] as_StopError.simps [simp del]

lemma errors_Is_refl [simp]: "errors_Is e e"
  using errors_Is.simps [of e e] by blast

lemma errors_Is_wrap: "c \<in> set (err_Unwrap e) \<Longrightarrow> errors_Is c t \<Longrightarrow> errors_Is e t"
  using errors_Is.simps [of e t] by blast

lemma errors_Is_ErrNew [simp]: "errors_Is (ErrNew s) t \<longleftrightarrow> t = ErrNew s"
  using errors_Is.simps [of "ErrNew s" t] by auto

lemma as_StopError_ErrNew [simp]: "as_StopError (ErrNew s) = None"
  by (subst as_StopError.simps) simp

lemma as_StopError_StopError [simp]: "as_StopError (StopError e) = Some e"
  by (subst as_StopError.simps) simp

text \<open>The errors of \<open>context\<close>, and \<open>ctx.Err()\<close> texts.\<close>

abbreviation Canceled :: err where "Canceled \<equiv> ErrNew ''context canceled''"
abbreviation DeadlineExceeded :: err where "DeadlineExceeded \<equiv> ErrNew ''context deadline exceeded''"

section \<open>Calls that may panic\<close>

text \<open>How a function with an error result ends: it returns, or it panics.\<close>

datatype fn_outcome = FnReturned "err option" | FnPanicked string

end
