(* ===== verification/Breaker.thy ===== *)
theory Breaker
  imports GoStd
begin

text \<open>
  The circuit breaker, \<open>pkg/circuitbreaker/breaker.go\<close>. Every method runs under the
  breaker's mutex, so each is one atomic function on the record; the clock readings a method
  takes are its arguments. \<open>Execute\<close> is not atomic (the protected call runs between \<open>allow\<close>
  and \<open>record\<close>), so besides the sequential \<open>breaker_Execute\<close> there is a step relation in
  which calls of any number of goroutines interleave.
\<close>

section \<open>State and options\<close>

datatype State = StateClosed | StateOpen | StateHalfOpen

definition State_String :: "State \<Rightarrow> string" where
  "State_String s =
     (case s of StateClosed \<Rightarrow> ''closed'' | StateOpen \<Rightarrow> ''open'' | StateHalfOpen \<Rightarrow> ''half-open'')"

abbreviation ErrOpen :: err where "ErrOpen \<equiv> ErrNew ''circuitbreaker: circuit is open''"

text \<open>\<open>onStateChange\<close> records whether a callback is registered; see \<open>spawned\<close> below.\<close>

record options =
  failureThreshold :: int
  successThreshold :: int
  openTimeout :: duration
  onStateChange :: bool

definition WithFailureThreshold :: "int \<Rightarrow> options \<Rightarrow> options" where
  "WithFailureThreshold n o' = o'\<lparr>failureThreshold := n\<rparr>"

definition WithSuccessThreshold :: "int \<Rightarrow> options \<Rightarrow> options" where
  "WithSuccessThreshold n o' = o'\<lparr>successThreshold := n\<rparr>"

definition WithOpenTimeout :: "duration \<Rightarrow> options \<Rightarrow> options" where
  "WithOpenTimeout d o' = o'\<lparr>openTimeout := d\<rparr>"

definition WithOnStateChange :: "options \<Rightarrow> options" where
  "WithOnStateChange o' = o'\<lparr>onStateChange := True\<rparr>"

text \<open>
  \<open>spawned\<close> lists, oldest first, the goroutines \<open>go b.opts.onStateChange(from, to)\<close> that
  \<open>transition\<close> has started.
\<close>

record breaker =
  state :: State
  failures :: int
  probes :: int
  openedAt :: gotime
  opts :: options
  spawned :: "(State \<times> State) list"

definition breaker_New :: "(options \<Rightarrow> options) list \<Rightarrow> breaker" where
  "breaker_New os =
     \<lparr>state = StateClosed, failures = 0, probes = 0, openedAt = 0,
      opts = fold (\<lambda>opt o'. opt o') os
        \<lparr>failureThreshold = 5, successThreshold = 1, openTimeout = 60 * Second,
         onStateChange = False\<rparr>,
      spawned = []\<rparr>"

section \<open>Operations\<close>

definition transition :: "State \<Rightarrow> breaker \<Rightarrow> breaker" where
  "transition to b =
     (if state b = to then b
      else let from = state b; b' = b\<lparr>state := to\<rparr> in
        if onStateChange (opts b) then b'\<lparr>spawned := spawned b' @ [(from, to)]\<rparr> else b')"

definition maybeTransitionFromOpen :: "gotime \<Rightarrow> breaker \<Rightarrow> breaker" where
  "maybeTransitionFromOpen now b =
     (if state b = StateOpen \<and> openTimeout (opts b) \<le> time_Sub now (openedAt b)
      then transition StateHalfOpen b else b)"

text \<open>
  \<open>allow\<close> reads the clock in \<open>maybeTransitionFromOpen\<close> (\<open>now\<close>) and, when it refuses, again
  for the message (\<open>now'\<close>).
\<close>

definition allow :: "gotime \<Rightarrow> gotime \<Rightarrow> breaker \<Rightarrow> err option \<times> breaker" where
  "allow now now' b0 =
     (let b = maybeTransitionFromOpen now b0 in
      case state b of
        StateClosed \<Rightarrow> (None, b)
      | StateHalfOpen \<Rightarrow> (None, b)
      | StateOpen \<Rightarrow>
          (Some (Errorf [Wrapped ErrOpen, Lit '' (will retry after '',
             Dur (duration_Truncate
               (time_Sub (time_Add (openedAt b) (openTimeout (opts b))) now') Millisecond),
             Lit '')'']), b))"

definition record_closed :: "gotime \<Rightarrow> err option \<Rightarrow> breaker \<Rightarrow> breaker" where
  "record_closed now e b =
     (if e \<noteq> None then
        let b = b\<lparr>failures := failures b + 1\<rparr> in
        if failureThreshold (opts b) \<le> failures b
        then transition StateOpen (b\<lparr>openedAt := now\<rparr>) else b
      else b\<lparr>failures := 0\<rparr>)"

definition record_half_open :: "gotime \<Rightarrow> err option \<Rightarrow> breaker \<Rightarrow> breaker" where
  "record_half_open now e b =
     (if e \<noteq> None then
        transition StateOpen (b\<lparr>failures := 0, probes := 0, openedAt := now\<rparr>)
      else
        let b = b\<lparr>probes := probes b + 1\<rparr> in
        if successThreshold (opts b) \<le> probes b
        then transition StateClosed (b\<lparr>failures := 0, probes := 0\<rparr>) else b)"

definition breaker_record :: "gotime \<Rightarrow> err option \<Rightarrow> breaker \<Rightarrow> breaker" where
  "breaker_record now e b =
     (case state b of
        StateClosed \<Rightarrow> record_closed now e b
      | StateHalfOpen \<Rightarrow> record_half_open now e b
      | StateOpen \<Rightarrow> b)"

definition breaker_Execute ::
  "gotime \<Rightarrow> gotime \<Rightarrow> gotime \<Rightarrow> 'a \<Rightarrow> ('w, 'a \<times> err option) action \<Rightarrow> 'w \<Rightarrow> breaker
   \<Rightarrow> ('a \<times> err option) \<times> 'w \<times> breaker" where
  "breaker_Execute now1 now1' now2 zero fn w b =
     (case allow now1 now1' b of
        (Some e, b') \<Rightarrow> ((zero, Some e), w, b')
      | (None, b') \<Rightarrow>
          let ((result, e), w') = fn w in ((result, e), w', breaker_record now2 e b'))"

definition breaker_ExecuteVoid ::
  "gotime \<Rightarrow> gotime \<Rightarrow> gotime \<Rightarrow> ('w, err option) action \<Rightarrow> 'w \<Rightarrow> breaker
   \<Rightarrow> err option \<times> 'w \<times> breaker" where
  "breaker_ExecuteVoid now1 now1' now2 fn w b =
     (let ((_, e), w', b') =
        breaker_Execute now1 now1' now2 () (\<lambda>w. let (e, w') = fn w in (((), e), w')) w b
      in (e, w', b'))"

definition breaker_State :: "gotime \<Rightarrow> breaker \<Rightarrow> State \<times> breaker" where
  "breaker_State now b = (let b' = maybeTransitionFromOpen now b in (state b', b'))"

definition breaker_Reset :: "breaker \<Rightarrow> breaker" where
  "breaker_Reset b = (transition StateClosed b)\<lparr>failures := 0, probes := 0\<rparr>"

lemmas breaker_defs =
  transition_def maybeTransitionFromOpen_def allow_def record_closed_def record_half_open_def
  breaker_record_def breaker_State_def breaker_Reset_def

section \<open>The invariant of the counters\<close>

text \<open>
  A threshold below 1 acts like 1, because the counter is bumped before it is compared.
  Between calls the failure count of a closed breaker is below the threshold, the success
  count of a half-open breaker is below its own, and only a half-open breaker has one.
\<close>

definition cb_inv :: "breaker \<Rightarrow> bool" where
  "cb_inv b \<longleftrightarrow>
     0 \<le> failures b \<and> 0 \<le> probes b \<and>
     (state b = StateClosed \<longrightarrow> failures b < max 1 (failureThreshold (opts b))) \<and>
     (if state b = StateHalfOpen then probes b < max 1 (successThreshold (opts b)) else probes b = 0)"

lemma opts_unchanged [simp]:
  "opts (transition s b) = opts b"
  "opts (maybeTransitionFromOpen t b) = opts b"
  "opts (snd (allow t t' b)) = opts b"
  "opts (breaker_record t e b) = opts b"
  "opts (snd (breaker_State t b)) = opts b"
  "opts (breaker_Reset b) = opts b"
  by (auto simp: breaker_defs Let_def split: State.split)

lemma snd_allow: "snd (allow t t' b) = maybeTransitionFromOpen t b"
  by (auto simp: allow_def Let_def split: State.split)

lemma snd_State: "snd (breaker_State t b) = maybeTransitionFromOpen t b"
  by (simp add: breaker_State_def Let_def)

lemma allow_None_iff:
  "fst (allow t t' b) = None \<longleftrightarrow> state (maybeTransitionFromOpen t b) \<noteq> StateOpen"
  by (auto simp: allow_def Let_def split: State.split)

lemma cb_inv_New: "cb_inv (breaker_New os)"
  by (simp add: cb_inv_def breaker_New_def)

lemma cb_inv_maybe [inv_intros]: "cb_inv b \<Longrightarrow> cb_inv (maybeTransitionFromOpen t b)"
  by (auto simp: cb_inv_def maybeTransitionFromOpen_def transition_def Let_def)

lemma cb_inv_record [inv_intros]: "cb_inv b \<Longrightarrow> cb_inv (breaker_record t e b)"
  by (cases "state b")
    (auto simp: cb_inv_def breaker_record_def record_closed_def record_half_open_def
      transition_def Let_def)

lemma cb_inv_Reset [inv_intros]: "cb_inv b \<Longrightarrow> cb_inv (breaker_Reset b)"
  by (auto simp: cb_inv_def breaker_Reset_def transition_def Let_def)

section \<open>The notifications\<close>

text \<open>
  The edges of the state machine. \<open>Reset\<close> may also close an open breaker.
\<close>

fun legal_edge :: "State \<times> State \<Rightarrow> bool" where
  "legal_edge (StateClosed, t) = (t = StateOpen)"
| "legal_edge (StateOpen, t) = (t = StateHalfOpen \<or> t = StateClosed)"
| "legal_edge (StateHalfOpen, t) = (t = StateOpen \<or> t = StateClosed)"

fun edge_path :: "State \<Rightarrow> (State \<times> State) list \<Rightarrow> State \<Rightarrow> bool" where
  "edge_path s [] t = (s = t)"
| "edge_path s (e # es) t = (fst e = s \<and> legal_edge e \<and> edge_path (snd e) es t)"

lemma edge_path_snoc:
  "edge_path s (es @ [e]) t \<longleftrightarrow> (edge_path s es (fst e) \<and> legal_edge e \<and> snd e = t)"
  by (induction es arbitrary: s) auto

definition cb_notified :: "breaker \<Rightarrow> bool" where
  "cb_notified b \<longleftrightarrow>
     (if onStateChange (opts b) then edge_path StateClosed (spawned b) (state b)
      else spawned b = [])"

lemma notified_transition:
  "cb_notified b \<Longrightarrow> state b = to \<or> legal_edge (state b, to) \<Longrightarrow> cb_notified (transition to b)"
  by (auto simp: cb_notified_def transition_def Let_def edge_path_snoc)

lemma notified_upd [simp]:
  "cb_notified (b\<lparr>failures := f\<rparr>) = cb_notified b"
  "cb_notified (b\<lparr>probes := p\<rparr>) = cb_notified b"
  "cb_notified (b\<lparr>openedAt := t\<rparr>) = cb_notified b"
  by (simp_all add: cb_notified_def)

lemma legal_to_closed: "s = StateClosed \<or> legal_edge (s, StateClosed)"
  by (cases s) auto

lemma notified_New: "cb_notified (breaker_New os)"
  by (simp add: cb_notified_def breaker_New_def)

lemma notified_maybe [inv_intros]: "cb_notified b \<Longrightarrow> cb_notified (maybeTransitionFromOpen t b)"
  by (simp add: maybeTransitionFromOpen_def notified_transition)

lemma notified_record [inv_intros]: "cb_notified b \<Longrightarrow> cb_notified (breaker_record t e b)"
  by (cases "state b")
    (auto simp: breaker_record_def record_closed_def record_half_open_def Let_def
      intro!: notified_transition)

lemma notified_Reset [inv_intros]: "cb_notified b \<Longrightarrow> cb_notified (breaker_Reset b)"
  using legal_to_closed [of "state b"] by (auto simp: breaker_Reset_def intro!: notified_transition)

section \<open>Interleaved calls\<close>

text \<open>
  Any number of goroutines call \<open>Execute\<close>, \<open>State\<close> and \<open>Reset\<close>. \<open>inflight\<close> counts the calls
  between their \<open>allow\<close> and their \<open>record\<close>; the clock never runs backwards. \<open>Finish\<close> is a
  \<open>record\<close> by any of the calls in flight, with whatever its function returned.
\<close>

record cb_sys =
  brk :: breaker
  inflight :: nat
  clock :: gotime

datatype cb_event = Tick | Admit | Reject err | Finish "err option" | ResetCall | StateCall

inductive cb_step :: "cb_sys \<Rightarrow> cb_event \<Rightarrow> cb_sys \<Rightarrow> bool" where
  tick: "clock s \<le> t \<Longrightarrow> cb_step s Tick (s\<lparr>clock := t\<rparr>)"
| admit: "allow (clock s) (clock s) (brk s) = (None, b) \<Longrightarrow>
    cb_step s Admit (s\<lparr>brk := b, inflight := Suc (inflight s)\<rparr>)"
| reject: "allow (clock s) (clock s) (brk s) = (Some e, b) \<Longrightarrow> cb_step s (Reject e) (s\<lparr>brk := b\<rparr>)"
| finish: "inflight s = Suc n \<Longrightarrow>
    cb_step s (Finish e) (s\<lparr>brk := breaker_record (clock s) e (brk s), inflight := n\<rparr>)"
| reset: "cb_step s ResetCall (s\<lparr>brk := breaker_Reset (brk s)\<rparr>)"
| look: "cb_step s StateCall (s\<lparr>brk := snd (breaker_State (clock s) (brk s))\<rparr>)"

definition cb_init :: "(options \<Rightarrow> options) list \<Rightarrow> cb_sys \<Rightarrow> bool" where
  "cb_init os s \<longleftrightarrow> brk s = breaker_New os \<and> inflight s = 0"

abbreviation cb_reach :: "(options \<Rightarrow> options) list \<Rightarrow> cb_sys \<Rightarrow> bool" where
  "cb_reach os \<equiv> reach (cb_init os) cb_step"

lemmas cb_reach_step = reach_step [where trans = cb_step]

lemma cb_step_inv:
  "cb_step s ev s' \<Longrightarrow> cb_inv (brk s) \<and> cb_notified (brk s) \<Longrightarrow> cb_inv (brk s') \<and> cb_notified (brk s')"
proof (induction rule: cb_step.induct)
  case (admit s b)
  then have "b = maybeTransitionFromOpen (clock s) (brk s)" by (metis snd_allow snd_conv)
  with admit show ?case by (simp add: inv_intros)
next
  case (reject s e b)
  then have "b = maybeTransitionFromOpen (clock s) (brk s)" by (metis snd_allow snd_conv)
  with reject show ?case by (simp add: inv_intros)
qed (simp_all add: inv_intros snd_State)

interpretation cbs: step_invariant "cb_init os" cb_step "\<lambda>s. cb_inv (brk s) \<and> cb_notified (brk s)"
  for os
  by unfold_locales (simp add: cb_init_def cb_inv_New notified_New, rule cb_step_inv)


text \<open>A run that trips a breaker with threshold 1 and lets the open timeout pass.\<close>

abbreviation demo_options :: "(options \<Rightarrow> options) list" where
  "demo_options \<equiv> [WithFailureThreshold 1, WithOpenTimeout 10, WithOnStateChange]"

abbreviation demo_tripped :: breaker where
  "demo_tripped \<equiv>
     \<lparr>state = StateOpen, failures = 1, probes = 0, openedAt = 7,
      opts = \<lparr>failureThreshold = 1, successThreshold = 1, openTimeout = 10, onStateChange = True\<rparr>,
      spawned = [(StateClosed, StateOpen)]\<rparr>"

lemma demo_trip_reach: "cb_reach demo_options \<lparr>brk = demo_tripped, inflight = 0, clock = 7\<rparr>"
proof -
  let ?b = "breaker_New demo_options"
  let ?s0 = "\<lparr>brk = ?b, inflight = 0, clock = 7\<rparr>"
  have "cb_step ?s0 Admit (?s0\<lparr>brk := ?b, inflight := Suc (inflight ?s0)\<rparr>)"
    by (rule cb_step.admit)
      (simp add: allow_def maybeTransitionFromOpen_def breaker_New_def Let_def)
  then have 1: "cb_step ?s0 Admit (?s0\<lparr>inflight := 1\<rparr>)" by simp
  have "cb_step (?s0\<lparr>inflight := 1\<rparr>) (Finish (Some Canceled))
      ((?s0\<lparr>inflight := 1\<rparr>)\<lparr>brk := breaker_record (clock (?s0\<lparr>inflight := 1\<rparr>)) (Some Canceled)
        (brk (?s0\<lparr>inflight := 1\<rparr>)), inflight := 0\<rparr>)"
    by (rule cb_step.finish) simp
  then have 2: "cb_step (?s0\<lparr>inflight := 1\<rparr>) (Finish (Some Canceled))
      \<lparr>brk = demo_tripped, inflight = 0, clock = 7\<rparr>"
    by (simp add: breaker_record_def record_closed_def transition_def breaker_New_def Let_def
        WithFailureThreshold_def WithOpenTimeout_def WithOnStateChange_def)
  have "cb_reach demo_options ?s0" by (rule reach_start) (simp add: cb_init_def)
  then show ?thesis by (rule cb_reach_step [OF cb_reach_step [OF _ 1] 2])
qed


section \<open>When the breaker trips\<close>

text \<open>
  What a closed breaker does with a sequence of outcomes, and the reference: it opens exactly
  when the sequence has a window of \<open>failureThreshold\<close> consecutive failures.
\<close>

definition record_all :: "(gotime \<times> err option) list \<Rightarrow> breaker \<Rightarrow> breaker" where
  "record_all es b = fold (\<lambda>(t, e). breaker_record t e) es b"

abbreviation failed :: "gotime \<times> err option \<Rightarrow> bool" where "failed te \<equiv> snd te \<noteq> None"

fun opens :: "nat \<Rightarrow> nat \<Rightarrow> bool list \<Rightarrow> bool" where
  "opens n k [] = False"
| "opens n k (x # xs) = (if x then n \<le> Suc k \<or> opens n (Suc k) xs else opens n 0 xs)"

lemma record_all_simps [simp]:
  "record_all [] b = b"
  "record_all ((t, e) # es) b = record_all es (breaker_record t e b)"
  by (simp_all add: record_all_def)

lemma record_all_open: "state b = StateOpen \<Longrightarrow> record_all es b = b"
  by (induction es) (auto simp: breaker_record_def)

lemma state_record_closed:
  assumes "state b = StateClosed"
  shows "state (breaker_record t e b) =
      (if e \<noteq> None \<and> failureThreshold (opts b) \<le> failures b + 1 then StateOpen else StateClosed)"
    and "e = None \<Longrightarrow> failures (breaker_record t e b) = 0"
    and "e \<noteq> None \<Longrightarrow> failures (breaker_record t e b) = failures b + 1"
  using assms by (auto simp: breaker_record_def record_closed_def transition_def Let_def)

lemma record_all_opens:
  assumes "state b = StateClosed" "0 \<le> failures b" "1 \<le> failureThreshold (opts b)"
  shows "state (record_all es b) = StateOpen \<longleftrightarrow>
    opens (nat (failureThreshold (opts b))) (nat (failures b)) (map failed es)"
  using assms
proof (induction es arbitrary: b)
  case Nil
  then show ?case by simp
next
  case (Cons te es)
  obtain t e where te: "te = (t, e)" by (cases te)
  let ?b = "breaker_record t e b"
  show ?case
  proof (cases "state ?b = StateOpen")
    case True
    with Cons.prems te show ?thesis
      by (auto simp: record_all_open state_record_closed split: if_splits)
  next
    case False
    with Cons.prems have closed: "state ?b = StateClosed"
      by (simp add: state_record_closed split: if_splits)
    show ?thesis
    proof (cases "e = None")
      case True
      with Cons.IH [of ?b] closed Cons.prems te show ?thesis
        by (simp add: state_record_closed)
    next
      case e: False
      with False Cons.prems have "failures b + 1 < failureThreshold (opts b)"
        by (simp add: state_record_closed split: if_splits)
      then have "\<not> nat (failureThreshold (opts b)) \<le> Suc (nat (failures b))"
        using Cons.prems by linarith
      with Cons.IH [of ?b] closed Cons.prems te e show ?thesis
        by (simp add: state_record_closed nat_add_distrib)
    qed
  qed
qed

lemma take_replicate_mono:
  "take n xs = replicate n x \<Longrightarrow> m \<le> n \<Longrightarrow> take m xs = replicate m x"
  by (metis min.absorb1 take_replicate take_take)

lemma opens_iff:
  "k < n \<Longrightarrow> opens n k xs \<longleftrightarrow>
     take (n - k) xs = replicate (n - k) True \<or> (\<exists>i. take n (drop i xs) = replicate n True)"
proof (induction xs arbitrary: k)
  case Nil
  then show ?case by auto
next
  case (Cons x xs)
  have win: "(\<exists>i. take n (drop i (x # xs)) = replicate n True) \<longleftrightarrow>
      take n (x # xs) = replicate n True \<or> (\<exists>i. take n (drop i xs) = replicate n True)"
    by (metis drop0 drop_Suc_Cons not0_implies_Suc)
  obtain m where n: "n = Suc m" using Cons.prems by (cases n) auto
  show ?case
  proof (cases x)
    case False
    have "opens n k (x # xs) \<longleftrightarrow> (\<exists>i. take n (drop i xs) = replicate n True)"
      using False n Cons.IH [of 0] by (auto intro: exI [of _ 0])
    moreover have "take (n - k) (x # xs) \<noteq> replicate (n - k) True"
      using False Cons.prems by (cases "n - k") auto
    ultimately show ?thesis using win False n by simp
  next
    case True
    show ?thesis
    proof (cases "n \<le> Suc k")
      case True
      with Cons.prems have "n - k = 1" by simp
      with True \<open>x\<close> show ?thesis by simp
    next
      case False
      then have nk: "n - k = Suc (n - Suc k)" by simp
      have "take n (x # xs) = replicate n True \<Longrightarrow>
          take (n - Suc k) xs = replicate (n - Suc k) True"
        using n \<open>x\<close> take_replicate_mono [of m xs True "n - Suc k"] by simp
      then show ?thesis
        using False \<open>x\<close> Cons.IH [of "Suc k"] win nk by auto
    qed
  qed
qed

text \<open>
  C7. Recording a sequence of outcomes on a closed breaker with no failures counted leaves it
  open exactly when some window of \<open>failureThreshold\<close> consecutive outcomes all failed: a
  success anywhere in between starts the count again.
\<close>

theorem breaker_trips_iff:
  assumes "state b = StateClosed" "failures b = 0" "1 \<le> failureThreshold (opts b)"
  shows "state (record_all es b) = StateOpen \<longleftrightarrow>
    (\<exists>i. take (nat (failureThreshold (opts b))) (drop i (map failed es)) =
         replicate (nat (failureThreshold (opts b))) True)"
proof -
  have "0 < nat (failureThreshold (opts b))" using assms by simp
  from opens_iff [OF this, of "map failed es"] show ?thesis
    using record_all_opens [of b es] assms by (auto intro: exI [of _ 0])
qed

theorem breaker_trips_iff_witness:
  "state (record_all [(1, None), (2, Some Canceled), (3, Some Canceled)]
     (breaker_New [WithFailureThreshold 2])) = StateOpen"
proof -
  let ?b = "breaker_New [WithFailureThreshold 2]"
  have b: "state ?b = StateClosed" "failures ?b = 0" "failureThreshold (opts ?b) = 2"
    by (simp_all add: breaker_New_def WithFailureThreshold_def)
  have "take 2 (drop 1 (map failed [(1, None), (2, Some Canceled), (3, Some Canceled)])) =
      replicate 2 True" by (simp add: numeral_2_eq_2)
  then show ?thesis
    using breaker_trips_iff [of ?b "[(1, None), (2, Some Canceled), (3, Some Canceled)]"] b
    by (metis nat_numeral one_le_numeral)
qed

section \<open>Open and half-open\<close>

text \<open>
  While the open timeout has not passed, \<open>Execute\<close> does not call the function (the world
  is unchanged), returns the zero value with an error that wraps \<open>ErrOpen\<close>, and leaves the
  breaker as it was; once it has passed, the call goes through and its outcome is recorded on
  the half-open breaker.
\<close>

theorem breaker_open_Execute:
  assumes "state b = StateOpen" "min_int64 < openTimeout (opts b)" "openTimeout (opts b) \<le> max_int64"
  shows "if now < openedAt b + openTimeout (opts b)
    then \<exists>e. breaker_Execute now now' now2 zero fn w b = ((zero, Some e), w, b) \<and> errors_Is e ErrOpen
    else breaker_Execute now now' now2 zero fn w b =
      (fst (fn w), snd (fn w), breaker_record now2 (snd (fst (fn w))) (transition StateHalfOpen b))"
proof (cases "now < openedAt b + openTimeout (opts b)")
  case True
  then have "maybeTransitionFromOpen now b = b"
    using time_Sub_ge_iff [OF assms(2,3), of now "openedAt b"]
    by (simp add: maybeTransitionFromOpen_def)
  with True assms(1) show ?thesis
    by (auto simp: breaker_Execute_def allow_def Let_def intro: errors_Is_wrap)
next
  case False
  then have "maybeTransitionFromOpen now b = transition StateHalfOpen b"
    using time_Sub_ge_iff [OF assms(2,3), of now "openedAt b"] assms(1)
    by (simp add: maybeTransitionFromOpen_def)
  moreover have "state (transition StateHalfOpen b) = StateHalfOpen"
    by (simp add: transition_def Let_def)
  ultimately show ?thesis using False
    by (simp add: breaker_Execute_def allow_def Let_def split: prod.split)
qed

theorem breaker_open_Execute_witness:
  "\<exists>e. breaker_Execute 9 9 9 0 (\<lambda>w. ((1, None), w + 1)) (0::nat) demo_tripped =
     ((0::nat, Some e), 0, demo_tripped) \<and> errors_Is e ErrOpen"
  using breaker_open_Execute [of demo_tripped 9 9 9 "0::nat" "\<lambda>w. ((1, None), w + 1)" "0::nat"]
  by simp

lemma record_half_open_success:
  assumes "state b = StateHalfOpen"
  shows "breaker_record t None b =
    (if successThreshold (opts b) \<le> probes b + 1
     then transition StateClosed (b\<lparr>failures := 0, probes := 0\<rparr>)
     else b\<lparr>probes := probes b + 1\<rparr>)"
  using assms by (simp add: breaker_record_def record_half_open_def Let_def)

lemma record_all_half_open:
  "state b = StateHalfOpen \<Longrightarrow> probes b + int (length ts) < successThreshold (opts b) \<Longrightarrow>
     record_all (map (\<lambda>t. (t, None)) ts) b = b\<lparr>probes := probes b + int (length ts)\<rparr>"
proof (induction ts arbitrary: b)
  case Nil
  then show ?case by simp
next
  case (Cons t ts)
  let ?b = "b\<lparr>probes := probes b + 1\<rparr>"
  from Cons.prems have "breaker_record t None b = ?b" by (simp add: record_half_open_success)
  with Cons.IH [of ?b] Cons.prems show ?case by (simp add: add.assoc)
qed

text \<open>
  A half-open breaker without successes counted stays half-open for fewer than
  \<open>successThreshold\<close> successes, closes with both counters at zero on the success that reaches
  it, and opens again on a failure at any point before that, with the open period counted from
  the failure.
\<close>

theorem breaker_half_open_recovery:
  assumes "state b = StateHalfOpen" "probes b = 0" "int (length ts) < successThreshold (opts b)"
  shows "state (record_all (map (\<lambda>t. (t, None)) ts) b) = StateHalfOpen \<and>
    (int (length ts) + 1 = successThreshold (opts b) \<longrightarrow>
       (let b' = record_all (map (\<lambda>t. (t, None)) (ts @ [t])) b in
        state b' = StateClosed \<and> failures b' = 0 \<and> probes b' = 0)) \<and>
    (let b' = record_all (map (\<lambda>t. (t, None)) ts @ [(t, Some e)]) b in
      state b' = StateOpen \<and> openedAt b' = t \<and> failures b' = 0 \<and> probes b' = 0)"
proof -
  have app: "record_all (xs @ ys) b = record_all ys (record_all xs b)" for xs ys
    by (simp add: record_all_def)
  have run: "record_all (map (\<lambda>t. (t, None)) ts) b = b\<lparr>probes := int (length ts)\<rparr>"
    using record_all_half_open [of b ts] assms by simp
  show ?thesis
    using assms by (simp add: app run record_half_open_success transition_def Let_def
        breaker_record_def record_half_open_def)
qed

theorem breaker_half_open_recovery_witness:
  "state (record_all [(1, None), (2, None)]
     (demo_tripped\<lparr>state := StateHalfOpen,
        opts := (opts demo_tripped)\<lparr>successThreshold := 2\<rparr>\<rparr>)) = StateClosed"
  using breaker_half_open_recovery [of
      "demo_tripped\<lparr>state := StateHalfOpen, opts := (opts demo_tripped)\<lparr>successThreshold := 2\<rparr>\<rparr>"
      "[1]" 2 Canceled]
  by (simp add: Let_def)

text \<open>
  The half-open state does not limit the number of probes: for every \<open>n\<close> there is a
  reachable half-open breaker with \<open>n\<close> admitted calls in flight. (The package comment and the
  README announce a limited number of probes, and the README only one.)
\<close>

theorem breaker_half_open_unlimited:
  "\<exists>s. cb_reach demo_options s \<and> state (brk s) = StateHalfOpen \<and> inflight s = Suc n"
proof -
  let ?h = "demo_tripped\<lparr>state := StateHalfOpen,
    spawned := [(StateClosed, StateOpen), (StateOpen, StateHalfOpen)]\<rparr>"
  let ?s = "\<lambda>k. \<lparr>brk = ?h, inflight = k, clock = 17\<rparr>"
  let ?o = "\<lparr>brk = demo_tripped, inflight = 0, clock = 7\<rparr>"
  have open17: "cb_reach demo_options (?o\<lparr>clock := 17\<rparr>)"
    by (rule cb_reach_step [OF demo_trip_reach cb_step.tick]) simp
  have "cb_step (?o\<lparr>clock := 17\<rparr>) Admit
      ((?o\<lparr>clock := 17\<rparr>)\<lparr>brk := ?h, inflight := Suc (inflight (?o\<lparr>clock := 17\<rparr>))\<rparr>)"
    by (rule cb_step.admit)
      (simp add: allow_def maybeTransitionFromOpen_def transition_def Let_def time_Sub_def sat64_def)
  from cb_reach_step [OF open17 this] have first: "cb_reach demo_options (?s 1)" by simp
  have more: "cb_step (?s k) Admit (?s (Suc k))" for k
  proof -
    have "cb_step (?s k) Admit ((?s k)\<lparr>brk := ?h, inflight := Suc (inflight (?s k))\<rparr>)"
      by (rule cb_step.admit) (simp add: allow_def maybeTransitionFromOpen_def Let_def)
    then show ?thesis by simp
  qed
  have "cb_reach demo_options (?s (Suc n))"
  proof (induction n)
    case 0
    show ?case using first by simp
  next
    case (Suc n)
    show ?case by (rule cb_reach_step [OF Suc more])
  qed
  then show ?thesis by (intro exI [of _ "?s (Suc n)"]) simp
qed

end
