(* ===== verification/LruCache.thy ===== *)
theory LruCache
  imports GoStd
begin

text \<open>
  The in-memory LRU cache, \<open>pkg/cache/cache.go\<close>: the doubly linked list of
  \<open>container/list\<close> with the map that points into it, the operations, the invariant that ties
  the two together, and the refinement to a plain list of entries in order of use.
\<close>

section \<open>State\<close>

text \<open>
  List elements are addresses; \<open>clist\<close> is the list from front to back, \<open>heap\<close> holds the entry
  an element's \<open>Value\<close> points to, \<open>fresh\<close> is the next address. The mutex makes every method
  atomic; the clock readings of a method are its arguments.
\<close>

record ('k, 'v) entry =
  ekey :: 'k
  evalue :: 'v
  expiresAt :: gotime

record ('k, 'v) cache =
  capacity :: int
  ttl :: duration
  clist :: "nat list"
  heap :: "nat \<rightharpoonup> ('k, 'v) entry"
  fresh :: nat
  items :: "'k \<rightharpoonup> nat"
  hits :: "64 word"
  misses :: "64 word"
  evicts :: "64 word"

text \<open>\<open>container/list\<close>: an element that is not in the list is left alone.\<close>

definition list_MoveToFront :: "nat \<Rightarrow> nat list \<Rightarrow> nat list" where
  "list_MoveToFront el l = (if el \<in> set l then el # remove1 el l else l)"

definition list_Remove :: "nat \<Rightarrow> nat list \<Rightarrow> nat list" where
  "list_Remove el l = remove1 el l"

definition list_Back :: "nat list \<Rightarrow> nat option" where
  "list_Back l = (if l = [] then None else Some (last l))"

abbreviation entry_at :: "('k, 'v) cache \<Rightarrow> nat \<Rightarrow> ('k, 'v) entry" where
  "entry_at c el \<equiv> the (heap c el)"

section \<open>Operations\<close>

definition cache_WithTTL :: "duration \<Rightarrow> ('k, 'v) cache \<Rightarrow> ('k, 'v) cache" where
  "cache_WithTTL d c = c\<lparr>ttl := d\<rparr>"

text \<open>\<open>New\<close> panics (\<open>None\<close>) on a capacity below 1.\<close>

definition cache_New ::
  "int \<Rightarrow> (('k, 'v) cache \<Rightarrow> ('k, 'v) cache) list \<Rightarrow> ('k, 'v) cache option" where
  "cache_New cap os =
     (if cap < 1 then None
      else Some (fold (\<lambda>opt c. opt c) os
        \<lparr>capacity = cap, ttl = 0, clist = [], heap = Map.empty, fresh = 0, items = Map.empty,
         hits = 0, misses = 0, evicts = 0\<rparr>))"

definition newExpiry :: "gotime \<Rightarrow> ('k, 'v) cache \<Rightarrow> gotime" where
  "newExpiry now c = (if ttl c = 0 then 0 else time_Add now (ttl c))"

definition isExpired :: "gotime \<Rightarrow> ('k, 'v) entry \<Rightarrow> bool" where
  "isExpired now e \<longleftrightarrow> \<not> time_IsZero (expiresAt e) \<and> expiresAt e < now"

definition removeElement :: "nat \<Rightarrow> ('k, 'v) cache \<Rightarrow> ('k, 'v) cache" where
  "removeElement el c =
     c\<lparr>clist := list_Remove el (clist c), items := (items c)(ekey (entry_at c el) := None)\<rparr>"

definition evictOldest :: "('k, 'v) cache \<Rightarrow> ('k, 'v) cache" where
  "evictOldest c =
     (case list_Back (clist c) of
        None \<Rightarrow> c
      | Some el \<Rightarrow> (removeElement el c)\<lparr>evicts := evicts c + 1\<rparr>)"

definition cache_Get :: "gotime \<Rightarrow> 'k \<Rightarrow> ('k, 'v) cache \<Rightarrow> 'v option \<times> ('k, 'v) cache" where
  "cache_Get now key c =
     (case items c key of
        None \<Rightarrow> (None, c\<lparr>misses := misses c + 1\<rparr>)
      | Some el \<Rightarrow>
          let e = entry_at c el in
          if isExpired now e then (None, (removeElement el c)\<lparr>misses := misses c + 1\<rparr>)
          else (Some (evalue e), c\<lparr>clist := list_MoveToFront el (clist c), hits := hits c + 1\<rparr>))"

definition cache_Set :: "gotime \<Rightarrow> 'k \<Rightarrow> 'v \<Rightarrow> ('k, 'v) cache \<Rightarrow> ('k, 'v) cache" where
  "cache_Set now key value c =
     (case items c key of
        Some el \<Rightarrow>
          c\<lparr>clist := list_MoveToFront el (clist c),
            heap := (heap c)(el \<mapsto> (entry_at c el)\<lparr>evalue := value, expiresAt := newExpiry now c\<rparr>)\<rparr>
      | None \<Rightarrow>
          let c = (if capacity c \<le> int (length (clist c)) then evictOldest c else c);
              e = \<lparr>ekey = key, evalue = value, expiresAt = newExpiry now c\<rparr>;
              el = fresh c
          in c\<lparr>clist := el # clist c, heap := (heap c)(el \<mapsto> e), fresh := Suc el,
               items := (items c)(key \<mapsto> el)\<rparr>)"

definition cache_Delete :: "'k \<Rightarrow> ('k, 'v) cache \<Rightarrow> ('k, 'v) cache" where
  "cache_Delete key c = (case items c key of Some el \<Rightarrow> removeElement el c | None \<Rightarrow> c)"

definition cache_Clear :: "('k, 'v) cache \<Rightarrow> ('k, 'v) cache" where
  "cache_Clear c = c\<lparr>clist := [], items := Map.empty\<rparr>"

definition cache_Len :: "('k, 'v) cache \<Rightarrow> int" where
  "cache_Len c = int (length (clist c))"

record Stats =
  Hits :: "64 word"
  Misses :: "64 word"
  Evicts :: "64 word"
  Len :: int

definition cache_Stats :: "('k, 'v) cache \<Rightarrow> Stats" where
  "cache_Stats c =
     \<lparr>Hits = hits c, Misses = misses c, Evicts = evicts c, Len = int (length (clist c))\<rparr>"

text \<open>
  The sweep of the janitor walks from the back to the front; \<open>Prev\<close> is read before an
  element is removed, so it visits the elements of the list it started with. The \<open>i\<close>-th
  element visited is checked at the reading \<open>clk i\<close> of the clock.
\<close>

fun sweep :: "(nat \<Rightarrow> gotime) \<Rightarrow> nat \<Rightarrow> nat list \<Rightarrow> ('k, 'v) cache \<Rightarrow> ('k, 'v) cache" where
  "sweep clk i [] c = c"
| "sweep clk i (el # els) c =
     sweep clk (Suc i) els (if isExpired (clk i) (entry_at c el) then removeElement el c else c)"

definition deleteExpired :: "(nat \<Rightarrow> gotime) \<Rightarrow> ('k, 'v) cache \<Rightarrow> ('k, 'v) cache" where
  "deleteExpired clk c = (if ttl c = 0 then c else sweep clk 0 (rev (clist c)) c)"

text \<open>
  The goroutine of \<open>StartJanitor\<close> over what its select receives: a tick, with the clock readings of its
  sweep, or the end of the context. \<open>Inl\<close> is the panic of \<open>time.NewTicker\<close>.
\<close>

datatype janitor_event = JanitorTick "nat \<Rightarrow> gotime" | JanitorDone

fun janitor_loop :: "janitor_event list \<Rightarrow> ('k, 'v) cache \<Rightarrow> ('k, 'v) cache" where
  "janitor_loop [] c = c"
| "janitor_loop (JanitorDone # evs) c = c"
| "janitor_loop (JanitorTick clk # evs) c = janitor_loop evs (deleteExpired clk c)"

definition StartJanitor :: "duration \<Rightarrow> janitor_event list \<Rightarrow> ('k, 'v) cache \<Rightarrow> string + ('k, 'v) cache" where
  "StartJanitor interval evs c =
     (if interval \<le> 0 then Inl ''non-positive interval for NewTicker'' else Inr (janitor_loop evs c))"

section \<open>Invariant\<close>

definition cache_inv :: "('k, 'v) cache \<Rightarrow> bool" where
  "cache_inv c \<longleftrightarrow>
     1 \<le> capacity c \<and> int (length (clist c)) \<le> capacity c \<and> distinct (clist c) \<and>
     (\<forall>el \<in> set (clist c). el \<in> dom (heap c)) \<and> (\<forall>el \<in> dom (heap c). el < fresh c) \<and>
     (\<forall>k el. items c k = Some el \<longleftrightarrow> el \<in> set (clist c) \<and> ekey (entry_at c el) = k)"

definition entries :: "('k, 'v) cache \<Rightarrow> ('k, 'v) entry list" where
  "entries c = map (entry_at c) (clist c)"

lemma inv_items: "cache_inv c \<Longrightarrow> items c k = Some el \<longleftrightarrow> el \<in> set (clist c) \<and> ekey (entry_at c el) = k"
  by (auto simp: cache_inv_def)

lemma inv_items_None: "cache_inv c \<Longrightarrow> items c k = None \<longleftrightarrow> k \<notin> ekey ` set (entries c)"
  using inv_items [of c k] by (auto simp: entries_def simp flip: not_Some_eq)

lemma inv_key_inj:
  "cache_inv c \<Longrightarrow> el \<in> set (clist c) \<Longrightarrow> el' \<in> set (clist c) \<Longrightarrow>
     ekey (entry_at c el) = ekey (entry_at c el') \<longleftrightarrow> el = el'"
  by (metis inv_items option.inject)

lemma distinct_entries: "cache_inv c \<Longrightarrow> distinct (map ekey (entries c))"
  using inv_key_inj [of c] by (auto simp: entries_def distinct_map inj_on_def cache_inv_def)

lemma inv_items_el:
  "cache_inv c \<Longrightarrow> el \<in> set (clist c) \<Longrightarrow> items c (ekey (entry_at c el)) = Some el"
  by (simp add: inv_items)

lemma removeElement_simps [simp]:
  "capacity (removeElement el c) = capacity c" "ttl (removeElement el c) = ttl c"
  "heap (removeElement el c) = heap c" "fresh (removeElement el c) = fresh c"
  "clist (removeElement el c) = remove1 el (clist c)"
  by (simp_all add: removeElement_def list_Remove_def)

lemma inv_removeElement [inv_intros]:
  assumes "cache_inv c" "el \<in> set (clist c)"
  shows "cache_inv (removeElement el c)"
proof -
  have "distinct (clist c)" using assms by (simp add: cache_inv_def)
  then have set: "set (remove1 el (clist c)) = set (clist c) - {el}" by (simp add: set_remove1_eq)
  have "items (removeElement el c) k = Some x \<longleftrightarrow>
      x \<in> set (remove1 el (clist c)) \<and> ekey (entry_at c x) = k" for k x
    using inv_items [OF assms(1), of k x] inv_key_inj [OF assms, of x]
    by (auto simp: removeElement_def set)
  moreover have "length (remove1 el (clist c)) \<le> length (clist c)"
    by (simp add: length_remove1)
  ultimately show ?thesis using assms set by (auto simp: cache_inv_def)
qed

lemma entries_removeElement:
  assumes "cache_inv c" "el \<in> set (clist c)"
  shows "entries (removeElement el c) = filter (\<lambda>e. ekey e \<noteq> ekey (entry_at c el)) (entries c)"
proof -
  have "remove1 el (clist c) = filter (\<lambda>x. ekey (entry_at c x) \<noteq> ekey (entry_at c el)) (clist c)"
    using assms inv_key_inj [OF assms(1) _ assms(2)]
    by (auto simp: distinct_remove1_filter cache_inv_def intro: filter_cong)
  then show ?thesis by (simp add: entries_def filter_map o_def)
qed

lemma cache_counters [simp]:
  "cache_inv (c\<lparr>hits := n\<rparr>) = cache_inv c" "entries (c\<lparr>hits := n\<rparr>) = entries c"
  "cache_inv (c\<lparr>misses := n\<rparr>) = cache_inv c" "entries (c\<lparr>misses := n\<rparr>) = entries c"
  "cache_inv (c\<lparr>evicts := n\<rparr>) = cache_inv c" "entries (c\<lparr>evicts := n\<rparr>) = entries c"
  by (simp_all add: cache_inv_def entries_def)

lemma inv_touch [inv_intros]:
  assumes "cache_inv c" "el \<in> set (clist c)"
  shows "cache_inv (c\<lparr>clist := list_MoveToFront el (clist c)\<rparr>)"
proof -
  have "set (el # remove1 el (clist c)) = set (clist c)"
    using assms(2) by (rule set_remove1_Cons)
  moreover have "length (el # remove1 el (clist c)) = length (clist c)"
    using assms(2) by (simp add: length_remove1) (metis Suc_pred length_pos_if_in_set)
  ultimately show ?thesis
    using assms distinct_remove1_Cons [of "clist c" el]
    by (simp add: cache_inv_def list_MoveToFront_def)
qed

lemma entries_touch:
  assumes "cache_inv c" "el \<in> set (clist c)"
  shows "entries (c\<lparr>clist := list_MoveToFront el (clist c)\<rparr>) =
    entry_at c el # filter (\<lambda>e. ekey e \<noteq> ekey (entry_at c el)) (entries c)"
  using entries_removeElement [OF assms] assms(2)
  by (simp add: entries_def list_MoveToFront_def)

lemma inv_overwrite [inv_intros]:
  assumes "cache_inv c" "el \<in> set (clist c)" "ekey e = ekey (entry_at c el)"
  shows "cache_inv (c\<lparr>heap := (heap c)(el \<mapsto> e)\<rparr>)"
proof -
  have "ekey (the (((heap c)(el \<mapsto> e)) x)) = ekey (entry_at c x)" for x
    using assms(3) by simp
  then show ?thesis using assms unfolding cache_inv_def by auto
qed

lemma entries_overwrite:
  assumes "cache_inv c" "el \<in> set (clist c)" "ekey e = ekey (entry_at c el)"
  shows "filter (\<lambda>x. ekey x \<noteq> ekey e) (entries (c\<lparr>heap := (heap c)(el \<mapsto> e)\<rparr>)) =
    filter (\<lambda>x. ekey x \<noteq> ekey e) (entries c)"
proof -
  have "x \<in> set (clist c) \<Longrightarrow> ekey (entry_at c x) \<noteq> ekey e \<Longrightarrow> x \<noteq> el" for x
    using assms by auto
  moreover have "x \<in> set (clist c) \<Longrightarrow>
      ekey (the (((heap c)(el \<mapsto> e)) x)) = ekey e \<longleftrightarrow> ekey (entry_at c x) = ekey e" for x
    using assms by auto
  ultimately show ?thesis
    by (auto simp: entries_def filter_map o_def intro!: map_cong filter_cong)
qed

lemma inv_push [inv_intros]:
  assumes "cache_inv c" "items c (ekey e) = None" "int (length (clist c)) < capacity c"
  shows "cache_inv (c\<lparr>clist := fresh c # clist c, heap := (heap c)(fresh c \<mapsto> e),
    fresh := Suc (fresh c), items := (items c)(ekey e \<mapsto> fresh c)\<rparr>)"
proof -
  have new: "fresh c \<notin> set (clist c)" using assms(1) by (auto simp: cache_inv_def)
  have key: "x \<in> set (clist c) \<Longrightarrow> ekey (entry_at c x) \<noteq> ekey e" for x
    using inv_items [OF assms(1), of "ekey e" x] assms(2) by auto
  have "((items c)(ekey e \<mapsto> fresh c)) k = Some x \<longleftrightarrow>
      x \<in> set (fresh c # clist c) \<and> ekey (the (((heap c)(fresh c \<mapsto> e)) x)) = k" for k x
    using inv_items [OF assms(1), of k x] new key [of x] by auto
  then show ?thesis using assms new unfolding cache_inv_def by (auto simp: less_Suc_eq)
qed

lemma entries_push:
  assumes "cache_inv c"
  shows "entries (c\<lparr>clist := fresh c # clist c, heap := (heap c)(fresh c \<mapsto> e),
    fresh := Suc (fresh c), items := (items c)(ekey e \<mapsto> fresh c)\<rparr>) = e # entries c"
  using assms by (auto simp: entries_def cache_inv_def)

lemma evictOldest_nonempty:
  assumes "cache_inv c" "clist c \<noteq> []"
  shows "cache_inv (evictOldest c)" "entries (evictOldest c) = butlast (entries c)"
    "length (clist (evictOldest c)) < length (clist c)"
    "capacity (evictOldest c) = capacity c" "ttl (evictOldest c) = ttl c"
    "items c k = None \<Longrightarrow> items (evictOldest c) k = None"
proof -
  have ev: "evictOldest c = (removeElement (last (clist c)) c)\<lparr>evicts := evicts c + 1\<rparr>"
    using assms(2) by (simp add: evictOldest_def list_Back_def)
  have last: "last (clist c) \<in> set (clist c)" using assms(2) by simp
  show "cache_inv (evictOldest c)" using assms(1) last by (simp add: ev inv_intros)
  have "remove1 (last (clist c)) (clist c) = butlast (clist c)"
    using assms by (simp add: distinct_remove1_filter butlast_filter_last cache_inv_def)
  then show "entries (evictOldest c) = butlast (entries c)"
    "length (clist (evictOldest c)) < length (clist c)"
    using assms(2) by (simp_all add: ev entries_def map_butlast)
  show "capacity (evictOldest c) = capacity c" "ttl (evictOldest c) = ttl c"
    by (simp_all add: ev)
  show "items c k = None \<Longrightarrow> items (evictOldest c) k = None"
    by (simp add: ev removeElement_def)
qed

section \<open>The specification: entries in order of use\<close>

record ('k, 'v) lru =
  lcap :: int
  lttl :: duration
  lents :: "('k, 'v) entry list"

definition lru_without :: "'k \<Rightarrow> ('k, 'v) lru \<Rightarrow> ('k, 'v) entry list" where
  "lru_without k s = filter (\<lambda>e. ekey e \<noteq> k) (lents s)"

definition lru_entry :: "gotime \<Rightarrow> 'k \<Rightarrow> 'v \<Rightarrow> ('k, 'v) lru \<Rightarrow> ('k, 'v) entry" where
  "lru_entry now k v s =
     \<lparr>ekey = k, evalue = v, expiresAt = (if lttl s = 0 then 0 else now + lttl s)\<rparr>"

fun lru_sweep :: "(nat \<Rightarrow> gotime) \<Rightarrow> nat \<Rightarrow> ('k, 'v) entry list \<Rightarrow> ('k, 'v) entry list" where
  "lru_sweep clk i [] = []"
| "lru_sweep clk i (e # es) =
     (if isExpired (clk i) e then lru_sweep clk (Suc i) es else e # lru_sweep clk (Suc i) es)"

datatype ('k, 'v) cache_op =
    OpGet gotime 'k
  | OpSet gotime 'k 'v
  | OpDelete 'k
  | OpClear
  | OpJanitor "nat \<Rightarrow> gotime"

fun lru_do :: "('k, 'v) cache_op \<Rightarrow> ('k, 'v) lru \<Rightarrow> 'v option \<times> ('k, 'v) lru" where
  "lru_do (OpGet now k) s =
     (case find (\<lambda>e. ekey e = k) (lents s) of
        None \<Rightarrow> (None, s)
      | Some e \<Rightarrow>
          if isExpired now e then (None, s\<lparr>lents := lru_without k s\<rparr>)
          else (Some (evalue e), s\<lparr>lents := e # lru_without k s\<rparr>))"
| "lru_do (OpSet now k v) s =
     (None, s\<lparr>lents := lru_entry now k v s #
        (if k \<in> ekey ` set (lents s) then lru_without k s
         else if lcap s \<le> int (length (lents s)) then butlast (lents s) else lents s)\<rparr>)"
| "lru_do (OpDelete k) s = (None, s\<lparr>lents := lru_without k s\<rparr>)"
| "lru_do OpClear s = (None, s\<lparr>lents := []\<rparr>)"
| "lru_do (OpJanitor clk) s =
     (None, if lttl s = 0 then s else s\<lparr>lents := rev (lru_sweep clk 0 (rev (lents s)))\<rparr>)"

fun cache_do :: "('k, 'v) cache_op \<Rightarrow> ('k, 'v) cache \<Rightarrow> 'v option \<times> ('k, 'v) cache" where
  "cache_do (OpGet now k) c = cache_Get now k c"
| "cache_do (OpSet now k v) c = (None, cache_Set now k v c)"
| "cache_do (OpDelete k) c = (None, cache_Delete k c)"
| "cache_do OpClear c = (None, cache_Clear c)"
| "cache_do (OpJanitor clk) c = (None, deleteExpired clk c)"

definition cache_abs :: "('k, 'v) cache \<Rightarrow> ('k, 'v) lru" where
  "cache_abs c = \<lparr>lcap = capacity c, lttl = ttl c, lents = entries c\<rparr>"

section \<open>Refinement\<close>

lemma find_distinct:
  "distinct (map f xs) \<Longrightarrow> x \<in> set xs \<Longrightarrow> find (\<lambda>y. f y = f x) xs = Some x"
  by (induction xs) auto

lemma find_entries:
  assumes "cache_inv c"
  shows "find (\<lambda>e. ekey e = k) (entries c) = map_option (entry_at c) (items c k)"
proof (cases "items c k")
  case None
  with inv_items_None [OF assms, of k] show ?thesis by (auto simp: find_None_iff)
next
  case (Some el)
  then have "entry_at c el \<in> set (entries c)" "ekey (entry_at c el) = k"
    using inv_items [OF assms, of k el] by (auto simp: entries_def)
  with Some find_distinct [OF distinct_entries [OF assms], of "entry_at c el"] show ?thesis by simp
qed

lemma items_el: "cache_inv c \<Longrightarrow> items c k = Some el \<Longrightarrow> el \<in> set (clist c)"
  and items_key: "cache_inv c \<Longrightarrow> items c k = Some el \<Longrightarrow> ekey (entry_at c el) = k"
  by (simp_all add: inv_items)

lemma length_entries [simp]: "length (entries c) = length (clist c)"
  by (simp add: entries_def)

lemma Get_correct:
  assumes "cache_inv c"
  shows "cache_inv (snd (cache_Get now k c)) \<and>
    lru_do (OpGet now k) (cache_abs c) =
      (fst (cache_Get now k c), cache_abs (snd (cache_Get now k c)))"
proof (cases "items c k")
  case None
  with assms show ?thesis
    by (simp add: cache_Get_def cache_abs_def find_entries)
next
  case (Some el)
  with assms show ?thesis
    by (auto simp: cache_Get_def cache_abs_def find_entries Let_def lru_without_def
        items_el items_key entries_removeElement entries_touch inv_intros)
qed

lemma Delete_correct:
  assumes "cache_inv c"
  shows "cache_inv (cache_Delete k c) \<and>
    lru_do (OpDelete k) (cache_abs c) = (None, cache_abs (cache_Delete k c))"
proof (cases "items c k")
  case None
  with inv_items_None [OF assms, of k] have "filter (\<lambda>e. ekey e \<noteq> k) (entries c) = entries c"
    by (auto simp: filter_id_conv)
  with None assms show ?thesis by (simp add: cache_Delete_def cache_abs_def lru_without_def)
next
  case (Some el)
  with assms show ?thesis
    by (simp add: cache_Delete_def cache_abs_def lru_without_def items_el items_key
        entries_removeElement inv_intros)
qed

lemma Set_overwrite_correct:
  assumes "cache_inv c" "items c k = Some el"
  shows "cache_inv (cache_Set now k v c) \<and>
    lru_do (OpSet now k v) (cache_abs c) = (None, cache_abs (cache_Set now k v c))"
proof -
  let ?e = "(entry_at c el)\<lparr>evalue := v, expiresAt := newExpiry now c\<rparr>"
  let ?c = "c\<lparr>heap := (heap c)(el \<mapsto> ?e)\<rparr>"
  have el: "el \<in> set (clist c)" and k: "ekey (entry_at c el) = k"
    using assms by (simp_all add: inv_items)
  have inv: "cache_inv ?c" using assms(1) el by (simp add: inv_intros)
  have set: "cache_Set now k v c = ?c\<lparr>clist := list_MoveToFront el (clist ?c)\<rparr>"
    using assms(2) by (simp add: cache_Set_def)
  have "k \<in> ekey ` set (entries c)" using el k by (force simp: entries_def)
  moreover have "entries (cache_Set now k v c) = ?e # filter (\<lambda>e. ekey e \<noteq> k) (entries c)"
    using entries_touch [OF inv, of el] entries_overwrite [OF assms(1) el, of ?e] el k
    unfolding set by simp
  moreover have "?e = lru_entry now k v (cache_abs c)"
    using k by (simp add: lru_entry_def newExpiry_def cache_abs_def go_defs)
  ultimately show ?thesis
    using inv_touch [OF inv, of el] el unfolding set
    by (simp add: cache_abs_def lru_without_def)
qed

lemma Set_insert_correct:
  assumes "cache_inv c" "items c k = None"
  shows "cache_inv (cache_Set now k v c) \<and>
    lru_do (OpSet now k v) (cache_abs c) = (None, cache_abs (cache_Set now k v c))"
proof -
  let ?c = "if capacity c \<le> int (length (clist c)) then evictOldest c else c"
  let ?e = "\<lparr>ekey = k, evalue = v, expiresAt = newExpiry now ?c\<rparr>"
  have ne: "capacity c \<le> int (length (clist c)) \<Longrightarrow> clist c \<noteq> []"
    using assms(1) by (auto simp: cache_inv_def)
  have inv: "cache_inv ?c" and None: "items ?c (ekey ?e) = None"
    and len: "int (length (clist ?c)) < capacity ?c"
    using evictOldest_nonempty [OF assms(1) ne] assms by (auto simp: cache_inv_def)
  have set: "cache_Set now k v c =
      ?c\<lparr>clist := fresh ?c # clist ?c, heap := (heap ?c)(fresh ?c \<mapsto> ?e), fresh := Suc (fresh ?c),
        items := (items ?c)(ekey ?e \<mapsto> fresh ?c)\<rparr>"
    unfolding cache_Set_def Let_def assms(2) by simp
  have "entries (cache_Set now k v c) = ?e # entries ?c"
    unfolding set by (rule entries_push [OF inv])
  moreover have "?e = lru_entry now k v (cache_abs c)"
    using evictOldest_nonempty(5) [OF assms(1) ne]
    by (simp add: lru_entry_def newExpiry_def cache_abs_def go_defs)
  moreover have "entries ?c = (if capacity c \<le> int (length (clist c)) then butlast (entries c) else entries c)"
    using evictOldest_nonempty(2) [OF assms(1) ne] by simp
  moreover have "k \<notin> ekey ` set (entries c)" using assms by (simp add: inv_items_None)
  moreover have "capacity (cache_Set now k v c) = capacity c" "ttl (cache_Set now k v c) = ttl c"
    using evictOldest_nonempty(4,5) [OF assms(1) ne] unfolding set by simp_all
  ultimately show ?thesis
    using inv_push [OF inv None len] unfolding set by (simp add: cache_abs_def)
qed

lemma Set_correct:
  assumes "cache_inv c"
  shows "cache_inv (cache_Set now k v c) \<and>
    lru_do (OpSet now k v) (cache_abs c) = (None, cache_abs (cache_Set now k v c))"
  using Set_overwrite_correct [OF assms] Set_insert_correct [OF assms]
  by (cases "items c k") blast+

lemma Clear_correct:
  "cache_inv c \<Longrightarrow> cache_inv (cache_Clear c) \<and>
     lru_do OpClear (cache_abs c) = (None, cache_abs (cache_Clear c))"
  by (simp add: cache_Clear_def cache_abs_def entries_def cache_inv_def)

lemma sweep_correct:
  assumes "cache_inv c" "clist c = rev els @ post"
  shows "cache_inv (sweep clk i els c) \<and> capacity (sweep clk i els c) = capacity c \<and>
    ttl (sweep clk i els c) = ttl c \<and>
    entries (sweep clk i els c) =
      rev (lru_sweep clk i (map (entry_at c) els)) @ map (entry_at c) post"
  using assms
proof (induction els arbitrary: i c post)
  case Nil
  then show ?case by (simp add: entries_def)
next
  case (Cons el els)
  have d: "distinct (clist c)" using Cons.prems(1) by (simp add: cache_inv_def)
  show ?case
  proof (cases "isExpired (clk i) (entry_at c el)")
    case True
    have "clist (removeElement el c) = rev els @ post"
      using Cons.prems(2) d by (simp add: remove1_append)
    moreover have "cache_inv (removeElement el c)"
      using Cons.prems by (simp add: inv_intros)
    ultimately show ?thesis using Cons.IH [of "removeElement el c" post] True by simp
  next
    case False
    then show ?thesis using Cons.IH [of c "el # post" "Suc i"] Cons.prems by simp
  qed
qed

lemma Janitor_correct:
  assumes "cache_inv c"
  shows "cache_inv (deleteExpired clk c) \<and>
    lru_do (OpJanitor clk) (cache_abs c) = (None, cache_abs (deleteExpired clk c))"
  using sweep_correct [OF assms, of "rev (clist c)" "[]" clk 0] assms
  by (simp add: deleteExpired_def cache_abs_def entries_def rev_map)

interpretation lru: refinement cache_do lru_do cache_abs cache_inv
proof
  fix c :: "('a, 'b) cache" and x :: "('a, 'b) cache_op"
  assume "cache_inv c"
  then show "cache_inv (snd (cache_do x c))"
    and "lru_do x (cache_abs c) = (fst (cache_do x c), cache_abs (snd (cache_do x c)))"
    by (cases x; simp add: Get_correct Set_correct Delete_correct Clear_correct Janitor_correct
        del: lru_do.simps)+
qed

text \<open>The janitor is a sequence of sweeps of the specification, up to the end of its context.\<close>

fun janitor_ops :: "janitor_event list \<Rightarrow> ('k, 'v) cache_op list" where
  "janitor_ops [] = []"
| "janitor_ops (JanitorDone # evs) = []"
| "janitor_ops (JanitorTick clk # evs) = OpJanitor clk # janitor_ops evs"

lemma janitor_loop_run: "janitor_loop evs c = snd (run cache_do (janitor_ops evs) c)"
  by (induction evs c rule: janitor_loop.induct) simp_all

lemma StartJanitor_refines:
  assumes "cache_inv c" "StartJanitor interval evs c = Inr c'"
  shows "cache_inv c'" "cache_abs c' = snd (run lru_do (janitor_ops evs) (cache_abs c))"
  using assms lru.good_run [of c "janitor_ops evs"] lru.spec_run [of c "janitor_ops evs"]
  by (auto simp: StartJanitor_def janitor_loop_run split: if_splits)

section \<open>Properties\<close>

lemma New_inv:
  "cache_New cap [cache_WithTTL d] = Some c \<Longrightarrow>
     cache_inv c \<and> cache_abs c = \<lparr>lcap = cap, lttl = d, lents = []\<rparr>"
  by (auto simp: cache_New_def cache_WithTTL_def cache_inv_def cache_abs_def entries_def
      split: if_splits)

text \<open>
  C4. Started from a new cache, every sequence of \<open>Get\<close>, \<open>Set\<close>, \<open>Delete\<close>, \<open>Clear\<close> and janitor
  sweeps returns the results, and leads to the entries, of the specification that keeps one
  list of entries in order of use; the list, the map and the stored entries agree at every
  point, and the capacity is never exceeded.
\<close>

theorem cache_refines_lru:
  assumes "cache_New cap [cache_WithTTL d] = Some c"
  shows "cache_inv (snd (run cache_do ops c)) \<and>
    run lru_do ops \<lparr>lcap = cap, lttl = d, lents = []\<rparr> =
      (fst (run cache_do ops c), cache_abs (snd (run cache_do ops c)))"
  using New_inv [OF assms] lru.good_run [of c ops] lru.spec_run [of c ops] by simp

theorem cache_refines_lru_witness:
  "\<exists>c :: (nat, nat) cache. cache_New 1 [cache_WithTTL 5] = Some c \<and>
     run lru_do [OpSet 0 3 7, OpGet 4 3] \<lparr>lcap = 1, lttl = 5, lents = []\<rparr> =
       (fst (run cache_do [OpSet 0 3 7, OpGet 4 3] c),
        cache_abs (snd (run cache_do [OpSet 0 3 7, OpGet 4 3] c)))"
proof -
  obtain c :: "(nat, nat) cache" where c: "cache_New 1 [cache_WithTTL 5] = Some c"
    by (simp add: cache_New_def)
  show ?thesis using c cache_refines_lru [OF c, of "[OpSet 0 3 7, OpGet 4 3]"] by blast
qed

text \<open>What a new key does to the list of keys in order of use, in closed form.\<close>

lemma take_filter_notin:
  "x \<notin> set (take n xs) \<Longrightarrow> take m (filter (\<lambda>y. y \<noteq> x) xs) = take m xs" if "m \<le> n"
  using that
proof (induction xs arbitrary: m n)
  case Nil
  then show ?case by simp
next
  case (Cons y ys)
  then show ?case by (cases m; cases n) auto
qed

lemma take_use_order:
  assumes "distinct xs" "1 \<le> n"
  shows "x # (if x \<in> set (take n xs) then filter (\<lambda>y. y \<noteq> x) (take n xs)
      else if n \<le> length (take n xs) then butlast (take n xs) else take n xs) =
    take n (x # filter (\<lambda>y. y \<noteq> x) xs)"
proof -
  obtain m where n: "n = Suc m" using assms(2) by (cases n) auto
  show ?thesis
  proof (cases "x \<in> set (take n xs)")
    case True
    then obtain as bs where xs: "xs = as @ x # bs"
      by (meson in_set_takeD split_list)
    have notin: "x \<notin> set as" "x \<notin> set bs" using assms(1) xs by auto
    then have keep: "filter (\<lambda>y. y \<noteq> x) as = as" "filter (\<lambda>y. y \<noteq> x) bs = bs"
      "filter (\<lambda>y. y \<noteq> x) (take j bs) = take j bs" for j
      by (auto simp: filter_id_conv dest: in_set_takeD)
    have "length as < n"
      using True xs notin by (auto simp: take_Cons' dest: in_set_takeD split: if_splits)
    then show ?thesis
      using True xs n by (simp add: keep take_Cons')
  next
    case False
    from take_filter_notin [OF _ False, of m] n
    have "take m (filter (\<lambda>y. y \<noteq> x) xs) = take m xs" by simp
    with False n show ?thesis
      by (cases "n \<le> length xs") (simp_all add: butlast_take min_absorb2 del: take_all_iff)
  qed
qed

lemma rev_remdups_snoc:
  "rev (remdups (xs @ [x])) = x # filter (\<lambda>y. y \<noteq> x) (rev (remdups xs))"
  by (induction xs) auto

lemma lru_set_keys:
  assumes "1 \<le> lcap s"
  shows "map ekey (lents (snd (lru_do (OpSet t k v) s))) =
    (let ks = map ekey (lents s) in
     k # (if k \<in> set ks then filter (\<lambda>y. y \<noteq> k) ks
       else if nat (lcap s) \<le> length ks then butlast ks else ks))"
  using assms
  by (simp add: lru_entry_def lru_without_def filter_map o_def map_butlast nat_le_iff Let_def)

lemma lru_set_cap [simp]: "lcap (snd (lru_do x s)) = lcap s"
  by (cases x) (auto split: option.split)

lemma lru_sets_keys:
  assumes "1 \<le> lcap s" "lents s = []"
  shows "map ekey (lents (snd (run lru_do (map (\<lambda>(t, k, v). OpSet t k v) kvs) s))) =
      take (nat (lcap s)) (rev (remdups (map (\<lambda>(t, k, v). k) kvs)))
    \<and> lcap (snd (run lru_do (map (\<lambda>(t, k, v). OpSet t k v) kvs) s)) = lcap s"
proof (induction kvs rule: rev_induct)
  case Nil
  then show ?case using assms by simp
next
  case (snoc tkv kvs)
  obtain t k v where tkv: "tkv = (t, k, v)" by (cases tkv)
  let ?s = "snd (run lru_do (map (\<lambda>(t, k, v). OpSet t k v) kvs) s)"
  let ?ks = "rev (remdups (map (\<lambda>(t, k, v). k) kvs))" and ?n = "nat (lcap s)"
  from snoc have keys: "map ekey (lents ?s) = take ?n ?ks" and cap: "lcap ?s = lcap s" by auto
  have "map ekey (lents (snd (lru_do (OpSet t k v) ?s))) =
      take ?n (rev (remdups (map (\<lambda>(t, k, v). k) (kvs @ [tkv]))))"
    using lru_set_keys [of ?s t k v] take_use_order [of ?ks ?n k] assms(1) tkv
    unfolding keys cap Let_def by (simp add: rev_remdups_snoc)
  then show ?case using tkv cap by (simp add: run_append del: lru_do.simps)
qed

text \<open>
  What the cache holds after any sequence of \<open>Set\<close> calls on a new cache: exactly the
  \<open>capacity\<close> most recently set distinct keys, most recent first.
\<close>

theorem cache_holds_most_recent:
  assumes "cache_New cap [cache_WithTTL d] = Some c"
  shows "map ekey (entries (snd (run cache_do (map (\<lambda>(t, k, v). OpSet t k v) kvs) c))) =
    take (nat cap) (rev (remdups (map (\<lambda>(t, k, v). k) kvs)))"
proof -
  have "1 \<le> cap" using assms by (simp add: cache_New_def split: if_splits)
  then have "map ekey (lents (cache_abs (snd (run cache_do (map (\<lambda>(t, k, v). OpSet t k v) kvs) c)))) =
      take (nat cap) (rev (remdups (map (\<lambda>(t, k, v). k) kvs)))"
    using lru.spec_run [of c "map (\<lambda>(t, k, v). OpSet t k v) kvs"] New_inv [OF assms]
      lru_sets_keys [of "cache_abs c" kvs] by simp
  then show ?thesis by (simp add: cache_abs_def)
qed

theorem cache_holds_most_recent_witness:
  "\<exists>c :: (nat, nat) cache. cache_New 2 [cache_WithTTL 0] = Some c \<and>
     map ekey (entries (snd (run cache_do [OpSet 0 1 10, OpSet 0 2 20, OpSet 0 1 11, OpSet 0 3 30] c)))
       = [3, 1]"
proof -
  obtain c :: "(nat, nat) cache" where c: "cache_New 2 [cache_WithTTL 0] = Some c"
    by (simp add: cache_New_def)
  from cache_holds_most_recent [OF c, of "[(0, 1, 10), (0, 2, 20), (0, 1, 11), (0, 3, 30)]"] c
  show ?thesis by (intro exI [of _ c]) simp
qed

text \<open>
  How long an entry survives. An operation \<open>spares\<close> an entry when it neither replaces nor
  deletes it and reads the clock, if it looks at the entry, before its expiry; \<open>used_keys\<close> are
  the other keys that \<open>Get\<close> and \<open>Set\<close> calls name.
\<close>

fun spares :: "('k, 'v) entry \<Rightarrow> ('k, 'v) cache_op \<Rightarrow> bool" where
  "spares e (OpGet now k) = (k = ekey e \<longrightarrow> \<not> isExpired now e)"
| "spares e (OpSet now k v) = (k \<noteq> ekey e)"
| "spares e (OpDelete k) = (k \<noteq> ekey e)"
| "spares e OpClear = False"
| "spares e (OpJanitor clk) = (\<forall>i. \<not> isExpired (clk i) e)"

fun op_keys :: "('k, 'v) cache_op \<Rightarrow> 'k set" where
  "op_keys (OpGet now k) = {k}"
| "op_keys (OpSet now k v) = {k}"
| "op_keys _ = {}"

definition used_keys :: "'k \<Rightarrow> ('k, 'v) cache_op list \<Rightarrow> 'k set" where
  "used_keys k ops = (\<Union>x \<in> set ops. op_keys x) - {k}"

text \<open>\<open>held e U s\<close>: the entry is in the list, and only keys of \<open>U\<close> have been used since it was.\<close>

definition held :: "('k, 'v) entry \<Rightarrow> 'k set \<Rightarrow> ('k, 'v) lru \<Rightarrow> bool" where
  "held e U s \<longleftrightarrow> distinct (map ekey (lents s)) \<and> int (length (lents s)) \<le> lcap s \<and>
     (\<exists>as bs. lents s = as @ e # bs \<and> ekey ` set as \<subseteq> U)"

lemma lru_sweep_append:
  "lru_sweep clk i (xs @ ys) = lru_sweep clk i xs @ lru_sweep clk (i + length xs) ys"
  by (induction xs arbitrary: i) auto

lemma set_lru_sweep: "set (lru_sweep clk i xs) \<subseteq> set xs"
  by (induction xs arbitrary: i) (auto split: if_splits)

lemma length_lru_sweep: "length (lru_sweep clk i xs) \<le> length xs"
  by (induction xs arbitrary: i) (auto intro: le_SucI)

lemma distinct_lru_sweep: "distinct (map f xs) \<Longrightarrow> distinct (map f (lru_sweep clk i xs))"
proof (induction xs arbitrary: i)
  case Nil
  then show ?case by simp
next
  case (Cons x xs)
  then show ?case using set_lru_sweep [of clk "Suc i" xs] by auto
qed

lemma held_find: "held e U s \<Longrightarrow> find (\<lambda>x. ekey x = ekey e) (lents s) = Some e"
  unfolding held_def by (metis find_distinct in_set_conv_decomp)

lemma heldI:
  "xs = as @ e # bs \<Longrightarrow> ekey ` set as \<subseteq> U \<Longrightarrow> distinct (map ekey xs) \<Longrightarrow>
     int (length xs) \<le> lcap s \<Longrightarrow> held e U (s\<lparr>lents := xs\<rparr>)"
  by (auto simp: held_def)

lemma held_cap: "held e U s \<Longrightarrow> n \<le> length (lents s) \<Longrightarrow> int n \<le> lcap s"
  by (auto simp: held_def)

lemma held_without:
  assumes "held e U s" "k \<noteq> ekey e"
  shows "held e U (s\<lparr>lents := lru_without k s\<rparr>)"
proof -
  obtain as bs where ab: "lents s = as @ e # bs" "ekey ` set as \<subseteq> U"
    using assms(1) by (auto simp: held_def)
  then have 1: "lru_without k s = filter (\<lambda>x. ekey x \<noteq> k) as @ e # filter (\<lambda>x. ekey x \<noteq> k) bs"
    using assms(2) by (simp add: lru_without_def)
  have 2: "ekey ` set (filter (\<lambda>x. ekey x \<noteq> k) as) \<subseteq> U" using ab(2) by auto
  have 3: "distinct (map ekey (lru_without k s))"
    using assms(1) by (simp add: held_def lru_without_def distinct_map_filter)
  have 4: "length (lru_without k s) \<le> length (lents s)" by (simp add: lru_without_def)
  show ?thesis by (rule heldI [OF 1 2 3 held_cap [OF assms(1) 4]])
qed

lemma held_front:
  assumes "held e U s" "ekey y \<in> ekey ` set (lents s)" "if ekey y = ekey e then y = e else ekey y \<in> U"
  shows "held e U (s\<lparr>lents := y # lru_without (ekey y) s\<rparr>)"
proof -
  have "length (lru_without (ekey y) s) < length (lents s)"
    using assms(2) unfolding lru_without_def by (auto intro: length_filter_less)
  then have 4: "length (y # lru_without (ekey y) s) \<le> length (lents s)" by simp
  have 3: "distinct (map ekey (y # lru_without (ekey y) s))"
    using assms(1) by (auto simp: held_def lru_without_def distinct_map_filter)
  show ?thesis
  proof (cases "ekey y = ekey e")
    case True
    with assms(3) have 1: "y # lru_without (ekey y) s = [] @ e # lru_without (ekey y) s" by simp
    show ?thesis by (rule heldI [OF 1 _ 3 held_cap [OF assms(1) 4]]) simp
  next
    case False
    then obtain as bs where "lru_without (ekey y) s = as @ e # bs" "ekey ` set as \<subseteq> U"
      using held_without [OF assms(1), of "ekey y"] by (auto simp: held_def)
    then have 1: "y # lru_without (ekey y) s = (y # as) @ e # bs" and 2: "ekey ` set (y # as) \<subseteq> U"
      using assms(3) False by auto
    show ?thesis by (rule heldI [OF 1 2 3 held_cap [OF assms(1) 4]])
  qed
qed

lemma held_push:
  assumes "held e U s" "ekey y \<notin> ekey ` set (lents s)" "ekey y \<in> U" "finite U" "int (card U) < lcap s"
  shows "held e U (s\<lparr>lents := y #
    (if lcap s \<le> int (length (lents s)) then butlast (lents s) else lents s)\<rparr>)"
proof -
  obtain as bs where ab: "lents s = as @ e # bs" "ekey ` set as \<subseteq> U"
    and dist: "distinct (map ekey (lents s))" and len: "int (length (lents s)) \<le> lcap s"
    using assms(1) by (auto simp: held_def)
  have as: "ekey ` set (y # as) \<subseteq> U" using ab(2) assms(3) by simp
  show ?thesis
  proof (cases "lcap s \<le> int (length (lents s))")
    case False
    have 1: "y # lents s = (y # as) @ e # bs" using ab(1) by simp
    have 3: "distinct (map ekey (y # lents s))" using dist assms(2) by simp
    have "held e U (s\<lparr>lents := y # lents s\<rparr>)"
      by (rule heldI [OF 1 as 3]) (use False in simp)
    with False show ?thesis by simp
  next
    case True
    have "bs \<noteq> []"
    proof
      assume "bs = []"
      have "distinct (map ekey (y # as))" using dist assms(2) ab(1) by auto
      then have "card (ekey ` set (y # as)) = Suc (length as)"
        by (metis distinct_card length_Cons length_map set_map)
      then have "Suc (length as) \<le> card U" using as card_mono [OF assms(4)] by metis
      with True ab(1) \<open>bs = []\<close> assms(5) show False by simp
    qed
    then have 1: "y # butlast (lents s) = (y # as) @ e # butlast bs"
      using ab(1) by (simp add: butlast_append)
    have 3: "distinct (map ekey (y # butlast (lents s)))"
      using dist assms(2) by (auto simp: map_butlast distinct_butlast dest: in_set_butlastD)
    have "held e U (s\<lparr>lents := y # butlast (lents s)\<rparr>)"
      by (rule heldI [OF 1 as 3]) (use len ab(1) in simp)
    with True show ?thesis by simp
  qed
qed

lemma held_sweep:
  assumes "held e U s" "\<forall>i. \<not> isExpired (clk i) e"
  shows "held e U (s\<lparr>lents := rev (lru_sweep clk 0 (rev (lents s)))\<rparr>)"
proof -
  obtain as bs where ab: "lents s = as @ e # bs" "ekey ` set as \<subseteq> U"
    using assms(1) by (auto simp: held_def)
  let ?f = "\<lambda>i xs. rev (lru_sweep clk i (rev xs))"
  have 1: "?f 0 (lents s) = ?f (Suc (length bs)) as @ e # ?f 0 bs"
    using assms(2) ab(1) by (simp add: lru_sweep_append)
  have 2: "ekey ` set (?f (Suc (length bs)) as) \<subseteq> U"
    using ab(2) set_lru_sweep [of clk "Suc (length bs)" "rev as"] by auto
  have 3: "distinct (map ekey (?f 0 (lents s)))"
    using assms(1) distinct_lru_sweep [of ekey "rev (lents s)" clk 0]
    by (simp add: held_def flip: rev_map)
  have 4: "length (?f 0 (lents s)) \<le> length (lents s)"
    using length_lru_sweep [of clk 0 "rev (lents s)"] by simp
  show ?thesis by (rule heldI [OF 1 2 3 held_cap [OF assms(1) 4]])
qed

lemma held_do:
  assumes "held e U s" "spares e x" "op_keys x \<subseteq> insert (ekey e) U" "finite U"
    "int (card U) < lcap s"
  shows "held e U (snd (lru_do x s))"
proof (cases x)
  case (OpGet now k)
  show ?thesis
  proof (cases "find (\<lambda>x. ekey x = k) (lents s)")
    case None
    with OpGet assms(1) show ?thesis by simp
  next
    case (Some y)
    then have y: "y \<in> set (lents s)" "ekey y = k" by (auto simp: find_Some_iff)
    have ye: "k = ekey e \<Longrightarrow> y = e" using Some held_find [OF assms(1)] by simp
    show ?thesis
      using OpGet Some assms(2,3) y ye held_without [OF assms(1), of k] held_front [OF assms(1), of y]
      by auto
  qed
next
  case (OpSet now k v)
  then show ?thesis
    using assms held_front [OF assms(1), of "lru_entry now k v s"]
      held_push [OF assms(1) _ _ assms(4,5), of "lru_entry now k v s"]
    by (auto simp: lru_entry_def)
next
  case (OpDelete k)
  with assms show ?thesis by (simp add: held_without)
next
  case OpClear
  with assms show ?thesis by simp
next
  case (OpJanitor clk)
  with assms show ?thesis by (simp add: held_sweep)
qed

lemma held_run:
  assumes "held e U s" "\<forall>x \<in> set ops. spares e x" "used_keys (ekey e) ops \<subseteq> U" "finite U"
    "int (card U) < lcap s"
  shows "held e U (snd (run lru_do ops s))"
  using assms
proof (induction ops arbitrary: s)
  case Nil
  then show ?case by simp
next
  case (Cons x ops)
  have "held e U (snd (lru_do x s))"
    using Cons.prems by (intro held_do) (auto simp: used_keys_def)
  with Cons.IH [of "snd (lru_do x s)"] Cons.prems show ?case by (auto simp: used_keys_def)
qed

lemma finite_used_keys: "finite (used_keys k ops)"
proof -
  have "finite (op_keys x)" for x :: "('a, 'b) cache_op" by (cases x) auto
  then show ?thesis by (simp add: used_keys_def)
qed

lemma held_after_Set:
  assumes "cache_inv c" "e = \<lparr>ekey = k, evalue = v, expiresAt = newExpiry now c\<rparr>"
  shows "held e U (cache_abs (cache_Set now k v c))"
proof -
  let ?c = "cache_Set now k v c"
  have inv: "cache_inv ?c" and abs: "lru_do (OpSet now k v) (cache_abs c) = (None, cache_abs ?c)"
    using Set_correct [OF assms(1)] by blast+
  have "e = lru_entry now k v (cache_abs c)"
    using assms(2) by (simp add: lru_entry_def cache_abs_def newExpiry_def go_defs)
  moreover have "lents (cache_abs ?c) = lents (snd (lru_do (OpSet now k v) (cache_abs c)))"
    unfolding abs by simp
  ultimately obtain bs where "lents (cache_abs ?c) = [] @ e # bs" by simp
  moreover have "int (length (entries ?c)) \<le> capacity ?c" using inv by (simp add: cache_inv_def)
  ultimately show ?thesis
    using distinct_entries [OF inv] heldI [of "entries ?c" "[]" e bs U "cache_abs ?c"]
    by (simp add: cache_abs_def)
qed

text \<open>
  A value stored under a key is what a later \<open>Get\<close> of the key returns, whatever calls come
  in between, as long as they do not overwrite, delete or clear it, its time to live has not
  run out at any of the clock readings that look at it, and they name fewer than \<open>capacity\<close>
  distinct other keys.
\<close>

theorem cache_Get_after_Set:
  assumes "cache_inv c" "e = \<lparr>ekey = k, evalue = v, expiresAt = newExpiry now c\<rparr>"
    "\<forall>x \<in> set ops. spares e x" "int (card (used_keys k ops)) < capacity c" "\<not> isExpired now' e"
  shows "fst (cache_Get now' k (snd (run cache_do ops (cache_Set now k v c)))) = Some v"
proof -
  let ?c = "cache_Set now k v c"
  have inv: "cache_inv ?c" and abs: "lru_do (OpSet now k v) (cache_abs c) = (None, cache_abs ?c)"
    using Set_correct [OF assms(1)] by blast+
  have cap: "lcap (cache_abs ?c) = capacity c"
    using lru_set_cap [of "OpSet now k v" "cache_abs c"] unfolding abs by (simp add: cache_abs_def)
  have k: "ekey e = k" and v: "evalue e = v" using assms(2) by simp_all
  have "held e (used_keys k ops) (snd (run lru_do ops (cache_abs ?c)))"
    using held_run [OF held_after_Set [OF assms(1,2)] assms(3), of "used_keys k ops"]
      finite_used_keys [of k ops] assms(4) k cap by simp
  then have "held e (used_keys k ops) (cache_abs (snd (run cache_do ops ?c)))"
    by (simp add: lru.spec_run [OF inv])
  then have "find (\<lambda>x. ekey x = k) (lents (cache_abs (snd (run cache_do ops ?c)))) = Some e"
    using held_find k by metis
  then have "fst (lru_do (OpGet now' k) (cache_abs (snd (run cache_do ops ?c)))) = Some v"
    using assms(5) v by simp
  then show ?thesis
    using Get_correct [OF lru.good_run [OF inv, of ops], of now' k] by simp
qed

theorem cache_Get_after_Set_witness:
  "\<exists>c :: (nat, nat) cache. cache_New 2 [cache_WithTTL 100] = Some c \<and>
     fst (cache_Get 50 1 (snd (run cache_do [OpSet 5 2 20, OpGet 9 2] (cache_Set 3 1 10 c)))) = Some 10"
proof -
  obtain c :: "(nat, nat) cache" where c: "cache_New 2 [cache_WithTTL 100] = Some c"
    by (simp add: cache_New_def)
  have ttl: "newExpiry 3 c = 103" "capacity c = 2"
    using c by (auto simp: cache_New_def cache_WithTTL_def newExpiry_def time_Add_def)
  have "used_keys (1::nat) [OpSet 5 2 (20::nat), OpGet 9 2] = {2}" by (auto simp: used_keys_def)
  then have "fst (cache_Get 50 1 (snd (run cache_do [OpSet 5 2 20, OpGet 9 2] (cache_Set 3 1 10 c)))) = Some 10"
    by (intro cache_Get_after_Set [OF conjunct1 [OF New_inv [OF c]] refl])
      (simp_all add: ttl isExpired_def time_IsZero_def)
  with c show ?thesis by blast
qed

section \<open>Statistics\<close>

fun is_get :: "('k, 'v) cache_op \<Rightarrow> bool" where
  "is_get (OpGet now k) = True"
| "is_get _ = False"

lemma sweep_stats [simp]: "hits (sweep clk i els c) = hits c" "misses (sweep clk i els c) = misses c"
  by (induction els arbitrary: i c) (simp_all add: removeElement_def)

lemma stats_do:
  "hits (snd (cache_do x c)) + misses (snd (cache_do x c)) = hits c + misses c + (if is_get x then 1 else 0)
   \<and> hits (snd (cache_do x c)) = hits c + (if is_get x \<and> fst (cache_do x c) \<noteq> None then 1 else 0)"
proof (cases x)
  case (OpSet now k v)
  then show ?thesis
    by (simp add: cache_Set_def evictOldest_def removeElement_def Let_def split: option.split)
qed (auto simp: cache_Get_def cache_Delete_def cache_Clear_def deleteExpired_def removeElement_def
    Let_def split: option.split)

text \<open>
  The statistics of a new cache count, modulo \<open>2\<^sup>6\<^sup>4\<close>, every \<open>Get\<close> once: \<open>Hits\<close> the ones that
  returned a value, \<open>Hits + Misses\<close> all of them, and \<open>Len\<close> is the number of entries held.
\<close>

theorem cache_Stats_count:
  assumes "cache_New cap os = Some c" "\<forall>f \<in> set os. \<exists>d. f = cache_WithTTL d"
  shows "let st = cache_Stats (snd (run cache_do ops c)) in
    Hits st + Misses st = of_nat (length (filter is_get ops)) \<and>
    Hits st = of_nat (length (filter (\<lambda>(x, r). is_get x \<and> r \<noteq> None) (zip ops (fst (run cache_do ops c))))) \<and>
    Len st = int (length (entries (snd (run cache_do ops c))))"
proof -
  have "hits (fold (\<lambda>opt c. opt c) os c0) = hits c0 \<and> misses (fold (\<lambda>opt c. opt c) os c0) = misses c0"
    for c0 :: "('a, 'b) cache"
    using assms(2) by (induction os arbitrary: c0) (auto simp: cache_WithTTL_def)
  with assms(1) have zero: "hits c = 0" "misses c = 0" by (auto simp: cache_New_def split: if_splits)
  have "hits (snd (run cache_do ops c)) + misses (snd (run cache_do ops c)) =
      hits c + misses c + of_nat (length (filter is_get ops)) \<and>
    hits (snd (run cache_do ops c)) = hits c +
      of_nat (length (filter (\<lambda>(x, r). is_get x \<and> r \<noteq> None) (zip ops (fst (run cache_do ops c)))))"
  proof (induction ops arbitrary: c)
    case Nil
    then show ?case by simp
  next
    case (Cons x ops)
    show ?case using Cons.IH [of "snd (cache_do x c)"] stats_do [of x c] by (auto simp: ac_simps)
  qed
  then show ?thesis
    unfolding zero cache_Stats_def Let_def Stats.simps add_0_left length_entries by blast
qed

theorem cache_Stats_count_witness:
  "\<exists>c :: (nat, nat) cache. cache_New 2 [cache_WithTTL 100] = Some c \<and>
     Hits (cache_Stats (snd (run cache_do [OpSet 5 2 20, OpGet 9 2, OpGet 9 3] c))) +
     Misses (cache_Stats (snd (run cache_do [OpSet 5 2 20, OpGet 9 2, OpGet 9 3] c))) = 2"
proof -
  obtain c :: "(nat, nat) cache" where c: "cache_New 2 [cache_WithTTL 100] = Some c"
    by (simp add: cache_New_def)
  have "\<forall>f \<in> set [cache_WithTTL 100 :: (nat, nat) cache \<Rightarrow> _]. \<exists>d. f = cache_WithTTL d" by auto
  from cache_Stats_count [OF c this, of "[OpSet 5 2 20, OpGet 9 2, OpGet 9 3]"]
  have "Hits (cache_Stats (snd (run cache_do [OpSet 5 2 20, OpGet 9 2, OpGet 9 3] c))) +
     Misses (cache_Stats (snd (run cache_do [OpSet 5 2 20, OpGet 9 2, OpGet 9 3] c))) =
     of_nat (length (filter is_get [OpSet 5 2 20, OpGet 9 (2::nat), OpGet 9 (3::nat) :: (nat, nat) cache_op]))"
    unfolding Let_def by (rule conjunct1)
  then have "Hits (cache_Stats (snd (run cache_do [OpSet 5 2 20, OpGet 9 2, OpGet 9 3] c))) +
     Misses (cache_Stats (snd (run cache_do [OpSet 5 2 20, OpGet 9 2, OpGet 9 3] c))) = 2" by simp
  with c show ?thesis by blast
qed

end
