(* ===== verification/Floats.thy ===== *)
theory Floats
  imports GoStd Complex_Main
begin

text \<open>
  \<open>float64\<close> arithmetic. Finite floats are rationals; each operation computes the exact result
  and rounds it. The rounding function and the result of converting a float outside the range
  of \<open>int64\<close> (which Go leaves to the implementation) are parameters, collected in a record.
  NaN and the infinities are not values of the model; where the code divides, the theorems ask
  for a positive divisor.
\<close>

record fpu =
  rnd :: "rat \<Rightarrow> rat"
  f2i_out :: "rat \<Rightarrow> int"

definition fadd :: "fpu \<Rightarrow> rat \<Rightarrow> rat \<Rightarrow> rat" where "fadd fp a b = rnd fp (a + b)"
definition fsub :: "fpu \<Rightarrow> rat \<Rightarrow> rat \<Rightarrow> rat" where "fsub fp a b = rnd fp (a - b)"
definition fmul :: "fpu \<Rightarrow> rat \<Rightarrow> rat \<Rightarrow> rat" where "fmul fp a b = rnd fp (a * b)"
definition fdiv :: "fpu \<Rightarrow> rat \<Rightarrow> rat \<Rightarrow> rat" where "fdiv fp a b = rnd fp (a / b)"
definition i2f :: "fpu \<Rightarrow> int \<Rightarrow> rat" where "i2f fp n = rnd fp (of_int n)"

text \<open>Conversion to \<open>int64\<close> truncates towards zero.\<close>

definition trunc :: "rat \<Rightarrow> int" where
  "trunc x = (if 0 \<le> x then \<lfloor>x\<rfloor> else \<lceil>x\<rceil>)"

definition f2i :: "fpu \<Rightarrow> rat \<Rightarrow> int" where
  "f2i fp x = (if in_int64 (trunc x) then trunc x else f2i_out fp x)"

text \<open>\<open>time.Duration.Seconds\<close>: whole seconds plus the remaining nanoseconds over \<open>1e9\<close>.\<close>

definition duration_Seconds :: "fpu \<Rightarrow> duration \<Rightarrow> rat" where
  "duration_Seconds fp d =
     fadd fp (i2f fp (d sdiv Second)) (fdiv fp (i2f fp (d smod Second)) 1000000000)"

text \<open>
  What IEEE 754 promises of rounding to nearest: it is monotone and idempotent and does not
  change integers of up to 53 bits.
\<close>

definition fpu_ok :: "fpu \<Rightarrow> bool" where
  "fpu_ok fp \<longleftrightarrow> (\<forall>x y. x \<le> y \<longrightarrow> rnd fp x \<le> rnd fp y) \<and> (\<forall>x. rnd fp (rnd fp x) = rnd fp x) \<and>
     (\<forall>n. \<bar>n\<bar> \<le> 2 ^ 53 \<longrightarrow> rnd fp (of_int n) = of_int n)"

text \<open>Exact arithmetic, with amd64's conversion of floats that are out of range.\<close>

definition exact_fpu :: fpu where
  "exact_fpu = \<lparr>rnd = (\<lambda>x. x), f2i_out = (\<lambda>_. min_int64)\<rparr>"

lemma fpu_ok_exact: "fpu_ok exact_fpu"
  by (simp add: fpu_ok_def exact_fpu_def)

lemma exact_ops [simp]:
  "fadd exact_fpu a b = a + b" "fsub exact_fpu a b = a - b" "fmul exact_fpu a b = a * b"
  "fdiv exact_fpu a b = a / b" "i2f exact_fpu n = of_int n"
  by (simp_all add: fadd_def fsub_def fmul_def fdiv_def i2f_def exact_fpu_def)

lemma rnd_mono: "fpu_ok fp \<Longrightarrow> x \<le> y \<Longrightarrow> rnd fp x \<le> rnd fp y"
  by (simp add: fpu_ok_def)

lemma rnd_idem: "fpu_ok fp \<Longrightarrow> rnd fp (rnd fp x) = rnd fp x"
  by (simp add: fpu_ok_def)

lemma rnd_small_int: "fpu_ok fp \<Longrightarrow> \<bar>n\<bar> \<le> 2 ^ 53 \<Longrightarrow> rnd fp (of_int n) = of_int n"
  by (simp add: fpu_ok_def)

lemma rnd_0: "fpu_ok fp \<Longrightarrow> rnd fp 0 = 0"
  using rnd_small_int [of fp 0] by simp

lemma rnd_nonneg: "fpu_ok fp \<Longrightarrow> 0 \<le> x \<Longrightarrow> 0 \<le> rnd fp x"
  using rnd_mono [of fp 0 x] by (simp add: rnd_0)

lemma f_nonneg:
  assumes "fpu_ok fp"
  shows "0 \<le> a \<Longrightarrow> 0 \<le> b \<Longrightarrow> 0 \<le> fadd fp a b" "0 \<le> a \<Longrightarrow> 0 \<le> b \<Longrightarrow> 0 \<le> fmul fp a b"
    "0 \<le> a \<Longrightarrow> 0 \<le> b \<Longrightarrow> 0 \<le> fdiv fp a b" "b \<le> a \<Longrightarrow> 0 \<le> fsub fp a b" "0 \<le> n \<Longrightarrow> 0 \<le> i2f fp n"
  using assms by (simp_all add: fadd_def fmul_def fdiv_def fsub_def i2f_def rnd_nonneg)

lemma sdivmod_nonneg:
  fixes d m :: int
  assumes "0 \<le> d" "0 < m"
  shows "d sdiv m = d div m" "d smod m = d mod m"
  using assms by (cases "d = 0"; simp add: signed_divide_int_def signed_modulo_int_def)+

lemma Seconds_nonneg: "fpu_ok fp \<Longrightarrow> 0 \<le> d \<Longrightarrow> 0 \<le> duration_Seconds fp d"
  by (simp add: duration_Seconds_def sdivmod_nonneg f_nonneg pos_imp_zdiv_nonneg_iff)

lemma exact_Seconds:
  assumes "0 \<le> d"
  shows "duration_Seconds exact_fpu d = of_int d / 1000000000"
proof -
  have "of_int d = of_int (d div Second) * 1000000000 + (of_int (d mod Second) :: rat)"
    by (metis div_mult_mod_eq of_int_add of_int_mult of_int_numeral)
  then show ?thesis
    using assms by (simp add: duration_Seconds_def sdivmod_nonneg add_divide_distrib)
qed

lemma trunc_bounds: "0 \<le> x \<Longrightarrow> of_int (trunc x) \<le> x \<and> x < of_int (trunc x) + 1 \<and> 0 \<le> trunc x"
  by (simp add: trunc_def) linarith

end
