(* ===== verification/RateLimit.thy ===== *)
theory RateLimit
  imports Floats "HOL-Library.AList"
begin

text \<open>
  The token bucket of \<open>pkg/ratelimit/limiter.go\<close> and the per-key limiter of \<open>keyed.go\<close>.
  The methods hold the limiter's mutex, so each is one function on its state, with the clock
  readings it takes as arguments. Token counts are \<open>float64\<close>: see the theory of floats.
\<close>

section \<open>The token bucket\<close>

record limiter =
  rate :: rat
  burst :: rat
  tokens :: rat
  lastFill :: gotime

definition limiter_New :: "fpu \<Rightarrow> gotime \<Rightarrow> rat \<Rightarrow> int \<Rightarrow> limiter" where
  "limiter_New fp now r b =
     \<lparr>rate = r, burst = i2f fp b, tokens = i2f fp b, lastFill = now\<rparr>"

definition refill :: "fpu \<Rightarrow> gotime \<Rightarrow> limiter \<Rightarrow> limiter" where
  "refill fp now l =
     (let elapsed = duration_Seconds fp (time_Sub now (lastFill l))
      in l\<lparr>tokens := min (burst l) (fadd fp (tokens l) (fmul fp elapsed (rate l))), lastFill := now\<rparr>)"

definition limiter_AllowN :: "fpu \<Rightarrow> gotime \<Rightarrow> int \<Rightarrow> limiter \<Rightarrow> bool \<times> limiter" where
  "limiter_AllowN fp now n l0 =
     (let l = refill fp now l0 in
      if tokens l < i2f fp n then (False, l)
      else (True, l\<lparr>tokens := fsub fp (tokens l) (i2f fp n)\<rparr>))"

definition limiter_Allow :: "fpu \<Rightarrow> gotime \<Rightarrow> limiter \<Rightarrow> bool \<times> limiter" where
  "limiter_Allow fp now l = limiter_AllowN fp now 1 l"

definition limiter_Tokens :: "fpu \<Rightarrow> gotime \<Rightarrow> limiter \<Rightarrow> rat \<times> limiter" where
  "limiter_Tokens fp now l = (tokens (refill fp now l), refill fp now l)"

text \<open>
  \<open>WaitN\<close> loops: it refills, takes the tokens if there are enough, and otherwise sleeps for the
  computed time unless the context is done first. Each turn of the loop reads the clock once
  and, when it sleeps, sees one outcome: the timer (\<open>None\<close>) or \<open>ctx.Done\<close> with \<open>ctx.Err()\<close>.
  The model runs on the list of what the turns see; a list that is too short for the call to
  return leaves it \<open>Waiting\<close>.
\<close>

definition waitDur :: "fpu \<Rightarrow> int \<Rightarrow> limiter \<Rightarrow> duration" where
  "waitDur fp n l =
     (let need = fsub fp (i2f fp n) (tokens l);
          w = f2i fp (fmul fp (fdiv fp need (rate l)) (i2f fp Second))
      in if w < Millisecond then Millisecond else w)"

datatype wait = Waiting | Returned "err option"

fun limiter_WaitN :: "fpu \<Rightarrow> int \<Rightarrow> (gotime \<times> err option) list \<Rightarrow> limiter \<Rightarrow> wait \<times> limiter" where
  "limiter_WaitN fp n [] l = (Waiting, l)"
| "limiter_WaitN fp n ((now, out) # turns) l0 =
     (let l = refill fp now l0 in
      if i2f fp n \<le> tokens l
      then (Returned None, l\<lparr>tokens := fsub fp (tokens l) (i2f fp n)\<rparr>)
      else case out of
             Some e \<Rightarrow> (Returned (Some e), l)
           | None \<Rightarrow> limiter_WaitN fp n turns l)"

definition limiter_Wait :: "fpu \<Rightarrow> (gotime \<times> err option) list \<Rightarrow> limiter \<Rightarrow> wait \<times> limiter" where
  "limiter_Wait fp turns l = limiter_WaitN fp 1 turns l"

section \<open>The level of the bucket\<close>

definition limiter_inv :: "fpu \<Rightarrow> limiter \<Rightarrow> bool" where
  "limiter_inv fp l \<longleftrightarrow> 0 \<le> tokens l \<and> tokens l \<le> burst l \<and> 0 \<le> rate l \<and>
     rnd fp (tokens l) = tokens l \<and> rnd fp (burst l) = burst l"

lemma refill_simps [simp]:
  "rate (refill fp now l) = rate l" "burst (refill fp now l) = burst l"
  "lastFill (refill fp now l) = now"
  by (simp_all add: refill_def Let_def)

lemma AllowN_simps [simp]:
  "rate (snd (limiter_AllowN fp now n l)) = rate l"
  "burst (snd (limiter_AllowN fp now n l)) = burst l"
  "lastFill (snd (limiter_AllowN fp now n l)) = now"
  by (simp_all add: limiter_AllowN_def Let_def)

lemma inv_New: "fpu_ok fp \<Longrightarrow> 0 \<le> r \<Longrightarrow> 0 \<le> b \<Longrightarrow> limiter_inv fp (limiter_New fp now r b)"
  by (simp add: limiter_inv_def limiter_New_def f_nonneg) (simp add: i2f_def rnd_idem)

lemma inv_refill:
  assumes "fpu_ok fp" "limiter_inv fp l" "lastFill l \<le> now"
  shows "limiter_inv fp (refill fp now l)"
proof -
  have "0 \<le> time_Sub now (lastFill l)" using assms(3) by (simp add: time_Sub_def sat64_def)
  then have "0 \<le> fmul fp (duration_Seconds fp (time_Sub now (lastFill l))) (rate l)"
    using assms by (simp add: f_nonneg Seconds_nonneg limiter_inv_def)
  then show ?thesis
    using assms by (auto simp: limiter_inv_def refill_def Let_def f_nonneg min_def fadd_def rnd_idem
        rnd_nonneg)
qed

lemma inv_take:
  assumes "fpu_ok fp" "limiter_inv fp l" "0 \<le> n" "i2f fp n \<le> tokens l"
  shows "limiter_inv fp (l\<lparr>tokens := fsub fp (tokens l) (i2f fp n)\<rparr>)"
proof -
  have "0 \<le> i2f fp n" using assms by (simp add: f_nonneg)
  then have "fsub fp (tokens l) (i2f fp n) \<le> rnd fp (tokens l)"
    using assms(1) by (simp add: fsub_def rnd_mono)
  then show ?thesis
    using assms by (auto simp: limiter_inv_def f_nonneg) (simp add: fsub_def rnd_idem)
qed

lemma inv_AllowN:
  assumes "fpu_ok fp" "limiter_inv fp l" "lastFill l \<le> now" "0 \<le> n"
  shows "limiter_inv fp (snd (limiter_AllowN fp now n l))"
  using assms by (simp add: limiter_AllowN_def Let_def inv_refill inv_take)

text \<open>A sequence of calls, and the number of tokens it obtains.\<close>

fun admit_all :: "fpu \<Rightarrow> (gotime \<times> int) list \<Rightarrow> limiter \<Rightarrow> int \<times> limiter" where
  "admit_all fp [] l = (0, l)"
| "admit_all fp ((now, n) # cs) l =
     (let (ok, l') = limiter_AllowN fp now n l; (s, l'') = admit_all fp cs l'
      in ((if ok then n else 0) + s, l''))"

lemma admit_all_Cons [simp]:
  "fst (admit_all fp ((now, n) # cs) l) =
     (if fst (limiter_AllowN fp now n l) then n else 0) +
     fst (admit_all fp cs (snd (limiter_AllowN fp now n l)))"
  "snd (admit_all fp ((now, n) # cs) l) = snd (admit_all fp cs (snd (limiter_AllowN fp now n l)))"
  by (simp_all add: Let_def case_prod_beta)

declare admit_all.simps(2) [simp del]

lemma inv_admit_all:
  assumes "fpu_ok fp" "limiter_inv fp l" "sorted (lastFill l # map fst cs)" "\<forall>(t, n) \<in> set cs. 0 \<le> n"
  shows "limiter_inv fp (snd (admit_all fp cs l)) \<and> burst (snd (admit_all fp cs l)) = burst l"
  using assms
proof (induction cs arbitrary: l)
  case (Cons c cs)
  obtain now n where c: "c = (now, n)" by (cases c)
  let ?l = "snd (limiter_AllowN fp now n l)"
  have "limiter_inv fp ?l" using Cons.prems c by (intro inv_AllowN) auto
  with Cons.IH [of ?l] Cons.prems c show ?case by simp
qed simp

text \<open>
  With any rounding that keeps order and small integers, and a clock that does not run
  backwards, the level of the bucket stays between 0 and \<open>burst\<close> through every sequence of
  \<open>AllowN\<close> calls with non-negative counts.
\<close>

theorem limiter_level:
  assumes "fpu_ok fp" "limiter_inv fp l" "sorted (lastFill l # map fst cs)" "\<forall>(t, n) \<in> set cs. 0 \<le> n"
  shows "0 \<le> tokens (snd (admit_all fp cs l)) \<and>
    tokens (snd (admit_all fp cs l)) \<le> burst l \<and> burst (snd (admit_all fp cs l)) = burst l"
  using inv_admit_all [OF assms] by (auto simp: limiter_inv_def)

theorem limiter_level_witness:
  "0 \<le> tokens (snd (admit_all exact_fpu [(5, 1), (7, 2)] (limiter_New exact_fpu 0 10 3)))"
  using limiter_level [OF fpu_ok_exact inv_New [OF fpu_ok_exact], of 10 3 0 "[(5, 1), (7, 2)]"]
  by (simp add: limiter_New_def)

section \<open>The rate\<close>

text \<open>
  How far rounding can push the level up in one refill and in one subtraction: by at most
  \<open>eps\<close>. Exact arithmetic has \<open>eps = 0\<close>.
\<close>

definition fpu_err :: "fpu \<Rightarrow> rat \<Rightarrow> rat \<Rightarrow> rat \<Rightarrow> bool" where
  "fpu_err fp r b eps \<longleftrightarrow> 0 \<le> eps \<and>
     (\<forall>t d. 0 \<le> t \<longrightarrow> t \<le> b \<longrightarrow> 0 \<le> d \<longrightarrow>
        min b (fadd fp t (fmul fp (duration_Seconds fp d) r)) \<le> t + of_int d * r / 1000000000 + eps) \<and>
     (\<forall>t n. 0 \<le> t \<longrightarrow> t \<le> b \<longrightarrow> i2f fp n \<le> t \<longrightarrow> fsub fp t (i2f fp n) \<le> t - of_int n + eps)"

lemma fpu_err_exact: "fpu_err exact_fpu r b 0"
  by (simp add: fpu_err_def exact_Seconds)

lemma time_Sub_le: "u \<le> t \<Longrightarrow> 0 \<le> time_Sub t u \<and> time_Sub t u \<le> t - u"
  by (auto simp: time_Sub_def sat64_def)

lemma AllowN_gain:
  assumes "fpu_ok fp" "fpu_err fp (rate l) (burst l) eps" "limiter_inv fp l" "lastFill l \<le> now" "0 \<le> n"
  shows "tokens (snd (limiter_AllowN fp now n l)) + of_int (if fst (limiter_AllowN fp now n l) then n else 0)
    \<le> tokens l + rate l * of_int (now - lastFill l) / 1000000000 + 2 * eps"
proof -
  let ?d = "time_Sub now (lastFill l)" and ?l = "refill fp now l"
  have inv: "limiter_inv fp ?l" using assms by (intro inv_refill)
  have d: "0 \<le> ?d" "?d \<le> now - lastFill l" using time_Sub_le [OF assms(4)] by auto
  have eps: "0 \<le> eps" using assms(2) by (simp add: fpu_err_def)
  have "tokens ?l \<le> tokens l + of_int ?d * rate l / 1000000000 + eps"
    using assms(2,3) d(1) by (simp add: fpu_err_def refill_def Let_def limiter_inv_def)
  also have "of_int ?d * rate l \<le> rate l * of_int (now - lastFill l)"
    using d(2) assms(3) unfolding limiter_inv_def
    by (metis mult.commute mult_left_mono of_int_le_iff)
  finally have fill: "tokens ?l \<le> tokens l + rate l * of_int (now - lastFill l) / 1000000000 + eps"
    by (simp add: divide_right_mono)
  show ?thesis
  proof (cases "tokens ?l < i2f fp n")
    case True
    with fill eps show ?thesis by (simp add: limiter_AllowN_def Let_def)
  next
    case False
    then have "fsub fp (tokens ?l) (i2f fp n) \<le> tokens ?l - of_int n + eps"
      using assms(2) inv by (simp add: fpu_err_def limiter_inv_def)
    with False fill show ?thesis by (simp add: limiter_AllowN_def Let_def)
  qed
qed

lemma bound_chain:
  "a + b \<le> c + p + e \<Longrightarrow> c + n \<le> t + q + e' \<Longrightarrow> r = p + q \<Longrightarrow> f = e + e' \<Longrightarrow> a + (n + b) \<le> t + r + (f :: rat)"
  by linarith



section \<open>Waiting\<close>

text \<open>
  A run of \<open>WaitN\<close> that nothing disturbs: the clock does not run backwards, the context is not
  cancelled, each turn starts when the timer of the turn before has fired, and no other caller
  takes tokens in between.
\<close>

fun timely :: "fpu \<Rightarrow> int \<Rightarrow> (gotime \<times> err option) list \<Rightarrow> limiter \<Rightarrow> bool" where
  "timely fp n [] l \<longleftrightarrow> True"
| "timely fp n ((now, out) # turns) l \<longleftrightarrow> out = None \<and> lastFill l \<le> now \<and>
     (case turns of [] \<Rightarrow> True | (now', _) # _ \<Rightarrow> now + waitDur fp n (refill fp now l) \<le> now') \<and>
     timely fp n turns (refill fp now l)"

text \<open>The longest wait fits in a \<open>time.Duration\<close>.\<close>

definition wait_fits :: "limiter \<Rightarrow> bool" where
  "wait_fits l \<longleftrightarrow> burst l / rate l * 1000000000 \<le> of_int max_int64"

lemma waitDur_exact:
  assumes "limiter_inv exact_fpu l" "0 < rate l" "wait_fits l" "tokens l < of_int n" "of_int n \<le> burst l"
  defines "x \<equiv> (of_int n - tokens l) / rate l * 1000000000"
  shows "waitDur exact_fpu n l = max Millisecond (trunc x)" "0 \<le> x" "trunc x \<le> max_int64"
proof -
  show x: "0 \<le> x" using assms by (simp add: x_def)
  have "(of_int n - tokens l) / rate l \<le> burst l / rate l"
    using assms by (intro divide_right_mono) (auto simp: limiter_inv_def)
  then have "x \<le> of_int max_int64"
    using assms(3) unfolding wait_fits_def x_def
    by (meson mult_right_mono order_trans zero_le_numeral)
  then show r: "trunc x \<le> max_int64"
    using trunc_bounds [OF x] by (metis of_int_le_iff order_trans)
  show "waitDur exact_fpu n l = max Millisecond (trunc x)"
    using r trunc_bounds [OF x] unfolding waitDur_def Let_def exact_ops of_int_numeral x_def [symmetric]
    by (auto simp: f2i_def in_int64_def)
qed

lemma refill_after:
  assumes "limiter_inv exact_fpu l" "lastFill l + d \<le> now" "0 \<le> d" "d \<le> max_int64"
  shows "min (burst l) (tokens l + of_int d * rate l / 1000000000) \<le> tokens (refill exact_fpu now l)"
proof -
  have e: "d \<le> time_Sub now (lastFill l)" using assms(2-4) by (auto simp: time_Sub_def sat64_def)
  then have "of_int d * rate l \<le> of_int (time_Sub now (lastFill l)) * rate l"
    using assms(1) by (simp add: limiter_inv_def mult_right_mono)
  then show ?thesis
    using e assms(3) by (auto simp: refill_def Let_def exact_Seconds divide_right_mono intro: min.mono)
qed

text \<open>One sleep brings the level to \<open>n\<close>, or within one nanosecond's worth of it.\<close>

lemma one_sleep:
  assumes "limiter_inv exact_fpu l" "0 < rate l" "wait_fits l" "tokens l < of_int n" "of_int n \<le> burst l"
    "lastFill l + waitDur exact_fpu n l \<le> now"
  shows "of_int n - rate l / 1000000000 < tokens (refill exact_fpu now l)"
    "of_int n - tokens l \<le> rate l / 1000000000 \<Longrightarrow> of_int n \<le> tokens (refill exact_fpu now l)"
proof -
  define x where "x = (of_int n - tokens l) / rate l * 1000000000"
  let ?w = "waitDur exact_fpu n l"
  note w = waitDur_exact [OF assms(1-5), folded x_def]
  have lvl: "min (burst l) (tokens l + of_int ?w * rate l / 1000000000) \<le> tokens (refill exact_fpu now l)"
    using w assms(1,6) by (intro refill_after) auto
  have need: "x * rate l / 1000000000 = of_int n - tokens l" using assms(2) by (simp add: x_def)
  have "x - 1 < of_int ?w" using trunc_bounds [OF w(2)] w(1) by linarith
  then have "(x - 1) * rate l < of_int ?w * rate l" using assms(2) by simp
  then have "x * rate l / 1000000000 - rate l / 1000000000 < of_int ?w * rate l / 1000000000"
    by (simp add: left_diff_distrib)
  with need lvl assms(2,5) show "of_int n - rate l / 1000000000 < tokens (refill exact_fpu now l)"
    unfolding min_le_iff_disj by (elim disjE) linarith+
  assume "of_int n - tokens l \<le> rate l / 1000000000"
  moreover have "rate l \<le> of_int ?w * rate l" using w(1) assms(2) by simp
  ultimately have "of_int n \<le> tokens l + of_int ?w * rate l / 1000000000" by linarith
  with lvl assms(5) show "of_int n \<le> tokens (refill exact_fpu now l)"
    unfolding min_le_iff_disj by (elim disjE) linarith+
qed



text \<open>
  A request for more than \<open>burst\<close> tokens is never granted, whatever the rounding and the
  clock: \<open>AllowN\<close> refuses it, and \<open>WaitN\<close> keeps polling until its context is cancelled and
  then returns the context's error.
\<close>

theorem limiter_over_burst:
  assumes "burst l < i2f fp n"
  shows "\<not> fst (limiter_AllowN fp now n l) \<and>
    fst (limiter_WaitN fp n turns l) =
      (case dropWhile (\<lambda>t. snd t = None) turns of [] \<Rightarrow> Waiting | (_, e) # _ \<Rightarrow> Returned e)"
proof -
  have over: "tokens (refill fp t m) < i2f fp n" if "burst m < i2f fp n" for t m
    using that by (simp add: refill_def Let_def min_def split: if_splits)
  have "fst (limiter_WaitN fp n turns m) =
      (case dropWhile (\<lambda>t. snd t = None) turns of [] \<Rightarrow> Waiting | (_, e) # _ \<Rightarrow> Returned e)"
    if "burst m < i2f fp n" for m
    using that
  proof (induction turns arbitrary: m)
    case (Cons t turns)
    then show ?case using over [of m "fst t"] by (cases t) (auto simp: Let_def split: option.split)
  qed simp
  with over [OF assms] assms show ?thesis by (simp add: limiter_AllowN_def Let_def)
qed

theorem limiter_over_burst_witness:
  "fst (limiter_WaitN exact_fpu 4 [(0, None), (400000000, Some Canceled)]
     (limiter_New exact_fpu 0 10 3)) = Returned (Some Canceled)"
  using limiter_over_burst [of "limiter_New exact_fpu 0 10 3" exact_fpu 4 0
      "[(0, None), (400000000, Some Canceled)]"]
  by (simp add: limiter_New_def)

end
