(* ===== verification/KeyedLimit.thy ===== *)
theory KeyedLimit
  imports RateLimit "HOL-Library.AList"
begin

text \<open>
  The per-key limiter of \<open>pkg/ratelimit/keyed.go\<close>. Its map holds pointers to entries, each with
  a pointer to a limiter; \<open>limiterFor\<close> hands the limiter out and \<open>Allow\<close> uses it after the map's
  lock is released. The limiters live in a heap and an entry holds the address of its limiter.
  The specification is a family of independent token buckets, and the map refines it.
\<close>

section \<open>The map of limiters\<close>

record keyedEntry =
  elimiter :: nat
  lastSeen :: gotime

record 'k keyed =
  krate :: rat
  kburst :: int
  kttl :: duration
  kentries :: "('k \<times> keyedEntry) list"
  kheap :: "limiter list"

definition WithKeyTTL :: "duration \<Rightarrow> 'k keyed \<Rightarrow> 'k keyed" where
  "WithKeyTTL d kl = kl\<lparr>kttl := d\<rparr>"

definition NewKeyed :: "rat \<Rightarrow> int \<Rightarrow> ('k keyed \<Rightarrow> 'k keyed) list \<Rightarrow> 'k keyed" where
  "NewKeyed r b opts =
     fold (\<lambda>f kl. f kl) opts
       \<lparr>krate = r, kburst = b, kttl = 10 * Minute, kentries = [], kheap = []\<rparr>"

definition limiterFor :: "fpu \<Rightarrow> gotime \<Rightarrow> gotime \<Rightarrow> 'k \<Rightarrow> 'k keyed \<Rightarrow> nat \<times> 'k keyed" where
  "limiterFor fp tNew tSeen k kl =
     (case map_of (kentries kl) k of
        None \<Rightarrow>
          let p = length (kheap kl) in
          (p, kl\<lparr>kheap := kheap kl @ [limiter_New fp tNew (krate kl) (kburst kl)],
                 kentries := AList.update k \<lparr>elimiter = p, lastSeen = tSeen\<rparr> (kentries kl)\<rparr>)
      | Some e \<Rightarrow>
          (elimiter e, kl\<lparr>kentries := AList.update k (e\<lparr>lastSeen := tSeen\<rparr>) (kentries kl)\<rparr>))"

text \<open>The three clock readings: in \<open>New\<close> if it runs, in \<open>limiterFor\<close>, in \<open>refill\<close>.\<close>

type_synonym readings = "gotime \<times> gotime \<times> gotime"

definition keyed_AllowN :: "fpu \<Rightarrow> readings \<Rightarrow> 'k \<Rightarrow> int \<Rightarrow> 'k keyed \<Rightarrow> bool \<times> 'k keyed" where
  "keyed_AllowN fp ts k n kl0 =
     (let (tNew, tSeen, tFill) = ts;
          (p, kl) = limiterFor fp tNew tSeen k kl0;
          (ok, l) = limiter_AllowN fp tFill n (kheap kl ! p)
      in (ok, kl\<lparr>kheap := (kheap kl)[p := l]\<rparr>))"

definition keyed_Allow :: "fpu \<Rightarrow> readings \<Rightarrow> 'k \<Rightarrow> 'k keyed \<Rightarrow> bool \<times> 'k keyed" where
  "keyed_Allow fp ts k kl0 =
     (let (tNew, tSeen, tFill) = ts;
          (p, kl) = limiterFor fp tNew tSeen k kl0;
          (ok, l) = limiter_Allow fp tFill (kheap kl ! p)
      in (ok, kl\<lparr>kheap := (kheap kl)[p := l]\<rparr>))"

definition keyed_Delete :: "'k \<Rightarrow> 'k keyed \<Rightarrow> 'k keyed" where
  "keyed_Delete k kl = kl\<lparr>kentries := AList.delete k (kentries kl)\<rparr>"

fun evict_loop :: "gotime \<Rightarrow> ('k \<times> keyedEntry) list \<Rightarrow> int \<Rightarrow> ('k \<times> keyedEntry) list
    \<Rightarrow> int \<times> ('k \<times> keyedEntry) list" where
  "evict_loop cutoff [] n es = (n, es)"
| "evict_loop cutoff ((k, e) # rest) n es =
     (if lastSeen e < cutoff then evict_loop cutoff rest (n + 1) (AList.delete k es)
      else evict_loop cutoff rest n es)"

definition keyed_Evict :: "gotime \<Rightarrow> 'k keyed \<Rightarrow> int \<times> 'k keyed" where
  "keyed_Evict now kl =
     (let cutoff = time_Add now (wrap64 (- kttl kl));
          (n, es) = evict_loop cutoff (kentries kl) 0 (kentries kl)
      in (n, kl\<lparr>kentries := es\<rparr>))"

definition keyed_Len :: "'k keyed \<Rightarrow> int" where
  "keyed_Len kl = int (length (kentries kl))"

section \<open>The specification: independent buckets\<close>

datatype 'k keyed_op = KAllowN 'k int readings | KAllow 'k readings | KDelete 'k | KEvict gotime | KLen
datatype keyed_res = RBool bool | RInt int | RUnit

fun keyed_do :: "fpu \<Rightarrow> 'k keyed_op \<Rightarrow> 'k keyed \<Rightarrow> keyed_res \<times> 'k keyed" where
  "keyed_do fp (KAllowN k n ts) kl = map_prod RBool id (keyed_AllowN fp ts k n kl)"
| "keyed_do fp (KAllow k ts) kl = map_prod RBool id (keyed_Allow fp ts k kl)"
| "keyed_do fp (KDelete k) kl = (RUnit, keyed_Delete k kl)"
| "keyed_do fp (KEvict now) kl = map_prod RInt id (keyed_Evict now kl)"
| "keyed_do fp KLen kl = (RInt (keyed_Len kl), kl)"

record 'k buckets =
  brate :: rat
  bburst :: int
  bttl :: duration
  bucket :: "'k \<Rightarrow> (limiter \<times> gotime) option"

definition idle :: "gotime \<Rightarrow> (limiter \<times> gotime) option \<Rightarrow> bool" where
  "idle cutoff b \<longleftrightarrow> (case b of None \<Rightarrow> False | Some (l, seen) \<Rightarrow> seen < cutoff)"

definition bucket_take :: "fpu \<Rightarrow> 'k \<Rightarrow> int \<Rightarrow> readings \<Rightarrow> 'k buckets \<Rightarrow> keyed_res \<times> 'k buckets" where
  "bucket_take fp k n ts s =
     (let (tNew, tSeen, tFill) = ts;
          l = (case bucket s k of None \<Rightarrow> limiter_New fp tNew (brate s) (bburst s) | Some (l, _) \<Rightarrow> l);
          (ok, l') = limiter_AllowN fp tFill n l
      in (RBool ok, s\<lparr>bucket := (bucket s)(k \<mapsto> (l', tSeen))\<rparr>))"

fun buckets_do :: "fpu \<Rightarrow> 'k keyed_op \<Rightarrow> 'k buckets \<Rightarrow> keyed_res \<times> 'k buckets" where
  "buckets_do fp (KAllowN k n ts) s = bucket_take fp k n ts s"
| "buckets_do fp (KAllow k ts) s = bucket_take fp k 1 ts s"
| "buckets_do fp (KDelete k) s = (RUnit, s\<lparr>bucket := (bucket s)(k := None)\<rparr>)"
| "buckets_do fp (KEvict now) s =
     (let cutoff = time_Add now (wrap64 (- bttl s))
      in (RInt (int (card {k. idle cutoff (bucket s k)})),
          s\<lparr>bucket := \<lambda>k. if idle cutoff (bucket s k) then None else bucket s k\<rparr>))"
| "buckets_do fp KLen s = (RInt (int (card (dom (bucket s)))), s)"

definition view :: "limiter list \<Rightarrow> keyedEntry \<Rightarrow> limiter \<times> gotime" where
  "view h e = (h ! elimiter e, lastSeen e)"

definition keyed_abs :: "'k keyed \<Rightarrow> 'k buckets" where
  "keyed_abs kl = \<lparr>brate = krate kl, bburst = kburst kl, bttl = kttl kl,
     bucket = \<lambda>k. map_option (view (kheap kl)) (map_of (kentries kl) k)\<rparr>"

definition ptrs_ok :: "nat \<Rightarrow> ('k \<Rightarrow> keyedEntry option) \<Rightarrow> bool" where
  "ptrs_ok h m \<longleftrightarrow> (\<forall>k e. m k = Some e \<longrightarrow> elimiter e < h) \<and>
     (\<forall>k k' e e'. m k = Some e \<longrightarrow> m k' = Some e' \<longrightarrow> elimiter e = elimiter e' \<longrightarrow> k = k')"

definition keyed_inv :: "'k keyed \<Rightarrow> bool" where
  "keyed_inv kl \<longleftrightarrow> distinct (map fst (kentries kl)) \<and>
     ptrs_ok (length (kheap kl)) (map_of (kentries kl))"

lemma ptrs_ok_new: "ptrs_ok h m \<Longrightarrow> ptrs_ok (Suc h) (m(k \<mapsto> \<lparr>elimiter = h, lastSeen = t\<rparr>))"
  unfolding ptrs_ok_def by (auto split: if_splits) fastforce+

lemma ptrs_ok_seen: "ptrs_ok h m \<Longrightarrow> m k = Some e \<Longrightarrow> ptrs_ok h (m(k \<mapsto> e\<lparr>lastSeen := t\<rparr>))"
  unfolding ptrs_ok_def by (auto split: if_splits)

lemma ptrs_ok_sub: "ptrs_ok h m \<Longrightarrow> m' \<subseteq>\<^sub>m m \<Longrightarrow> ptrs_ok h m'"
  unfolding ptrs_ok_def map_le_def by (metis domI)

lemma ptrs_ok_neq:
  "ptrs_ok h m \<Longrightarrow> m k = Some e \<Longrightarrow> m k' = Some e' \<Longrightarrow> k \<noteq> k' \<Longrightarrow> elimiter e \<noteq> elimiter e'"
  unfolding ptrs_ok_def by blast

lemma view_append: "elimiter e < length h \<Longrightarrow> view (h @ h') e = view h e"
  by (simp add: view_def nth_append)

lemma view_update: "elimiter e \<noteq> p \<Longrightarrow> view (h[p := l]) e = view h e"
  by (simp add: view_def)

lemma ptrs_ok_less: "ptrs_ok h m \<Longrightarrow> m k = Some e \<Longrightarrow> elimiter e < h"
  unfolding ptrs_ok_def by blast

lemma bucket_take_simps:
  "fst (bucket_take fp k n ts s) = RBool (fst (limiter_AllowN fp (snd (snd ts)) n
     (case bucket s k of None \<Rightarrow> limiter_New fp (fst ts) (brate s) (bburst s) | Some (l, _) \<Rightarrow> l)))"
  "snd (bucket_take fp k n ts s) = s\<lparr>bucket := (bucket s)(k \<mapsto> (snd (limiter_AllowN fp (snd (snd ts)) n
     (case bucket s k of None \<Rightarrow> limiter_New fp (fst ts) (brate s) (bburst s) | Some (l, _) \<Rightarrow> l)), fst (snd ts)))\<rparr>"
  by (simp_all add: bucket_take_def Let_def case_prod_beta)

lemma keyed_Allow_AllowN: "keyed_Allow fp ts k kl = keyed_AllowN fp ts k 1 kl"
  by (simp add: keyed_Allow_def keyed_AllowN_def limiter_Allow_def)

lemma keyed_inv_New: "keyed_inv (NewKeyed r b [])"
  by (simp add: keyed_inv_def NewKeyed_def ptrs_ok_def)

section \<open>Refinement\<close>

lemma keyed_AllowN_ref:
  assumes "keyed_inv kl"
  shows "keyed_inv (snd (keyed_AllowN fp ts k n kl))"
    "bucket_take fp k n ts (keyed_abs kl) =
       (RBool (fst (keyed_AllowN fp ts k n kl)), keyed_abs (snd (keyed_AllowN fp ts k n kl)))"
proof -
  obtain t1 t2 t3 where ts: "ts = (t1, t2, t3)" by (cases ts)
  let ?m = "map_of (kentries kl)" and ?h = "kheap kl"
  have p: "ptrs_ok (length ?h) ?m" and d: "distinct (map fst (AList.update k e (kentries kl)))" for e
    using assms by (simp_all add: keyed_inv_def distinct_update)
  show "keyed_inv (snd (keyed_AllowN fp ts k n kl))"
    using p d unfolding keyed_inv_def
    by (cases "?m k") (simp_all add: keyed_AllowN_def limiterFor_def ts Let_def update_conv' case_prod_beta
        ptrs_ok_new ptrs_ok_seen)
  show "bucket_take fp k n ts (keyed_abs kl) =
       (RBool (fst (keyed_AllowN fp ts k n kl)), keyed_abs (snd (keyed_AllowN fp ts k n kl)))"
  proof (cases "?m k")
    case None
    show ?thesis
      unfolding prod_eq_iff bucket_take_simps keyed_AllowN_def limiterFor_def ts Let_def keyed_abs_def
      using None ptrs_ok_less [OF p]
      by (auto simp: update_conv' case_prod_beta fun_eq_iff view_append intro!: option.map_cong)
        (simp add: view_def)
  next
    case (Some e)
    show ?thesis
      unfolding prod_eq_iff bucket_take_simps keyed_AllowN_def limiterFor_def ts Let_def keyed_abs_def
      using Some ptrs_ok_less [OF p] ptrs_ok_neq [OF p]
      by (auto simp: update_conv' case_prod_beta fun_eq_iff intro!: option.map_cong view_update [symmetric])
        (simp_all add: view_def)
  qed
qed

lemma keyed_Delete_ref:
  assumes "keyed_inv kl"
  shows "keyed_inv (keyed_Delete k kl)"
    "keyed_abs (keyed_Delete k kl) = snd (buckets_do fp (KDelete k) (keyed_abs kl))"
  using assms
  by (auto simp: keyed_inv_def keyed_Delete_def distinct_delete delete_conv' keyed_abs_def fun_eq_iff
      map_le_def elim: ptrs_ok_sub)

lemma evict_loop_eq:
  assumes "distinct (map fst es)"
  shows "distinct (map fst (rest :: ('k \<times> keyedEntry) list)) \<Longrightarrow>
    evict_loop cutoff rest n es =
     (n + int (length (filter (\<lambda>(k, e). lastSeen e < cutoff) rest)),
      filter (\<lambda>(k, e). \<not> (\<exists>e. (k, e) \<in> set rest \<and> lastSeen e < cutoff)) es)"
  using assms
proof (induction rest arbitrary: n es)
  case (Cons x rest)
  obtain k e where x: "x = (k, e)" by (cases x)
  have "distinct (map fst (AList.delete k es))" using Cons.prems by (simp add: distinct_delete)
  with Cons show ?case
    by (auto simp: x AList.delete_eq intro!: filter_cong)
qed simp

lemma keyed_Evict_eq:
  fixes now :: gotime
  assumes "keyed_inv kl"
  defines "cutoff \<equiv> time_Add now (wrap64 (- kttl kl))"
  shows "keyed_Evict now kl =
    (int (length (filter (\<lambda>(k, e). lastSeen e < cutoff) (kentries kl))),
     kl\<lparr>kentries := filter (\<lambda>(k, e). \<not> lastSeen e < cutoff) (kentries kl)\<rparr>)"
proof -
  have d: "distinct (map fst (kentries kl))" using assms by (simp add: keyed_inv_def)
  then have "filter (\<lambda>(k, e). \<not> (\<exists>e. (k, e) \<in> set (kentries kl) \<and> lastSeen e < cutoff)) (kentries kl) =
      filter (\<lambda>(k, e). \<not> lastSeen e < cutoff) (kentries kl)"
    by (intro filter_cong) (auto dest: eq_key_imp_eq_value)
  then show ?thesis
    by (simp add: keyed_Evict_def evict_loop_eq [OF d d] flip: cutoff_def)
qed

lemma map_of_filter_distinct:
  "distinct (map fst xs) \<Longrightarrow>
    map_of (filter (\<lambda>(k, e). P e) xs) k = (case map_of xs k of Some e \<Rightarrow> if P e then Some e else None | None \<Rightarrow> None)"
  by (induction xs) (auto split: option.split simp: map_of_eq_None_iff dest: map_of_SomeD)

lemma card_map_of_filter:
  assumes "distinct (map fst xs)"
  shows "card {k. \<exists>e. map_of xs k = Some e \<and> P e} = length (filter (\<lambda>(k, e). P e) xs)"
proof -
  have "{k. \<exists>e. map_of xs k = Some e \<and> P e} = set (map fst (filter (\<lambda>(k, e). P e) xs))"
    using assms by (force dest: map_of_SomeD)
  moreover have "distinct (map fst (filter (\<lambda>(k, e). P e) xs))"
    using assms by (rule distinct_map_filter)
  ultimately show ?thesis by (metis distinct_card length_map)
qed

lemma keyed_Evict_ref:
  assumes "keyed_inv kl"
  shows "keyed_inv (snd (keyed_Evict now kl))"
    "buckets_do fp (KEvict now) (keyed_abs kl) =
       (RInt (fst (keyed_Evict now kl)), keyed_abs (snd (keyed_Evict now kl)))"
proof -
  have d: "distinct (map fst (kentries kl))" using assms by (simp add: keyed_inv_def)
  show "keyed_inv (snd (keyed_Evict now kl))"
    using assms unfolding keyed_inv_def keyed_Evict_eq [OF assms]
    by (auto simp: map_of_filter_distinct [OF d] distinct_map_filter map_le_def elim!: ptrs_ok_sub
        split: option.splits if_splits)
  define c where "c = time_Add now (wrap64 (- kttl kl))"
  have idle: "idle c (bucket (keyed_abs kl) k) \<longleftrightarrow> (\<exists>e. map_of (kentries kl) k = Some e \<and> lastSeen e < c)" for k
    by (auto simp: idle_def keyed_abs_def view_def split: option.split)
  have "bttl (keyed_abs kl) = kttl kl" by (simp add: keyed_abs_def)
  then show "buckets_do fp (KEvict now) (keyed_abs kl) =
       (RInt (fst (keyed_Evict now kl)), keyed_abs (snd (keyed_Evict now kl)))"
    unfolding keyed_Evict_eq [OF assms] c_def [symmetric]
    by (simp add: Let_def idle card_map_of_filter [OF d] flip: c_def)
      (auto simp: keyed_abs_def fun_eq_iff map_of_filter_distinct [OF d] split: option.split)
qed

lemma keyed_Len_ref:
  "keyed_inv kl \<Longrightarrow> keyed_Len kl = int (card (dom (bucket (keyed_abs kl))))"
  using card_map_of_filter [of "kentries kl" "\<lambda>_. True"]
  by (simp add: keyed_inv_def keyed_Len_def keyed_abs_def dom_def)

interpretation kref: refinement "keyed_do fp" "buckets_do fp" keyed_abs keyed_inv
proof
  fix s :: "'k keyed" and x
  assume s: "keyed_inv s"
  show "keyed_inv (snd (keyed_do fp x s))"
    using s by (cases x) (simp_all add: keyed_AllowN_ref keyed_Allow_AllowN keyed_Delete_ref keyed_Evict_ref)
  show "buckets_do fp x (keyed_abs s) = (fst (keyed_do fp x s), keyed_abs (snd (keyed_do fp x s)))"
    using s keyed_Delete_ref(2) [OF s, of _ fp]
    by (cases x)
      (simp_all add: keyed_AllowN_ref(2) keyed_Allow_AllowN keyed_Evict_ref(2) keyed_Len_ref
        del: buckets_do.simps(4))
qed

text \<open>
  C22. The per-key limiter is a family of independent token buckets: through every sequence of
  \<open>Allow\<close>, \<open>AllowN\<close>, \<open>Delete\<close>, \<open>Evict\<close> and \<open>Len\<close> calls on a fresh limiter it returns what one
  bucket per key returns, \<open>Evict\<close> counts exactly the keys last seen before \<open>now - ttl\<close>, and \<open>Len\<close>
  the keys present. No two keys ever share a limiter.
\<close>

theorem keyed_refines_buckets:
  fixes ops :: "'a keyed_op list"
  shows "fst (run (keyed_do fp) ops (NewKeyed r b [WithKeyTTL ttl])) =
     fst (run (buckets_do fp) ops \<lparr>brate = r, bburst = b, bttl = ttl, bucket = \<lambda>_. None\<rparr>) \<and>
   keyed_inv (snd (run (keyed_do fp) ops (NewKeyed r b [WithKeyTTL ttl])))"
proof -
  let ?kl = "NewKeyed r b [WithKeyTTL ttl] :: 'a keyed"
  have "keyed_inv ?kl" and "keyed_abs ?kl = \<lparr>brate = r, bburst = b, bttl = ttl, bucket = \<lambda>_. None\<rparr>"
    by (simp_all add: NewKeyed_def WithKeyTTL_def keyed_inv_def ptrs_ok_def keyed_abs_def)
  then show ?thesis using kref.spec_run [of ?kl fp ops] kref.good_run [of ?kl fp ops] by simp
qed

section \<open>Isolation and eviction\<close>

text \<open>The calls that concern a key, and what the calls for it were answered.\<close>

fun touches :: "'k \<Rightarrow> 'k keyed_op \<Rightarrow> bool" where
  "touches k (KAllowN k' n ts) \<longleftrightarrow> k' = k"
| "touches k (KAllow k' ts) \<longleftrightarrow> k' = k"
| "touches k (KDelete k') \<longleftrightarrow> k' = k"
| "touches k (KEvict now) \<longleftrightarrow> True"
| "touches k KLen \<longleftrightarrow> False"

fun asks :: "'k \<Rightarrow> 'k keyed_op \<Rightarrow> bool" where
  "asks k (KAllowN k' n ts) \<longleftrightarrow> k' = k"
| "asks k (KAllow k' ts) \<longleftrightarrow> k' = k"
| "asks k _ \<longleftrightarrow> False"

definition answers :: "'k \<Rightarrow> 'k keyed_op list \<Rightarrow> keyed_res list \<Rightarrow> keyed_res list" where
  "answers k ops rs = map snd (filter (\<lambda>(x, r). asks k x) (zip ops rs))"

definition same_for :: "'k \<Rightarrow> 'k buckets \<Rightarrow> 'k buckets \<Rightarrow> bool" where
  "same_for k s t \<longleftrightarrow> brate s = brate t \<and> bburst s = bburst t \<and> bttl s = bttl t \<and> bucket s k = bucket t k"

lemma same_for_skip: "\<not> touches k x \<Longrightarrow> same_for k s t \<Longrightarrow> same_for k (snd (buckets_do fp x s)) t"
  by (cases x) (auto simp: same_for_def bucket_take_simps)

lemma same_for_step:
  assumes "touches k x" "same_for k s t"
  shows "same_for k (snd (buckets_do fp x s)) (snd (buckets_do fp x t))"
    "asks k x \<Longrightarrow> fst (buckets_do fp x s) = fst (buckets_do fp x t)"
  using assms by (cases x; simp add: same_for_def bucket_take_simps Let_def cong: option.case_cong)+

lemma asks_touches: "asks k x \<Longrightarrow> touches k x"
  by (cases x) auto

lemma buckets_isolated:
  "same_for k s t \<Longrightarrow> answers k ops (fst (run (buckets_do fp) ops s)) =
     answers k (filter (touches k) ops) (fst (run (buckets_do fp) (filter (touches k) ops) t))"
proof (induction ops arbitrary: s t)
  case (Cons x ops)
  show ?case
  proof (cases "touches k x")
    case True
    with Cons.IH [OF same_for_step(1) [OF True Cons.prems]] same_for_step(2) [OF True Cons.prems]
    show ?thesis by (simp add: answers_def)
  next
    case False
    then have "\<not> asks k x" by (auto dest: asks_touches)
    with False Cons.IH [OF same_for_skip [OF False Cons.prems]] show ?thesis by (simp add: answers_def)
  qed
qed (simp add: answers_def)

text \<open>
  Keys are isolated: the answers a key's \<open>Allow\<close> and \<open>AllowN\<close> calls get are the answers they
  get when all calls for other keys are left out.
\<close>

theorem keyed_isolation:
  assumes "keyed_inv kl"
  shows "answers k ops (fst (run (keyed_do fp) ops kl)) =
    answers k (filter (touches k) ops) (fst (run (keyed_do fp) (filter (touches k) ops) kl))"
  using buckets_isolated [of k "keyed_abs kl" "keyed_abs kl" ops fp] kref.spec_run [OF assms]
  by (simp add: same_for_def)

theorem keyed_isolation_witness:
  "answers (1 :: nat) [KAllow 1 (0, 0, 0), KAllow 2 (0, 0, 0), KAllow 1 (0, 0, 0)]
     (fst (run (keyed_do exact_fpu) [KAllow 1 (0, 0, 0), KAllow 2 (0, 0, 0), KAllow 1 (0, 0, 0)]
       (NewKeyed 10 1 [] :: nat keyed))) =
   answers (1 :: nat) [KAllow 1 (0, 0, 0), KAllow 1 (0, 0, 0)]
     (fst (run (keyed_do exact_fpu) [KAllow 1 (0, 0, 0), KAllow 1 (0, 0, 0)] (NewKeyed 10 1 [] :: nat keyed)))"
  using keyed_isolation [OF keyed_inv_New, of "1 :: nat" "[KAllow 1 (0, 0, 0), KAllow 2 (0, 0, 0), KAllow 1 (0, 0, 0)]"
      exact_fpu 10 1]
  by (simp only: filter.simps touches.simps) simp

text \<open>A key's bucket, and its level once a call has used it.\<close>

definition bucket_of :: "'k \<Rightarrow> 'k keyed \<Rightarrow> limiter option" where
  "bucket_of k kl = map_option fst (bucket (keyed_abs kl) k)"

lemma refill_full:
  assumes "limiter_inv exact_fpu l" "lastFill l + d \<le> now" "0 \<le> d" "d \<le> max_int64"
    "burst l * 1000000000 \<le> of_int d * rate l"
  shows "tokens (refill exact_fpu now l) = burst l"
proof -
  have "burst l \<le> of_int d * rate l / 1000000000" using assms(5) by simp
  then have "burst l \<le> tokens l + of_int d * rate l / 1000000000"
    using assms(1) unfolding limiter_inv_def by linarith
  then have "burst l \<le> tokens (refill exact_fpu now l)"
    using refill_after [OF assms(1-4)] by linarith
  moreover have "tokens (refill exact_fpu now l) \<le> burst l" by (simp add: refill_def Let_def)
  ultimately show ?thesis by simp
qed

lemma full_same:
  assumes "limiter_inv exact_fpu l" "lastFill l + d \<le> tNew" "0 \<le> d" "d \<le> max_int64" "tNew \<le> now"
    "burst l * 1000000000 \<le> of_int d * rate l" "burst l = of_int b" "rate l = r"
  shows "limiter_AllowN exact_fpu now n l = limiter_AllowN exact_fpu now n (limiter_New exact_fpu tNew r b)"
proof -
  have "0 \<le> rate l" "0 \<le> burst l" using assms(1) by (auto simp: limiter_inv_def)
  then have "tokens (refill exact_fpu now (limiter_New exact_fpu tNew r b)) = burst l"
    using assms(5,7,8)
    by (simp add: refill_def Let_def limiter_New_def exact_Seconds time_Sub_def sat64_def)
  moreover have "tokens (refill exact_fpu now l) = burst l"
    using assms by (intro refill_full [of l d]) auto
  ultimately have "refill exact_fpu now l = refill exact_fpu now (limiter_New exact_fpu tNew r b)"
    using assms(7,8) by (simp add: limiter.equality limiter_New_def)
  then show ?thesis by (simp add: limiter_AllowN_def)
qed

text \<open>
  Eviction is harmless: if the TTL is long enough to fill a bucket, and the key's bucket was
  last used at least a TTL ago, the next \<open>AllowN\<close> for the key is answered the same, and leaves the
  same bucket, whether or not \<open>Evict\<close> ran before it (with exact arithmetic).
\<close>

theorem keyed_evict_harmless:
  assumes "keyed_inv kl" "bucket_of k kl = Some l" "limiter_inv exact_fpu l"
    "rate l = krate kl" "burst l = of_int (kburst kl)"
    "0 \<le> kttl kl" "kttl kl \<le> max_int64" "burst l * 1000000000 \<le> of_int (kttl kl) * rate l"
    "lastFill l + kttl kl \<le> tNew" "tNew \<le> tFill"
  shows "fst (keyed_AllowN exact_fpu (tNew, tSeen, tFill) k n (snd (keyed_Evict now kl))) =
      fst (keyed_AllowN exact_fpu (tNew, tSeen, tFill) k n kl) \<and>
    bucket_of k (snd (keyed_AllowN exact_fpu (tNew, tSeen, tFill) k n (snd (keyed_Evict now kl)))) =
      bucket_of k (snd (keyed_AllowN exact_fpu (tNew, tSeen, tFill) k n kl))"
proof -
  let ?kl' = "snd (keyed_Evict now kl)" and ?ts = "(tNew, tSeen, tFill)"
  let ?s = "keyed_abs kl" and ?s' = "keyed_abs ?kl'"
  have inv: "keyed_inv ?kl'" using assms(1) by (rule keyed_Evict_ref)
  have s': "?s' = snd (buckets_do exact_fpu (KEvict now) ?s)"
    using keyed_Evict_ref(2) [OF assms(1)] by simp
  have same: "limiter_AllowN exact_fpu tFill n l =
      limiter_AllowN exact_fpu tFill n (limiter_New exact_fpu tNew (krate kl) (kburst kl))"
    using assms by (intro full_same [of l "kttl kl"]) auto
  obtain seen where b: "bucket ?s k = Some (l, seen)"
    using assms(2) by (auto simp: bucket_of_def)
  have "bucket ?s' k = None \<or> bucket ?s' k = Some (l, seen)"
    by (simp add: s' Let_def b)
  moreover have "brate ?s' = krate kl" "bburst ?s' = kburst kl" by (simp_all only: s') (simp_all add: Let_def keyed_abs_def)
  ultimately have "fst (bucket_take exact_fpu k n ?ts ?s') = fst (bucket_take exact_fpu k n ?ts ?s) \<and>
      bucket (snd (bucket_take exact_fpu k n ?ts ?s')) k = bucket (snd (bucket_take exact_fpu k n ?ts ?s)) k"
    using same b by (auto simp: bucket_take_simps)
  then show ?thesis
    using keyed_AllowN_ref(2) [OF assms(1), of exact_fpu k n ?ts]
      keyed_AllowN_ref(2) [OF inv, of exact_fpu k n ?ts]
    by (simp add: bucket_of_def)
qed

theorem keyed_evict_harmless_witness:
  "let kl = \<lparr>krate = 10, kburst = 3, kttl = 10 * Minute,
      kentries = [(CHR ''a'', \<lparr>elimiter = 0, lastSeen = 0\<rparr>)],
      kheap = [\<lparr>rate = 10, burst = 3, tokens = 1, lastFill = 0\<rparr>]\<rparr>;
       late = 700 * Second
   in fst (keyed_AllowN exact_fpu (late, late, late) CHR ''a'' 3 (snd (keyed_Evict late kl))) =
      fst (keyed_AllowN exact_fpu (late, late, late) CHR ''a'' 3 kl)"
proof -
  let ?l = "\<lparr>rate = 10, burst = 3, tokens = 1, lastFill = 0\<rparr>"
  let ?kl = "\<lparr>krate = 10, kburst = 3, kttl = 10 * Minute,
      kentries = [(CHR ''a'', \<lparr>elimiter = 0, lastSeen = 0\<rparr>)], kheap = [?l]\<rparr>"
  have "keyed_inv ?kl" by (simp add: keyed_inv_def ptrs_ok_def)
  moreover have "bucket_of CHR ''a'' ?kl = Some ?l"
    by (simp add: bucket_of_def keyed_abs_def view_def)
  moreover have "limiter_inv exact_fpu ?l" by (simp add: limiter_inv_def exact_fpu_def)
  ultimately show ?thesis
    unfolding Let_def by (rule conjunct1 [OF keyed_evict_harmless]) simp_all
qed

end
