(* ===== verification/Retry.thy ===== *)
theory Retry
  imports Floats
begin

text \<open>
  The retry loop of \<open>pkg/retry/retry.go\<close> and the backoffs of \<open>backoff.go\<close>. The function, the
  callbacks and the sleep act on a world; \<open>ctx.Err()\<close> reads it. \<open>Stop(nil)\<close> is not a value of
  the model.
\<close>

section \<open>Errors and options\<close>

function IsMaxAttempts :: "err \<Rightarrow> bool" where
  "IsMaxAttempts e =
     (case e of ErrMaxAttempts n l \<Rightarrow> True | _ \<Rightarrow> list_ex IsMaxAttempts (err_Unwrap e))"
  by pat_completeness auto
termination
  by (relation "measure size") (simp_all only: wf_measure in_measure err_Unwrap_size)

declare IsMaxAttempts.simps [simp del]

definition Stop :: "err \<Rightarrow> err" where
  "Stop e = StopError e"

type_synonym 'w Backoff = "int \<Rightarrow> ('w, duration) action"

record 'w retry_options =
  maxAttempts :: int
  backoff :: "'w Backoff"
  onRetry :: "(int \<Rightarrow> err \<Rightarrow> 'w \<Rightarrow> 'w) option"
  sleep :: "duration \<Rightarrow> ('w, err option) action"

section \<open>Backoffs\<close>

definition ConstantBackoff_Next :: "duration \<Rightarrow> 'w Backoff" where
  "ConstantBackoff_Next delay n w = (delay, w)"

record ExponentialBackoff =
  Initial :: duration
  Multiplier :: rat
  Max :: duration

definition DefaultExponential :: ExponentialBackoff where
  "DefaultExponential = \<lparr>Initial = 100 * Millisecond, Multiplier = 2, Max = 30 * Second\<rparr>"

text \<open>\<open>math.Pow\<close> with an integral exponent that is not negative.\<close>

definition fpow :: "fpu \<Rightarrow> rat \<Rightarrow> int \<Rightarrow> rat" where
  "fpow fp x n = rnd fp (x ^ nat n)"

definition exponential_delay :: "fpu \<Rightarrow> ExponentialBackoff \<Rightarrow> int \<Rightarrow> duration" where
  "exponential_delay fp b attempt =
     (let d = fmul fp (i2f fp (Initial b)) (fpow fp (Multiplier b) attempt)
      in if 0 < Max b \<and> Max b < f2i fp d then Max b else f2i fp d)"

definition ExponentialBackoff_Next :: "fpu \<Rightarrow> ExponentialBackoff \<Rightarrow> 'w Backoff" where
  "ExponentialBackoff_Next fp b attempt w = (exponential_delay fp b attempt, w)"

definition Jitter_Next :: "(duration \<Rightarrow> ('w, duration) action) \<Rightarrow> 'w Backoff \<Rightarrow> 'w Backoff" where
  "Jitter_Next rand_N Base attempt w =
     (let (base, w1) = Base attempt w in if base \<le> 0 then (0, w1) else rand_N base w1)"

definition WithJitter :: "(duration \<Rightarrow> ('w, duration) action) \<Rightarrow> 'w Backoff \<Rightarrow> 'w Backoff" where
  "WithJitter rand_N b = Jitter_Next rand_N b"

section \<open>The retry loop\<close>

text \<open>
  \<open>contextSleep\<close> waits for the timer or for \<open>ctx.Done\<close>; which comes first is decided by the
  world (\<open>timer d\<close> returns whether the timer fired).
\<close>

definition contextSleep :: "('w \<Rightarrow> err option) \<Rightarrow> (duration \<Rightarrow> ('w, bool) action)
    \<Rightarrow> duration \<Rightarrow> ('w, err option) action" where
  "contextSleep ctx_Err timer d w =
     (let (fired, w1) = timer d w in if fired then (None, w1) else (ctx_Err w1, w1))"

definition defaultOptions :: "('w \<Rightarrow> err option) \<Rightarrow> (duration \<Rightarrow> ('w, bool) action) \<Rightarrow> 'w retry_options" where
  "defaultOptions ctx_Err timer =
     \<lparr>maxAttempts = 3, backoff = ConstantBackoff_Next 0, onRetry = None, sleep = contextSleep ctx_Err timer\<rparr>"

text \<open>\<open>WithMaxAttempts\<close> panics on \<open>n < 1\<close>: no option then.\<close>

definition WithMaxAttempts :: "int \<Rightarrow> ('w retry_options \<Rightarrow> 'w retry_options) option" where
  "WithMaxAttempts n = (if n < 1 then None else Some (\<lambda>o'. o'\<lparr>maxAttempts := n\<rparr>))"

definition WithBackoff :: "'w Backoff \<Rightarrow> 'w retry_options \<Rightarrow> 'w retry_options" where
  "WithBackoff b o' = o'\<lparr>backoff := b\<rparr>"

definition WithOnRetry :: "(int \<Rightarrow> err \<Rightarrow> 'w \<Rightarrow> 'w) \<Rightarrow> 'w retry_options \<Rightarrow> 'w retry_options" where
  "WithOnRetry fn o' = o'\<lparr>onRetry := Some fn\<rparr>"

text \<open>What happens between a failed attempt and the next one.\<close>

definition between :: "'w retry_options \<Rightarrow> int \<Rightarrow> err \<Rightarrow> ('w, err option) action" where
  "between cfg attempt e w =
     (let w1 = (case onRetry cfg of None \<Rightarrow> w | Some f \<Rightarrow> f (attempt + 1) e w);
          (delay, w2) = backoff cfg attempt w1
      in if 0 < delay then sleep cfg delay w2 else (None, w2))"

fun do_loop :: "'w retry_options \<Rightarrow> ('w \<Rightarrow> err option) \<Rightarrow> ('w, 'a \<times> err option) action \<Rightarrow> 'a
    \<Rightarrow> int list \<Rightarrow> err option \<Rightarrow> ('w, 'a \<times> err option) action" where
  "do_loop cfg ctx_Err fn zero [] lst w = ((zero, Some (ErrMaxAttempts (maxAttempts cfg) lst)), w)"
| "do_loop cfg ctx_Err fn zero (attempt # rest) lst w =
     (if ctx_Err w \<noteq> None then ((zero, ctx_Err w), w)
      else let ((result, err), w1) = fn w in
        case err of
          None \<Rightarrow> ((result, None), w1)
        | Some e \<Rightarrow> (case as_StopError e of
              Some stop \<Rightarrow> ((zero, Some stop), w1)
            | None \<Rightarrow>
                if attempt < maxAttempts cfg - 1 then
                  (case between cfg attempt e w1 of
                     (Some sleepErr, w2) \<Rightarrow> ((zero, Some sleepErr), w2)
                   | (None, w2) \<Rightarrow> do_loop cfg ctx_Err fn zero rest (Some e) w2)
                else do_loop cfg ctx_Err fn zero rest (Some e) w1))"

definition retry_config :: "('w \<Rightarrow> err option) \<Rightarrow> (duration \<Rightarrow> ('w, bool) action)
    \<Rightarrow> ('w retry_options \<Rightarrow> 'w retry_options) list \<Rightarrow> 'w retry_options" where
  "retry_config ctx_Err timer opts = fold (\<lambda>f c. f c) opts (defaultOptions ctx_Err timer)"

definition retry_Do_cfg :: "'w retry_options \<Rightarrow> ('w \<Rightarrow> err option) \<Rightarrow> ('w, 'a \<times> err option) action
    \<Rightarrow> 'a \<Rightarrow> ('w, 'a \<times> err option) action" where
  "retry_Do_cfg cfg ctx_Err fn zero = do_loop cfg ctx_Err fn zero [0 .. maxAttempts cfg - 1] None"

definition retry_Do :: "('w \<Rightarrow> err option) \<Rightarrow> (duration \<Rightarrow> ('w, bool) action) \<Rightarrow> ('w, 'a \<times> err option) action
    \<Rightarrow> ('w retry_options \<Rightarrow> 'w retry_options) list \<Rightarrow> 'a \<Rightarrow> ('w, 'a \<times> err option) action" where
  "retry_Do ctx_Err timer fn opts zero =
     retry_Do_cfg (retry_config ctx_Err timer opts) ctx_Err fn zero"

definition retry_DoVoid :: "('w \<Rightarrow> err option) \<Rightarrow> (duration \<Rightarrow> ('w, bool) action) \<Rightarrow> ('w, err option) action
    \<Rightarrow> ('w retry_options \<Rightarrow> 'w retry_options) list \<Rightarrow> ('w, err option) action" where
  "retry_DoVoid ctx_Err timer fn opts w =
     (let ((_, err), w1) =
        retry_Do ctx_Err timer (\<lambda>w. let (e, w1) = fn w in (((), e), w1)) opts () w
      in (err, w1))"

section \<open>The result of Do\<close>

text \<open>
  The worlds in which the attempts are made, as long as every one fails with a retryable error
  and nothing cancels the loop; and which attempt ends the loop.
\<close>

definition retryable :: "'a \<times> err option \<Rightarrow> bool" where
  "retryable r \<longleftrightarrow> (\<exists>e. snd r = Some e \<and> as_StopError e = None)"

fun attempt_world :: "'w retry_options \<Rightarrow> ('w, 'a \<times> err option) action \<Rightarrow> 'w \<Rightarrow> nat \<Rightarrow> 'w" where
  "attempt_world cfg fn w 0 = w"
| "attempt_world cfg fn w (Suc i) =
     (let ((_, err), w1) = fn (attempt_world cfg fn w i)
      in snd (between cfg (int i) (the err) w1))"

definition outcome :: "'w retry_options \<Rightarrow> ('w, 'a \<times> err option) action \<Rightarrow> 'w \<Rightarrow> nat \<Rightarrow> 'a \<times> err option" where
  "outcome cfg fn w i = fst (fn (attempt_world cfg fn w i))"

definition do_spec :: "'w retry_options \<Rightarrow> ('w, 'a \<times> err option) action \<Rightarrow> 'a \<Rightarrow> ('w, 'a \<times> err option) action" where
  "do_spec cfg fn zero w =
     (let m = nat (maxAttempts cfg) in
      case find (\<lambda>i. \<not> retryable (outcome cfg fn w i)) [0 ..< m] of
        Some i \<Rightarrow>
          ((case outcome cfg fn w i of
              (v, None) \<Rightarrow> (v, None)
            | (v, Some e) \<Rightarrow> (zero, as_StopError e)), snd (fn (attempt_world cfg fn w i)))
      | None \<Rightarrow>
          ((zero, Some (ErrMaxAttempts (maxAttempts cfg) (snd (outcome cfg fn w (m - 1))))),
           snd (fn (attempt_world cfg fn w (m - 1)))))"

lemma upto_Cons: "i \<le> j \<Longrightarrow> [i .. j] = i # [i + 1 .. j]" for i j :: int
  by (rule upto_rec1)

lemma do_loop_spec:
  assumes "\<And>w. ctx_Err w = None" "\<And>d w. fst (sleep cfg d w) = None"
    "i < nat (maxAttempts cfg)"
  shows "do_loop cfg ctx_Err fn zero [int i .. maxAttempts cfg - 1] lst (attempt_world cfg fn w i) =
    (case find (\<lambda>i. \<not> retryable (outcome cfg fn w i)) [i ..< nat (maxAttempts cfg)] of
        Some i \<Rightarrow>
          ((case outcome cfg fn w i of
              (v, None) \<Rightarrow> (v, None)
            | (v, Some e) \<Rightarrow> (zero, as_StopError e)), snd (fn (attempt_world cfg fn w i)))
      | None \<Rightarrow>
          ((zero, Some (ErrMaxAttempts (maxAttempts cfg) (snd (outcome cfg fn w (nat (maxAttempts cfg) - 1))))),
           snd (fn (attempt_world cfg fn w (nat (maxAttempts cfg) - 1)))))"
  using assms(3)
proof (induction "nat (maxAttempts cfg) - i" arbitrary: i lst rule: less_induct)
  case less
  let ?m = "nat (maxAttempts cfg)" and ?w = "attempt_world cfg fn w i"
  obtain v err w1 where fn: "fn ?w = ((v, err), w1)" by (metis prod.exhaust)
  have upt: "[i ..< ?m] = i # [Suc i ..< ?m]" using less.prems by (simp add: upt_conv_Cons)
  have upto: "[int i .. maxAttempts cfg - 1] = int i # [int (Suc i) .. maxAttempts cfg - 1]"
    using less.prems by (subst upto_Cons) (auto simp: add.commute)
  show ?case
  proof (cases "retryable (v, err)")
    case False
    then show ?thesis
      by (auto simp: upt upto assms(1) fn outcome_def retryable_def split: option.split)
  next
    case True
    then obtain e where e: "err = Some e" "as_StopError e = None" by (auto simp: retryable_def)
    have "fst (between cfg (int i) e w1) = None"
      using assms(2) by (simp add: between_def Let_def case_prod_beta)
    then obtain w2 where w2: "between cfg (int i) e w1 = (None, w2)" by (metis prod.collapse)
    show ?thesis
    proof (cases "Suc i < ?m")
      case True
      then have "int i < maxAttempts cfg - 1" by linarith
      moreover have "attempt_world cfg fn w (Suc i) = w2" by (simp add: fn e w2)
      ultimately show ?thesis
        using less.hyps [of "Suc i" "Some e"] True \<open>retryable (v, err)\<close>
        by (simp add: upt upto assms(1) fn e w2 outcome_def del: attempt_world.simps(2))
    next
      case False
      with less.prems have m: "?m = Suc i" by simp
      then have "maxAttempts cfg = int i + 1" by simp
      then have "do_loop cfg ctx_Err fn zero [int i .. maxAttempts cfg - 1] lst ?w =
          ((zero, Some (ErrMaxAttempts (maxAttempts cfg) (Some e))), w1)"
        by (simp add: upto_Cons assms(1) fn e)
      then show ?thesis
        using \<open>retryable (v, err)\<close> by (simp add: m fn e outcome_def)
    qed
  qed
qed

text \<open>
  C11. \<open>Do\<close> without cancellation: it makes attempts until one succeeds, one fails with a
  \<open>StopError\<close>, or \<open>maxAttempts\<close> have failed; it returns the value of the first success, or the
  error inside the \<open>StopError\<close>, or \<open>ErrMaxAttempts\<close> with the last error; between two attempts
  it runs the callback, the backoff and the sleep, and after the last attempt none of them.
\<close>

theorem retry_Do_result:
  assumes "\<forall>w. ctx_Err w = None" "\<forall>d w. fst (sleep cfg d w) = None" "1 \<le> maxAttempts cfg"
  shows "retry_Do_cfg cfg ctx_Err fn zero w = do_spec cfg fn zero w"
  using do_loop_spec [of ctx_Err cfg 0 fn zero None w] assms
  by (simp add: retry_Do_cfg_def do_spec_def Let_def)

theorem retry_Do_result_witness:
  "retry_Do_cfg \<lparr>maxAttempts = 3, backoff = ConstantBackoff_Next 5, onRetry = None,
      sleep = \<lambda>d w. (None, w @ ['' zz''])\<rparr> (\<lambda>w. None)
      (\<lambda>w. if length w < 3 then ((0 :: int, Some (ErrNew ''x'')), w @ ['' try'']) else ((7, None), w @ ['' ok''])) 0 [] =
   ((7, None), ['' try'', '' zz'', '' try'', '' zz'', '' ok''])"
  by (subst retry_Do_result)
    (simp_all add: do_spec_def Let_def outcome_def between_def ConstantBackoff_Next_def retryable_def
      upt_rec numeral_nat)

section \<open>Bounds\<close>

lemma between_eq:
  "snd (between cfg i e w) =
     (let (delay, w2) = backoff cfg i (case onRetry cfg of None \<Rightarrow> w | Some f \<Rightarrow> f (i + 1) e w)
      in if 0 < delay then snd (sleep cfg delay w2) else w2)"
  by (simp add: between_def Let_def case_prod_beta)

text \<open>What the parts of the loop do to a count of calls kept in the world.\<close>

definition counts_calls :: "'w retry_options \<Rightarrow> ('w, 'a \<times> err option) action \<Rightarrow> ('w \<Rightarrow> nat) \<Rightarrow> bool" where
  "counts_calls cfg fn calls \<longleftrightarrow> (\<forall>w. calls (snd (fn w)) = Suc (calls w)) \<and>
     (\<forall>i e w. calls (snd (between cfg i e w)) = calls w)"

lemma do_loop_calls:
  assumes "counts_calls cfg fn calls"
  shows "calls (snd (do_loop cfg ctx_Err fn zero as lst w)) \<le> calls w + length as"
  using assms
proof (induction as arbitrary: lst w)
  case (Cons a as)
  obtain v err w1 where fn: "fn w = ((v, err), w1)" by (metis prod.exhaust)
  have w1: "calls w1 = Suc (calls w)" using Cons.prems fn by (metis counts_calls_def snd_conv)
  have w2: "calls (snd (between cfg a e w1)) = Suc (calls w)" for e
    using Cons.prems w1 by (simp add: counts_calls_def)
  show ?case
    using w1 Cons.IH [OF Cons.prems, of "err" w1] Cons.IH [OF Cons.prems, of err "snd (between cfg a (the err) w1)"]
      w2 [of "the err"]
    by (auto simp: fn split: option.split prod.split)
qed simp

text \<open>
  \<open>Do\<close> calls the function at most \<open>maxAttempts\<close> times, whatever the context, the callback,
  the backoff and the sleep do; and if the context is done at the start it does not call it.
\<close>

theorem retry_Do_calls:
  assumes "counts_calls cfg fn calls" "1 \<le> maxAttempts cfg"
  shows "calls (snd (retry_Do_cfg cfg ctx_Err fn zero w)) \<le> calls w + nat (maxAttempts cfg) \<and>
    (ctx_Err w \<noteq> None \<longrightarrow> retry_Do_cfg cfg ctx_Err fn zero w = ((zero, ctx_Err w), w))"
  using do_loop_calls [OF assms(1), of ctx_Err zero "[0 .. maxAttempts cfg - 1]" None w] assms(2)
  by (simp add: retry_Do_cfg_def upto_Cons)

theorem retry_Do_calls_witness:
  "snd (retry_Do_cfg \<lparr>maxAttempts = 2, backoff = ConstantBackoff_Next 0, onRetry = None, sleep = \<lambda>d n. (None, n)\<rparr>
     (\<lambda>_. None) (\<lambda>n :: nat. (((), Some Canceled), Suc n)) () 0) \<le> 2"
proof -
  let ?cfg = "\<lparr>maxAttempts = 2, backoff = ConstantBackoff_Next 0, onRetry = None, sleep = \<lambda>d n. (None, n)\<rparr>"
  have "counts_calls ?cfg (\<lambda>n :: nat. (((), Some Canceled), Suc n)) (\<lambda>n. n)"
    by (simp add: counts_calls_def between_eq ConstantBackoff_Next_def)
  from retry_Do_calls [OF this, of "\<lambda>_. None" "()" 0] show ?thesis by simp
qed

section \<open>The interface to a backoff\<close>

text \<open>The loop sleeps only in its sleeps, and not longer than it asks for.\<close>

definition sleeps_as_told :: "'w Backoff \<Rightarrow> ('w \<Rightarrow> duration) \<Rightarrow> 'w retry_options
    \<Rightarrow> ('w, 'a \<times> err option) action \<Rightarrow> bool" where
  "sleeps_as_told nxt slept cfg fn \<longleftrightarrow> backoff cfg = nxt \<and> (\<forall>w. slept (snd (fn w)) = slept w) \<and>
     (\<forall>f i e w. onRetry cfg = Some f \<longrightarrow> slept (f i e w) = slept w) \<and>
     (\<forall>d w. 0 < d \<longrightarrow> slept (snd (sleep cfg d w)) \<le> slept w + d)"

text \<open>
  What the loop needs from a \<open>Backoff\<close> to finish in bounded time: a bound on every delay, and
  that computing a delay does not count as sleeping.
\<close>

locale bounded_backoff =
  fixes nxt :: "'w Backoff" and bound :: duration and slept :: "'w \<Rightarrow> duration"
  assumes delay_le: "fst (nxt i w) \<le> bound"
    and delay_awake: "slept (snd (nxt i w)) = slept w"
begin

lemma between_slept:
  assumes "sleeps_as_told nxt slept cfg fn"
  shows "slept (snd (between cfg i e w)) \<le> slept w + max 0 bound"
proof -
  let ?w1 = "case onRetry cfg of None \<Rightarrow> w | Some f \<Rightarrow> f (i + 1) e w"
  have w1: "slept ?w1 = slept w" using assms by (auto simp: sleeps_as_told_def split: option.split)
  obtain d w2 where n: "nxt i ?w1 = (d, w2)" by (metis prod.exhaust)
  have "d \<le> bound" "slept w2 = slept w" using delay_le [of i ?w1] delay_awake [of i ?w1] n w1 by auto
  moreover have "0 < d \<Longrightarrow> slept (snd (sleep cfg d w2)) \<le> slept w2 + d"
    using assms by (simp add: sleeps_as_told_def)
  moreover have "backoff cfg = nxt" using assms by (simp add: sleeps_as_told_def)
  ultimately show ?thesis by (simp add: between_eq n) linarith
qed

lemma do_loop_slept:
  assumes "sleeps_as_told nxt slept cfg fn" "0 \<le> a"
  shows "slept (snd (do_loop cfg ctx_Err fn zero [a .. maxAttempts cfg - 1] lst w)) \<le>
    slept w + max 0 (maxAttempts cfg - 1 - a) * max 0 bound"
  using assms(2)
proof (induction "nat (maxAttempts cfg - a)" arbitrary: a lst w)
  case 0
  then show ?case by simp
next
  case (Suc n)
  let ?m = "maxAttempts cfg"
  obtain v err w1 where fn: "fn w = ((v, err), w1)" by (metis prod.exhaust)
  have w1: "slept w1 = slept w" using assms(1) fn by (metis sleeps_as_told_def snd_conv)
  have upto: "[a .. ?m - 1] = a # [a + 1 .. ?m - 1]" using Suc(2) by (intro upto_Cons) linarith
  show ?case
  proof (cases "a < ?m - 1")
    case True
    have w2: "slept (snd (between cfg a e w1)) \<le> slept w + max 0 bound" for e
      using between_slept [OF assms(1), of a e w1] w1 by simp
    have k: "max 0 (?m - 1 - a) * max 0 bound = max 0 bound + max 0 (?m - 1 - (a + 1)) * max 0 bound"
      using True by (simp add: left_diff_distrib max_def)
    have "slept (snd (do_loop cfg ctx_Err fn zero [a + 1 .. ?m - 1] l (snd (between cfg a e w1)))) \<le>
        slept w + max 0 (?m - 1 - a) * max 0 bound" for l e
      using Suc(1) [of "a + 1" l "snd (between cfg a e w1)"] w2 [of e] k Suc(2,3) by linarith
    moreover have "slept w + max 0 bound \<le> slept w + max 0 (?m - 1 - a) * max 0 bound"
      unfolding k by simp
    ultimately show ?thesis
      using w1 w2 [of "the err"] True
      by (auto simp: upto fn split: option.split prod.split intro: order_trans)
        (metis order_trans snd_conv)+
  next
    case False
    then have "?m - 1 = a" using Suc(2) by linarith
    then show ?thesis using w1 by (auto simp: upto fn split: option.split)
  qed
qed

lemma retry_slept:
  assumes "sleeps_as_told nxt slept cfg fn" "1 \<le> maxAttempts cfg"
  shows "slept (snd (retry_Do_cfg cfg ctx_Err fn zero w)) \<le> slept w + (maxAttempts cfg - 1) * max 0 bound"
  using do_loop_slept [OF assms(1), of 0 ctx_Err zero None w] assms(2) by (simp add: retry_Do_cfg_def)

end

interpretation const_backoff: bounded_backoff "ConstantBackoff_Next d" d slept
  by unfold_locales (simp_all add: ConstantBackoff_Next_def)

lemma exponential_le_Max: "0 < Max b \<Longrightarrow> exponential_delay fp b n \<le> Max b"
  by (simp add: exponential_delay_def Let_def)

lemma exponential_bounded:
  "0 < Max b \<Longrightarrow> bounded_backoff (ExponentialBackoff_Next fp b) (Max b) slept"
  by unfold_locales (simp_all add: ExponentialBackoff_Next_def exponential_le_Max)

interpretation default_backoff: bounded_backoff "ExponentialBackoff_Next fp DefaultExponential"
    "Max DefaultExponential" slept
  by (rule exponential_bounded) (simp add: DefaultExponential_def)

text \<open>What \<open>math/rand/v2\<close> promises of \<open>rand.N\<close>: a number from 0 to below its argument.\<close>

definition rand_ok :: "(duration \<Rightarrow> ('w, duration) action) \<Rightarrow> ('w \<Rightarrow> duration) \<Rightarrow> bool" where
  "rand_ok rand_N slept \<longleftrightarrow>
     (\<forall>n w. 0 < n \<longrightarrow> 0 \<le> fst (rand_N n w) \<and> fst (rand_N n w) < n \<and> slept (snd (rand_N n w)) = slept w)"

lemma jitter_bounded:
  assumes "bounded_backoff nxt bound slept" "rand_ok rand_N slept" "0 \<le> bound"
  shows "bounded_backoff (WithJitter rand_N nxt) bound slept"
proof
  fix i w
  obtain d w1 where n: "nxt i w = (d, w1)" by (metis prod.exhaust)
  then have "d \<le> bound" "slept w1 = slept w"
    using bounded_backoff.delay_le [OF assms(1), of i w] bounded_backoff.delay_awake [OF assms(1), of i w]
    by auto
  then show "fst (WithJitter rand_N nxt i w) \<le> bound" "slept (snd (WithJitter rand_N nxt i w)) = slept w"
    using assms(2,3) by (auto simp: rand_ok_def WithJitter_def Jitter_Next_def n)
      (metis (no_types) less_le_trans less_imp_le linorder_not_le)+
qed

text \<open>
  With a jittered exponential backoff that has a maximum, all the sleeps of one \<open>Do\<close> together
  take at most \<open>maxAttempts - 1\<close> times that maximum.
\<close>

theorem retry_Do_total_delay:
  assumes "0 < Max b" "rand_ok rand_N slept" "1 \<le> maxAttempts cfg"
    "sleeps_as_told (WithJitter rand_N (ExponentialBackoff_Next fp b)) slept cfg fn"
  shows "slept (snd (retry_Do_cfg cfg ctx_Err fn zero w)) \<le> slept w + (maxAttempts cfg - 1) * Max b"
proof -
  have "bounded_backoff (WithJitter rand_N (ExponentialBackoff_Next fp b)) (Max b) slept"
    using assms(1,2) by (intro jitter_bounded exponential_bounded) auto
  from bounded_backoff.retry_slept [OF this assms(4,3), of ctx_Err zero w] assms(1) show ?thesis
    by simp
qed

theorem retry_Do_total_delay_witness:
  "snd (retry_Do_cfg \<lparr>maxAttempts = 3,
       backoff = WithJitter (\<lambda>n w. (n - 1, w)) (ExponentialBackoff_Next exact_fpu DefaultExponential),
       onRetry = None, sleep = \<lambda>d w. (None, w + d)\<rparr>
     (\<lambda>_. None) (\<lambda>w. (((), Some DeadlineExceeded), w)) () 0) \<le> 60 * Second"
proof -
  let ?r = "\<lambda>n w :: int. (n - 1, w)"
  let ?cfg = "\<lparr>maxAttempts = 3, backoff = WithJitter ?r (ExponentialBackoff_Next exact_fpu DefaultExponential),
       onRetry = None, sleep = \<lambda>d w. (None, w + d)\<rparr>"
  have "rand_ok ?r id" by (simp add: rand_ok_def)
  moreover have "sleeps_as_told (WithJitter ?r (ExponentialBackoff_Next exact_fpu DefaultExponential)) id ?cfg
      (\<lambda>w. (((), Some DeadlineExceeded), w))"
    by (simp add: sleeps_as_told_def)
  ultimately show ?thesis
    using retry_Do_total_delay [of DefaultExponential ?r id ?cfg exact_fpu
        "\<lambda>w. (((), Some DeadlineExceeded), w)" "\<lambda>_. None" "()" 0]
    by (simp add: DefaultExponential_def)
qed

section \<open>The exponential backoff\<close>

text \<open>
  As long as \<open>Initial * Multiplier^n\<close> is in the range of \<open>time.Duration\<close>, the delay is what
  the comment on \<open>ExponentialBackoff\<close> says: the minimum of it (in whole nanoseconds) and \<open>Max\<close>.
\<close>

theorem exponential_delay_min:
  assumes "0 \<le> Initial b" "0 \<le> Multiplier b" "0 < Max b"
    "of_int (Initial b) * Multiplier b ^ nat n \<le> of_int max_int64"
  shows "exponential_delay exact_fpu b n = min \<lfloor>of_int (Initial b) * Multiplier b ^ nat n\<rfloor> (Max b)"
proof -
  let ?d = "of_int (Initial b) * Multiplier b ^ nat n"
  have d: "0 \<le> ?d" using assms(1,2) by simp
  then have "trunc ?d = \<lfloor>?d\<rfloor>" "0 \<le> \<lfloor>?d\<rfloor>" by (simp_all add: trunc_def)
  moreover have "\<lfloor>?d\<rfloor> \<le> max_int64" using assms(4) by (metis floor_mono floor_of_int)
  ultimately have "f2i exact_fpu ?d = \<lfloor>?d\<rfloor>" by (simp add: f2i_def in_int64_def)
  moreover have "fpow exact_fpu (Multiplier b) n = Multiplier b ^ nat n"
    by (simp add: fpow_def exact_fpu_def)
  ultimately show ?thesis using assms(3) by (simp add: exponential_delay_def Let_def min_def)
qed

theorem exponential_delay_min_witness:
  "exponential_delay exact_fpu DefaultExponential 4 = 1600 * Millisecond"
  using exponential_delay_min [of DefaultExponential 4] by (simp add: DefaultExponential_def)

text \<open>
  The cap does not hold for late attempts: once \<open>Initial * Multiplier^n\<close> leaves the range of
  \<open>time.Duration\<close>, from attempt 37 on for the default backoff, the conversion (as done on amd64)
  gives the smallest duration, which is not above \<open>Max\<close>, and the loop does not sleep at all.
\<close>

theorem exponential_delay_overflow:
  assumes "37 \<le> n"
  shows "exponential_delay exact_fpu DefaultExponential n = min_int64 \<and>
    (backoff cfg = ExponentialBackoff_Next exact_fpu DefaultExponential \<and> onRetry cfg = None
      \<longrightarrow> between cfg n e w = (None, w))"
proof -
  have "(2 :: rat) ^ 37 \<le> 2 ^ nat n" using assms by (intro power_increasing) auto
  then have "of_int (max_int64 + 1) \<le> 100000000 * (2 :: rat) ^ nat n" by simp
  then have "\<not> trunc (100000000 * (2 :: rat) ^ nat n) \<le> max_int64"
    by (simp add: trunc_def le_floor_iff not_le flip: zle_add1_eq_le)
  then have "exponential_delay exact_fpu DefaultExponential n = min_int64"
    by (simp add: exponential_delay_def DefaultExponential_def fpow_def)
      (simp add: exact_fpu_def f2i_def in_int64_def)
  then show ?thesis by (simp add: between_def ExponentialBackoff_Next_def)
qed

theorem exponential_delay_overflow_witness:
  "between \<lparr>maxAttempts = 50, backoff = ExponentialBackoff_Next exact_fpu DefaultExponential,
     onRetry = None, sleep = \<lambda>d w. (None, w + 1)\<rparr> 40 Canceled (0 :: int) = (None, 0)"
  using exponential_delay_overflow [of 40 "\<lparr>maxAttempts = 50,
      backoff = ExponentialBackoff_Next exact_fpu DefaultExponential, onRetry = None,
      sleep = \<lambda>d w. (None, w + 1)\<rparr>" Canceled "0 :: int"]
  by simp

end
