(* ===== verification/Saga.thy ===== *)
theory Saga
  imports GoStd
begin

text \<open>
  The sagas of \<open>pkg/saga/saga.go\<close>: steps with compensations, run in order and undone in reverse
  order when one fails. The steps and the hook act on a world; logging is left out. The errors
  \<open>saga.Error\<close> and \<open>CompensationError\<close> are values of the type of errors.
\<close>

section \<open>Steps and sagas\<close>

record 'w Step =
  Name :: string
  Execute :: "('w, err option) action"
  Compensate :: "('w, err option) action option"

record 'w saga =
  sname :: string
  steps :: "'w Step list"
  onStep :: "(string \<Rightarrow> string \<Rightarrow> err option \<Rightarrow> 'w \<Rightarrow> 'w) option"

definition saga_New :: "string \<Rightarrow> 'w Step list \<Rightarrow> 'w saga" where
  "saga_New name ss = \<lparr>sname = name, steps = ss, onStep = None\<rparr>"

definition WithOnStep :: "(string \<Rightarrow> string \<Rightarrow> err option \<Rightarrow> 'w \<Rightarrow> 'w) \<Rightarrow> 'w saga \<Rightarrow> 'w saga" where
  "WithOnStep fn s = s\<lparr>onStep := Some fn\<rparr>"

definition notify :: "'w saga \<Rightarrow> string \<Rightarrow> string \<Rightarrow> err option \<Rightarrow> 'w \<Rightarrow> 'w" where
  "notify s name phase e w = (case onStep s of None \<Rightarrow> w | Some f \<Rightarrow> f name phase e w)"

text \<open>The loop of \<open>compensate\<close>, on the completed indices from the last to the first.\<close>

fun compensate_loop :: "'w saga \<Rightarrow> nat list \<Rightarrow> (string \<times> err) list \<Rightarrow> ('w, (string \<times> err) list) action" where
  "compensate_loop s [] errs w = (errs, w)"
| "compensate_loop s (i # is) errs w =
     (let step = steps s ! i in
      case Compensate step of
        None \<Rightarrow> compensate_loop s is errs w
      | Some c \<Rightarrow>
          let (err, w1) = c w;
              w2 = notify s (Name step) ''compensate'' err w1
          in case err of
               None \<Rightarrow> compensate_loop s is errs w2
             | Some e \<Rightarrow> compensate_loop s is (errs @ [(Name step, e)]) w2)"

definition compensate :: "'w saga \<Rightarrow> nat list \<Rightarrow> ('w, (string \<times> err) list) action" where
  "compensate s completed w = compensate_loop s (rev completed) [] w"

fun run_loop :: "'w saga \<Rightarrow> (nat \<times> 'w Step) list \<Rightarrow> nat list \<Rightarrow> ('w, err option) action" where
  "run_loop s [] completed w = (None, w)"
| "run_loop s ((i, step) # rest) completed w =
     (let (err, w1) = Execute step w;
          w2 = notify s (Name step) ''execute'' err w1
      in case err of
           Some e \<Rightarrow>
             let (compErrs, w3) = compensate s completed w2
             in (Some (SagaError (sname s) (Name step) e compErrs), w3)
         | None \<Rightarrow> run_loop s rest (completed @ [i]) w2)"

definition saga_Run :: "'w saga \<Rightarrow> ('w, err option) action" where
  "saga_Run s w = run_loop s (zip [0 ..< length (steps s)] (steps s)) [] w"

definition HasCompensationErrors :: "err \<Rightarrow> bool" where
  "HasCompensationErrors e = (case e of SagaError sn fs c ces \<Rightarrow> 0 < length ces | _ \<Rightarrow> False)"

section \<open>The specification: nested undo\<close>

text \<open>
  A saga is its first step around the saga of the other steps: if the inner saga fails, the
  step is compensated and the failure passed on. A failure is the name of the failed step, its
  error, and the errors of the compensations so far.
\<close>

type_synonym failure = "string \<times> err \<times> (string \<times> err) list"

definition undo :: "'w saga \<Rightarrow> 'w Step \<Rightarrow> failure \<Rightarrow> ('w, failure) action" where
  "undo s step f w =
     (case Compensate step of
        None \<Rightarrow> (f, w)
      | Some c \<Rightarrow>
          let (err, w1) = c w; (failed, cause, errs) = f
          in ((failed, cause, case err of None \<Rightarrow> errs | Some e \<Rightarrow> errs @ [(Name step, e)]),
              notify s (Name step) ''compensate'' err w1))"

fun nested :: "'w saga \<Rightarrow> 'w Step list \<Rightarrow> ('w, failure option) action" where
  "nested s [] w = (None, w)"
| "nested s (step # rest) w =
     (let (err, w1) = Execute step w;
          w2 = notify s (Name step) ''execute'' err w1
      in case err of
           Some e \<Rightarrow> (Some (Name step, e, []), w2)
         | None \<Rightarrow>
             (case nested s rest w2 of
                (None, w3) \<Rightarrow> (None, w3)
              | (Some f, w3) \<Rightarrow> map_prod Some id (undo s step f w3)))"

definition saga_error :: "'w saga \<Rightarrow> failure \<Rightarrow> err" where
  "saga_error s f = (case f of (failed, cause, errs) \<Rightarrow> SagaError (sname s) failed cause errs)"

text \<open>Undoing the completed steps after the failure \<open>f\<close>.\<close>

definition unwind :: "'w saga \<Rightarrow> nat list \<Rightarrow> failure \<times> 'w \<Rightarrow> failure \<times> 'w" where
  "unwind s is r = fold (\<lambda>i (f, w). undo s (steps s ! i) f w) is r"

lemma compensate_loop_unwind:
  "compensate_loop s is errs w =
     (snd (snd (fst (unwind s is ((n, e, errs), w)))), snd (unwind s is ((n, e, errs), w))) \<and>
   fst (fst (unwind s is ((n, e, errs), w))) = n \<and> fst (snd (fst (unwind s is ((n, e, errs), w)))) = e"
  unfolding unwind_def
  by (induction "is" arbitrary: errs w)
    (auto simp: undo_def Let_def split: option.split prod.split)

lemma compensate_unwind:
  "(let (compErrs, w') = compensate s completed w in (Some (SagaError (sname s) n e compErrs), w')) =
     map_prod (Some \<circ> saga_error s) id (unwind s (rev completed) ((n, e, []), w))"
  using compensate_loop_unwind [of s "rev completed" "[]" w n e]
  by (cases "unwind s (rev completed) ((n, e, []), w)") (auto simp: compensate_def saga_error_def)

lemma run_loop_nested:
  assumes "\<forall>(i, step) \<in> set pairs. steps s ! i = step"
  shows "run_loop s pairs completed w =
    (case nested s (map snd pairs) w of
       (None, w') \<Rightarrow> (None, w')
     | (Some f, w') \<Rightarrow> map_prod (Some \<circ> saga_error s) id (unwind s (rev completed) (f, w')))"
  using assms
proof (induction pairs arbitrary: completed w)
  case (Cons p pairs)
  obtain i step where p: "p = (i, step)" by (cases p)
  obtain err w1 where ex: "Execute step w = (err, w1)" by (cases "Execute step w")
  show ?case
  proof (cases err)
    case None
    let ?w2 = "notify s (Name step) ''execute'' None w1"
    obtain r w3 where n: "nested s (map snd pairs) ?w2 = (r, w3)" by fastforce
    have "steps s ! i = step" using Cons.prems p by simp
    then have "unwind s (rev (completed @ [i])) (f, w3) = unwind s (rev completed) (undo s step f w3)" for f
      by (simp add: unwind_def)
    moreover have "run_loop s pairs (completed @ [i]) ?w2 =
        (case r of None \<Rightarrow> (None, w3)
         | Some f \<Rightarrow> map_prod (Some \<circ> saga_error s) id (unwind s (rev (completed @ [i])) (f, w3)))"
      using Cons.IH [of "completed @ [i]" ?w2] Cons.prems n by simp
    ultimately show ?thesis
      by (cases r; cases "undo s step (the r) w3") (simp_all add: p ex None n Let_def)
  next
    case (Some e)
    then show ?thesis
      using compensate_unwind [of s completed "notify s (Name step) ''execute'' (Some e) w1" "Name step" e]
      by (simp add: p ex Let_def)
  qed
qed simp

lemma saga_Run_nested:
  "saga_Run s w = map_prod (map_option (saga_error s)) id (nested s (steps s) w)"
proof -
  have "\<forall>(i, step) \<in> set (zip [0 ..< length (steps s)] (steps s)). steps s ! i = step"
    by (auto simp: in_set_zip)
  from run_loop_nested [OF this, of "[]" w] show ?thesis
    by (auto simp: saga_Run_def unwind_def split: prod.split option.split)
qed

text \<open>
  C6. \<open>Run\<close>, with its list of completed indices and its loop from the last to the first, behaves
  as the nested undo: the steps execute in order until one fails, then exactly the steps before
  it that have a compensation are compensated, the last completed first, all of them even if
  some compensations fail; the error names the failed step, its cause, and the compensation
  errors in the order they occurred.
\<close>

theorem saga_Run_is_nested_undo:
  "saga_Run s w = map_prod (map_option (saga_error s)) id (nested s (steps s) w)"
  by (rule saga_Run_nested)

section \<open>Rollback\<close>

text \<open>
  A step whose compensation takes back the observable effect of its success, and which has no
  observable effect when it fails. A step without compensation must have no observable effect.
\<close>

definition undoes :: "('w \<Rightarrow> 's) \<Rightarrow> 'w Step \<Rightarrow> bool" where
  "undoes obs step \<longleftrightarrow> (\<exists>f g.
     (\<forall>w. obs (snd (Execute step w)) = (if fst (Execute step w) = None then f (obs w) else obs w)) \<and>
     (\<forall>x. g (f x) = x) \<and>
     (case Compensate step of None \<Rightarrow> g = id
      | Some c \<Rightarrow> \<forall>w. fst (c w) = None \<and> obs (snd (c w)) = g (obs w)))"

definition unseen_hook :: "('w \<Rightarrow> 's) \<Rightarrow> 'w saga \<Rightarrow> bool" where
  "unseen_hook obs s \<longleftrightarrow> (\<forall>f n p e w. onStep s = Some f \<longrightarrow> obs (f n p e w) = obs w)"

lemma unseen_notify: "unseen_hook obs s \<Longrightarrow> obs (notify s n p e w) = obs w"
  by (auto simp: unseen_hook_def notify_def split: option.split)

lemma map_prod_Some_eq: "map_prod Some id p = (Some x, y) \<longleftrightarrow> p = (x, y)"
  by (cases p) auto

lemma nested_rollback:
  assumes "unseen_hook obs s" "\<forall>step \<in> set ss. undoes obs step" "nested s ss w = (Some f, w')"
  shows "obs w' = obs w \<and> snd (snd f) = []"
  using assms(2,3)
proof (induction ss arbitrary: w w' f)
  case (Cons step rest)
  obtain f' g where u: "\<And>w. obs (snd (Execute step w)) = (if fst (Execute step w) = None then f' (obs w) else obs w)"
    "\<And>x. g (f' x) = x"
    "case Compensate step of None \<Rightarrow> g = id
      | Some c \<Rightarrow> \<forall>w. fst (c w) = None \<and> obs (snd (c w)) = g (obs w)"
    using Cons.prems(1) by (auto simp: undoes_def)
  obtain err w1 where ex: "Execute step w = (err, w1)" by fastforce
  have o1: "obs w1 = (if err = None then f' (obs w) else obs w)" using u(1) [of w] ex by simp
  let ?w2 = "notify s (Name step) ''execute'' err w1"
  have o2: "obs ?w2 = obs w1" using assms(1) by (rule unseen_notify)
  show ?case
  proof (cases err)
    case None
    then obtain r w3 where n: "nested s rest ?w2 = (Some r, w3)" "undo s step r w3 = (f, w')"
      using Cons.prems(2) ex by (auto simp: Let_def map_prod_Some_eq split: prod.splits option.splits)
    have r: "obs w3 = obs ?w2" "snd (snd r) = []" using Cons.IH [OF _ n(1)] Cons.prems(1) by auto
    show ?thesis
      using n(2) u(2,3) r o1 o2 None
      by (cases "Compensate step")
        (auto simp: undo_def unseen_notify [OF assms(1)] Let_def prod_eq_iff split: prod.splits)
  next
    case (Some e)
    then show ?thesis using Cons.prems(2) ex o1 o2 by (auto simp: Let_def)
  qed
qed simp

text \<open>
  Rollback: if each step's compensation takes back what the step did (and a failing step does
  nothing), a failed \<open>Run\<close> leaves the observable state as it found it and reports no
  compensation errors.
\<close>

theorem saga_rollback:
  assumes "unseen_hook obs s" "\<forall>step \<in> set (steps s). undoes obs step"
    "saga_Run s w = (Some e, w')"
  shows "obs w' = obs w \<and> \<not> HasCompensationErrors e"
proof -
  obtain f where "nested s (steps s) w = (Some f, w')" "e = saga_error s f"
    using assms(3) by (auto simp: saga_Run_nested map_prod_def split: prod.splits)
  then show ?thesis
    using nested_rollback [OF assms(1,2)]
    by (auto simp: saga_error_def HasCompensationErrors_def split: prod.splits)
qed

definition add_step :: "int \<Rightarrow> bool \<Rightarrow> int Step" where
  "add_step k ok = \<lparr>Name = ''add'',
     Execute = (\<lambda>w. if ok then (None, w + k) else (Some Canceled, w)),
     Compensate = Some (\<lambda>w. (None, w - k))\<rparr>"

lemma undoes_add_step: "undoes id (add_step k ok)"
  unfolding undoes_def
  by (rule exI [of _ "\<lambda>x. if ok then x + k else x + k"], rule exI [of _ "\<lambda>x. x - k"]) (simp add: add_step_def)

theorem saga_rollback_witness:
  "snd (saga_Run (saga_New ''s'' [add_step 1 True, add_step 2 True, add_step 3 False]) 10) = 10"
proof -
  let ?s = "saga_New ''s'' [add_step 1 True, add_step 2 True, add_step 3 False]"
  have "fst (saga_Run ?s 10) = Some (SagaError ''s'' ''add'' Canceled [])"
    by (simp add: saga_Run_nested saga_New_def add_step_def undo_def notify_def saga_error_def)
  then obtain w' where "saga_Run ?s 10 = (Some (SagaError ''s'' ''add'' Canceled []), w')"
    by (metis prod.collapse)
  with saga_rollback [OF _ _ this, of id] show ?thesis
    by (simp add: saga_New_def unseen_hook_def undoes_add_step)
qed

section \<open>The order of the calls\<close>

text \<open>The hook writes a log that the steps do not touch.\<close>

definition logs_steps :: "('w \<Rightarrow> (string \<times> string) list) \<Rightarrow> 'w saga \<Rightarrow> bool" where
  "logs_steps log s \<longleftrightarrow> (\<exists>f. onStep s = Some f \<and> (\<forall>n p e w. log (f n p e w) = log w @ [(n, p)])) \<and>
     (\<forall>step \<in> set (steps s). (\<forall>w. log (snd (Execute step w)) = log w) \<and>
        (\<forall>c w. Compensate step = Some c \<longrightarrow> log (snd (c w)) = log w))"

definition executes :: "'w Step list \<Rightarrow> (string \<times> string) list" where
  "executes ss = map (\<lambda>st. (Name st, ''execute'')) ss"

definition compensations :: "'w Step list \<Rightarrow> (string \<times> string) list" where
  "compensations ss = map (\<lambda>st. (Name st, ''compensate'')) (rev (filter (\<lambda>st. Compensate st \<noteq> None) ss))"

lemma log_notify: "logs_steps log s \<Longrightarrow> log (notify s n p e w) = log w @ [(n, p)]"
  by (auto simp: logs_steps_def notify_def)

lemma log_Execute:
  "logs_steps log s \<Longrightarrow> step \<in> set (steps s) \<Longrightarrow> Execute step w = (err, w1) \<Longrightarrow> log w1 = log w"
  unfolding logs_steps_def by (drule conjunct2, drule (1) bspec, drule conjunct1) (metis snd_conv)

lemma log_Compensate:
  "logs_steps log s \<Longrightarrow> step \<in> set (steps s) \<Longrightarrow> Compensate step = Some c \<Longrightarrow> log (snd (c w)) = log w"
  unfolding logs_steps_def by blast

lemma log_undo:
  assumes "logs_steps log s" "step \<in> set (steps s)"
  shows "log (snd (undo s step f w)) = log w @ compensations [step] \<and> fst (fst (undo s step f w)) = fst f"
proof (cases "Compensate step")
  case (Some c)
  then show ?thesis
    using log_Compensate [OF assms Some, of w]
    by (simp add: undo_def compensations_def log_notify [OF assms(1)] case_prod_beta Let_def)
qed (simp add: undo_def compensations_def)

lemma nested_log:
  assumes "logs_steps log s" "set ss \<subseteq> set (steps s)"
  shows "case fst (nested s ss w) of
      None \<Rightarrow> log (snd (nested s ss w)) = log w @ executes ss
    | Some f \<Rightarrow> \<exists>done failed rest. ss = done @ failed # rest \<and> fst f = Name failed \<and>
        log (snd (nested s ss w)) = log w @ executes (done @ [failed]) @ compensations done"
  using assms(2)
proof (induction ss arbitrary: w)
  case (Cons step rest)
  obtain err w1 where ex: "Execute step w = (err, w1)" by fastforce
  have "log w1 = log w" using log_Execute [OF assms(1) _ ex] Cons.prems by simp
  then have o2: "log (notify s (Name step) ''execute'' err w1) = log w @ executes [step]"
    by (simp add: log_notify [OF assms(1)] executes_def)
  show ?case
  proof (cases err)
    case None
    let ?w2 = "notify s (Name step) ''execute'' None w1"
    obtain r w3 where n: "nested s rest ?w2 = (r, w3)" by fastforce
    show ?thesis
    proof (cases r)
      case None
      then show ?thesis
        using Cons.IH [of ?w2] Cons.prems n o2 \<open>err = None\<close> ex by (simp add: executes_def)
    next
      case (Some f)
      then have "\<exists>done failed rest'. rest = done @ failed # rest' \<and> fst f = Name failed \<and>
          log w3 = log ?w2 @ executes (done @ [failed]) @ compensations done"
        using Cons.IH [of ?w2] Cons.prems n by simp
      then obtain "done" failed rest' where d: "rest = done @ failed # rest'" "fst f = Name failed"
        "log w3 = log ?w2 @ executes (done @ [failed]) @ compensations done"
        by blast
      have "log (snd (undo s step f w3)) = log w3 @ compensations [step]" "fst (fst (undo s step f w3)) = fst f"
        using log_undo [OF assms(1)] Cons.prems by auto
      with d have "step # rest = (step # done) @ failed # rest' \<and>
          fst (fst (undo s step f w3)) = Name failed \<and>
          log (snd (undo s step f w3)) = log w @ executes ((step # done) @ [failed]) @ compensations (step # done)"
        using o2 \<open>err = None\<close> by (simp add: executes_def compensations_def)
      moreover have "nested s (step # rest) w = map_prod Some id (undo s step f w3)"
        using Some \<open>err = None\<close> ex n by simp
      ultimately show ?thesis by (simp only: fst_map_prod snd_map_prod id_apply option.case) blast
    qed
  next
    case (Some e)
    then have "nested s (step # rest) w = (Some (Name step, e, []), notify s (Name step) ''execute'' err w1)"
      using ex by simp
    moreover have "step # rest = [] @ step # rest \<and> fst (Name step, e, []) = Name step \<and>
        log (notify s (Name step) ''execute'' err w1) = log w @ executes ([] @ [step]) @ compensations []"
      using o2 by (simp add: compensations_def)
    ultimately show ?thesis by (simp only: fst_conv snd_conv option.case) (intro exI)
  qed
qed (simp add: executes_def)

text \<open>
  The order of the calls: a successful \<open>Run\<close> executes all steps in order and compensates
  none; a failed one executes the steps up to the failed one, which the error names, and then
  compensates the steps before it that have a compensation in reverse order, each once.
\<close>

theorem saga_order:
  assumes "logs_steps log s"
  shows "case saga_Run s w of
      (None, w') \<Rightarrow> log w' = log w @ executes (steps s)
    | (Some e, w') \<Rightarrow> \<exists>k cause errs. k < length (steps s) \<and>
        e = SagaError (sname s) (Name (steps s ! k)) cause errs \<and>
        log w' = log w @ executes (take (Suc k) (steps s)) @ compensations (take k (steps s))"
proof (cases "nested s (steps s) w")
  case (Pair r w')
  show ?thesis
  proof (cases r)
    case None
    then show ?thesis using nested_log [OF assms, of "steps s" w] Pair by (simp add: saga_Run_nested)
  next
    case (Some f)
    then obtain "done" failed rest where d: "steps s = done @ failed # rest" "fst f = Name failed"
      "log w' = log w @ executes (done @ [failed]) @ compensations done"
      using nested_log [OF assms, of "steps s" w] Pair by auto
    obtain cause errs where "f = (Name failed, cause, errs)" using d(2) by (cases f) auto
    with d Some Pair show ?thesis
      by (auto simp: saga_Run_nested saga_error_def intro!: exI [of _ "length done"])
  qed
qed

definition log_step :: "string \<Rightarrow> err option \<Rightarrow> (string \<times> string) list Step" where
  "log_step n e = \<lparr>Name = n, Execute = (\<lambda>w. (e, w)), Compensate = Some (\<lambda>w. (None, w))\<rparr>"

definition log_saga :: "(string \<times> string) list saga" where
  "log_saga = WithOnStep (\<lambda>n p e w. w @ [(n, p)])
     (saga_New ''s'' [log_step ''a'' None, log_step ''b'' (Some Canceled)])"

lemma log_saga_simps:
  "steps log_saga = [log_step ''a'' None, log_step ''b'' (Some Canceled)]" "logs_steps (\<lambda>w. w) log_saga"
  "fst (saga_Run log_saga []) = Some (SagaError ''s'' ''b'' Canceled [])"
  by (simp_all add: log_saga_def WithOnStep_def saga_New_def logs_steps_def log_step_def saga_Run_nested
      undo_def notify_def saga_error_def)

theorem saga_order_witness:
  "snd (saga_Run log_saga []) = [(''a'', ''execute''), (''b'', ''execute''), (''a'', ''compensate'')]"
proof -
  obtain w' where r: "saga_Run log_saga [] = (Some (SagaError ''s'' ''b'' Canceled []), w')"
    using log_saga_simps(3) by (metis prod.collapse)
  obtain k where "k < Suc (Suc 0)" "''b'' = Name (steps log_saga ! k)"
    "w' = executes (take (Suc k) (steps log_saga)) @ compensations (take k (steps log_saga))"
    using saga_order [OF log_saga_simps(2), of "[]"] unfolding r by (auto simp: log_saga_simps(1))
  then have "w' = [(''a'', ''execute''), (''b'', ''execute''), (''a'', ''compensate'')]"
    by (cases k) (simp_all add: log_saga_simps(1) log_step_def executes_def compensations_def)
  with r show ?thesis by simp
qed

end
