(* ===== verification/Graceful.thy ===== *)
theory Graceful
  imports GoStd
begin

text \<open>
  The graceful shutdown of \<open>pkg/graceful/shutdown.go\<close>. The hooks take a context and act on the
  world; \<open>context.WithTimeout\<close> is a function on contexts.
\<close>

type_synonym ('c, 'w) ShutdownFunc = "'c \<Rightarrow> ('w, err option) action"

record ('c, 'w) registration =
  rname :: string
  rfn :: "('c, 'w) ShutdownFunc"

record ('c, 'w) group =
  gtimeout :: duration
  hooks :: "('c, 'w) registration list"

definition graceful_WithTimeout :: "duration \<Rightarrow> ('c, 'w) group \<Rightarrow> ('c, 'w) group" where
  "graceful_WithTimeout d g = g\<lparr>gtimeout := d\<rparr>"

definition graceful_New :: "(('c, 'w) group \<Rightarrow> ('c, 'w) group) list \<Rightarrow> ('c, 'w) group" where
  "graceful_New opts = fold (\<lambda>f g. f g) opts \<lparr>gtimeout = 30 * Second, hooks = []\<rparr>"

definition Register :: "string \<Rightarrow> ('c, 'w) ShutdownFunc \<Rightarrow> ('c, 'w) group \<Rightarrow> ('c, 'w) group" where
  "Register name fn g = g\<lparr>hooks := hooks g @ [\<lparr>rname = name, rfn = fn\<rparr>]\<rparr>"

text \<open>\<open>errors.Join\<close>: nil when there is no error to join.\<close>

definition errors_Join :: "err list \<Rightarrow> err option" where
  "errors_Join es = (if es = [] then None else Some (Join es))"

definition hook_error :: "string \<Rightarrow> err \<Rightarrow> err" where
  "hook_error name e = Errorf [Lit ''graceful: '', Lit name, Lit '': '', Wrapped e]"

fun shutdown_loop :: "'c \<Rightarrow> ('c, 'w) registration list \<Rightarrow> err list \<Rightarrow> ('w, err list) action" where
  "shutdown_loop ctx [] errs w = (errs, w)"
| "shutdown_loop ctx (r # rs) errs w =
     (case rfn r ctx w of
        (Some e, w1) \<Rightarrow> shutdown_loop ctx rs (errs @ [hook_error (rname r) e]) w1
      | (None, w1) \<Rightarrow> shutdown_loop ctx rs errs w1)"

definition Shutdown :: "('c \<Rightarrow> duration \<Rightarrow> 'c) \<Rightarrow> 'c \<Rightarrow> ('c, 'w) group \<Rightarrow> ('w, err option) action" where
  "Shutdown with_timeout ctx g w =
     (let (errs, w1) = shutdown_loop (with_timeout ctx (gtimeout g)) (rev (hooks g)) [] w
      in (errors_Join errs, w1))"

text \<open>\<open>ListenAndShutdown\<close> waits until its context is done or a signal arrives (\<open>await\<close>).\<close>

definition ListenAndShutdown :: "('c \<Rightarrow> duration \<Rightarrow> 'c) \<Rightarrow> 'c \<Rightarrow> ('c \<Rightarrow> 'w \<Rightarrow> 'w) \<Rightarrow> 'c
    \<Rightarrow> ('c, 'w) group \<Rightarrow> ('w, err option) action" where
  "ListenAndShutdown with_timeout background await ctx g w =
     Shutdown with_timeout background g (await ctx w)"

section \<open>Every hook runs, the last registered first\<close>

definition register_all :: "(string \<times> ('c, 'w) ShutdownFunc) list \<Rightarrow> ('c, 'w) group \<Rightarrow> ('c, 'w) group" where
  "register_all rs g = fold (\<lambda>(n, f). Register n f) rs g"

text \<open>One hook: its name with what it returned.\<close>

definition call_hook :: "'c \<Rightarrow> string \<times> ('c, 'w) ShutdownFunc \<Rightarrow> ('w, string \<times> err option) action" where
  "call_hook ctx r w = (let (e, w1) = snd r ctx w in ((fst r, e), w1))"

definition hook_failures :: "(string \<times> err option) list \<Rightarrow> err list" where
  "hook_failures rs = [hook_error n e. (n, Some e) \<leftarrow> rs]"

lemma hooks_register_all:
  "hooks (register_all rs g) = hooks g @ map (\<lambda>(n, f). \<lparr>rname = n, rfn = f\<rparr>) rs"
  "gtimeout (register_all rs g) = gtimeout g"
  by (induction rs arbitrary: g) (auto simp: register_all_def Register_def)

lemma shutdown_loop_run:
  "shutdown_loop ctx (map (\<lambda>(n, f). \<lparr>rname = n, rfn = f\<rparr>) rs) errs w =
     (errs @ hook_failures (fst (run (call_hook ctx) rs w)), snd (run (call_hook ctx) rs w))"
  by (induction rs arbitrary: errs w)
    (auto simp: hook_failures_def call_hook_def split: prod.split option.split)

lemma errors_Is_hook: "errors_Is (hook_error n e) e"
  by (rule errors_Is_wrap [of e]) (simp_all add: hook_error_def)

text \<open>
  \<open>Shutdown\<close> calls every registered hook exactly once, the last registered first, each with
  the context limited by the group's timeout, whether or not other hooks fail. It returns nil
  exactly when all hooks do; otherwise the error joins the failures in the order they occurred,
  each with the name of its hook, and \<open>errors.Is\<close> finds every one of them.
\<close>

theorem graceful_Shutdown:
  fixes regs :: "(string \<times> ('c, 'w) ShutdownFunc) list" and d :: duration
  defines "g \<equiv> register_all regs (graceful_New [graceful_WithTimeout d])"
  shows "let (rs, w') = run (call_hook (with_timeout ctx d)) (rev regs) w;
             (res, w'') = Shutdown with_timeout ctx g w
    in w'' = w' \<and> res = errors_Join (hook_failures rs) \<and> map fst rs = map fst (rev regs) \<and>
       (res = None \<longleftrightarrow> (\<forall>(n, r) \<in> set rs. r = None)) \<and>
       (\<forall>n e. (n, Some e) \<in> set rs \<longrightarrow> (\<exists>j. res = Some j \<and> errors_Is j e))"
proof -
  obtain rs w' where r: "run (call_hook (with_timeout ctx d)) (rev regs) w = (rs, w')" by fastforce
  have g: "gtimeout g = d" "rev (hooks g) = map (\<lambda>(n, f). \<lparr>rname = n, rfn = f\<rparr>) (rev regs)"
    by (simp_all add: g_def hooks_register_all graceful_New_def graceful_WithTimeout_def rev_map)
  have names: "map fst (fst (run (call_hook c) xs w)) = map fst xs" for c :: 'c and xs and w :: 'w
    by (induction xs arbitrary: w) (auto simp: call_hook_def split: prod.split)
  have None_iff: "hook_failures rs = [] \<longleftrightarrow> (\<forall>(n, r) \<in> set rs. r = None)"
    by (induction rs) (auto simp: hook_failures_def split: option.splits)
  have mem: "hook_error n e \<in> set (err_Unwrap (Join (hook_failures rs)))" if "(n, Some e) \<in> set rs" for n e
    using that by (force simp: hook_failures_def)
  have found: "errors_Is (Join (hook_failures rs)) e" if "(n, Some e) \<in> set rs" for n e
    by (rule errors_Is_wrap [OF mem [OF that] errors_Is_hook])
  have "Shutdown with_timeout ctx g w = (errors_Join (hook_failures rs), w')"
    unfolding Shutdown_def g shutdown_loop_run r by simp
  then show ?thesis
    using names [of "with_timeout ctx d" "rev regs" w] None_iff found
    by (auto simp: r errors_Join_def)
qed

theorem graceful_Shutdown_witness:
  "Shutdown (\<lambda>c d. d) 0 (register_all [(''a'', \<lambda>c w. (Some Canceled, w @ [''a''])), (''b'', \<lambda>c w. (None, w @ [''b'']))]
      (graceful_New [graceful_WithTimeout 5])) [] =
   (Some (Join [hook_error ''a'' Canceled]), [''b'', ''a''])"
  using graceful_Shutdown [of "\<lambda>c d. d" 0 5 "[(''a'', \<lambda>c w. (Some Canceled, w @ [''a''])), (''b'', \<lambda>c w. (None, w @ [''b'']))]" "[]"]
  by (auto simp: call_hook_def hook_failures_def errors_Join_def split: prod.splits)

end
