(* ===== verification/Health.thy ===== *)
theory Health
  imports GoStd
begin

text \<open>
  The health checks of \<open>pkg/health/health.go\<close>. \<open>Check\<close> starts one goroutine per checker; each
  runs its checker on the world and writes its own slot of the result slice. The order in which
  the goroutines do so is a list of indices, any permutation of them.
\<close>

type_synonym ('c, 'w) Checker = "'c \<Rightarrow> ('w, err option) action"

record Status =
  stName :: string
  stHealthy :: bool
  stError :: string

record Report =
  rHealthy :: bool
  rChecks :: "Status list"
  rDuration :: string

record ('c, 'w) health_group =
  checks :: "(string \<times> ('c, 'w) Checker) list"
  htimeout :: duration

definition health_WithTimeout :: "duration \<Rightarrow> ('c, 'w) health_group \<Rightarrow> ('c, 'w) health_group" where
  "health_WithTimeout d g = g\<lparr>htimeout := d\<rparr>"

definition health_New :: "(('c, 'w) health_group \<Rightarrow> ('c, 'w) health_group) list \<Rightarrow> ('c, 'w) health_group" where
  "health_New opts = fold (\<lambda>f g. f g) opts \<lparr>checks = [], htimeout = 5 * Second\<rparr>"

definition health_Register :: "string \<Rightarrow> ('c, 'w) Checker \<Rightarrow> ('c, 'w) health_group \<Rightarrow> ('c, 'w) health_group" where
  "health_Register name c g = g\<lparr>checks := checks g @ [(name, c)]\<rparr>"

definition status_of :: "string \<Rightarrow> err option \<Rightarrow> Status" where
  "status_of name e =
     (case e of
        None \<Rightarrow> \<lparr>stName = name, stHealthy = True, stError = []\<rparr>
      | Some er \<Rightarrow> \<lparr>stName = name, stHealthy = False, stError = err_Error er\<rparr>)"

text \<open>
  The goroutine of index \<open>idx\<close>: it stores its index with the status. A slot of the slice is
  the zero value until then.
\<close>

definition zero_result :: "nat \<times> Status" where
  "zero_result = (0, \<lparr>stName = [], stHealthy = False, stError = []\<rparr>)"

definition check_one :: "('c \<Rightarrow> duration \<Rightarrow> 'c) \<Rightarrow> 'c \<Rightarrow> ('c, 'w) health_group \<Rightarrow> nat
    \<Rightarrow> (nat \<times> Status) list \<times> 'w \<Rightarrow> (nat \<times> Status) list \<times> 'w" where
  "check_one with_timeout ctx g idx rw =
     (let (results, w) = rw;
          (name, c) = checks g ! idx;
          (e, w1) = c (with_timeout ctx (htimeout g)) w
      in (results[idx := (idx, status_of name e)], w1))"

fun assemble :: "(nat \<times> Status) list \<Rightarrow> bool \<times> Status list \<Rightarrow> bool \<times> Status list" where
  "assemble [] rep = rep"
| "assemble ((idx, st) # rest) (healthy, cs) =
     assemble rest (if stHealthy st then healthy else False, cs[idx := st])"

definition Check :: "('c \<Rightarrow> duration \<Rightarrow> 'c) \<Rightarrow> nat list \<Rightarrow> gotime \<Rightarrow> gotime \<Rightarrow> 'c
    \<Rightarrow> ('c, 'w) health_group \<Rightarrow> ('w, Report) action" where
  "Check with_timeout order start finish ctx g w =
     (let n = length (checks g);
          (results, w1) = fold (check_one with_timeout ctx g) order (replicate n zero_result, w);
          (healthy, cs) = assemble results (True, replicate n (snd zero_result))
      in (\<lparr>rHealthy = healthy, rChecks = cs, rDuration = duration_String (time_Sub finish start)\<rparr>, w1))"

text \<open>The HTTP handlers: status, content type and body of the response.\<close>

record response =
  code :: int
  contentType :: string
  body :: string

definition health_handler :: "(Report \<Rightarrow> string) \<Rightarrow> ('c \<Rightarrow> duration \<Rightarrow> 'c) \<Rightarrow> nat list \<Rightarrow> gotime \<Rightarrow> gotime \<Rightarrow> 'c
    \<Rightarrow> ('c, 'w) health_group \<Rightarrow> ('w, response) action" where
  "health_handler encode with_timeout order start finish ctx g w =
     (let (report, w1) = Check with_timeout order start finish ctx g w
      in (\<lparr>code = (if \<not> rHealthy report then 503 else 200), contentType = ''application/json'',
           body = encode report\<rparr>, w1))"

definition ReadyHandler :: "(Report \<Rightarrow> string) \<Rightarrow> ('c \<Rightarrow> duration \<Rightarrow> 'c) \<Rightarrow> nat list \<Rightarrow> gotime \<Rightarrow> gotime \<Rightarrow> 'c
    \<Rightarrow> ('c, 'w) health_group \<Rightarrow> ('w, response) action" where
  "ReadyHandler encode with_timeout order start finish ctx g =
     health_handler encode with_timeout order start finish ctx g"

definition LiveHandler :: "(Report \<Rightarrow> string) \<Rightarrow> ('c \<Rightarrow> duration \<Rightarrow> 'c) \<Rightarrow> nat list \<Rightarrow> gotime \<Rightarrow> gotime \<Rightarrow> 'c
    \<Rightarrow> ('c, 'w) health_group \<Rightarrow> ('w, response) action" where
  "LiveHandler encode with_timeout order start finish ctx g =
     health_handler encode with_timeout order start finish ctx (health_New [])"

section \<open>The report\<close>

text \<open>Index \<open>i\<close> of the results holds the status of checker \<open>i\<close>, for some answer of it.\<close>

definition slot_ok :: "('c \<Rightarrow> duration \<Rightarrow> 'c) \<Rightarrow> 'c \<Rightarrow> ('c, 'w) health_group \<Rightarrow> nat \<Rightarrow> nat \<times> Status \<Rightarrow> bool" where
  "slot_ok wt ctx g i r \<longleftrightarrow>
     (\<exists>w. r = (i, status_of (fst (checks g ! i)) (fst (snd (checks g ! i) (wt ctx (htimeout g)) w))))"

lemma fold_check_one:
  "set order \<subseteq> {..< length rs} \<Longrightarrow>
   length (fst (fold (check_one wt ctx g) order (rs, w))) = length rs \<and>
   (\<forall>i < length rs. i \<in> set order \<or> slot_ok wt ctx g i (rs ! i) \<longrightarrow>
     slot_ok wt ctx g i (fst (fold (check_one wt ctx g) order (rs, w)) ! i))"
proof (induction order arbitrary: rs w)
  case (Cons x order)
  obtain name c where c: "checks g ! x = (name, c)" by fastforce
  obtain e w1 where e: "c (wt ctx (htimeout g)) w = (e, w1)" by fastforce
  let ?rs = "rs[x := (x, status_of name e)]"
  have step: "check_one wt ctx g x (rs, w) = (?rs, w1)" by (simp add: check_one_def c e)
  have "slot_ok wt ctx g x (?rs ! x)"
    unfolding slot_ok_def using Cons.prems c e by (intro exI [of _ w]) auto
  moreover have "slot_ok wt ctx g i (?rs ! i)" if "slot_ok wt ctx g i (rs ! i)" "i < length rs" for i
    using that calculation by (cases "i = x") auto
  ultimately show ?case
    using Cons.IH [of ?rs w1] Cons.prems by (auto simp: step)
qed simp

lemma assemble_eq:
  assumes "map fst rs = [k ..< k + length rs]" "k + length rs = length cs"
  shows "assemble rs (h, cs) = (h \<and> (\<forall>r \<in> set rs. stHealthy (snd r)), take k cs @ map snd rs)"
  using assms
proof (induction rs arbitrary: k h cs)
  case (Cons r rs)
  have "[k ..< k + length (r # rs)] = k # [Suc k ..< Suc k + length rs]" by (simp add: upt_conv_Cons del: upt_Suc)
  then obtain st where r: "r = (k, st)" and "map fst rs = [Suc k ..< Suc k + length rs]"
    using Cons.prems(1) by (cases r) simp
  then have "assemble rs ((if stHealthy st then h else False), cs[k := st]) =
      ((if stHealthy st then h else False) \<and> (\<forall>r \<in> set rs. stHealthy (snd r)),
       take (Suc k) (cs[k := st]) @ map snd rs)"
    using Cons.IH [of "Suc k" "cs[k := st]"] Cons.prems(2) by simp
  moreover have "take (Suc k) (cs[k := st]) = take k cs @ [st]"
    using Cons.prems(2) by (simp add: take_Suc_conv_app_nth)
  ultimately show ?case by (auto simp: r)
qed simp

lemma Check_correct:
  assumes "mset order = mset [0 ..< length (checks g)]"
    and rep: "fst (Check wt order start finish ctx g w) = rep"
  shows "length (rChecks rep) = length (checks g) \<and>
    (rHealthy rep \<longleftrightarrow> (\<forall>st \<in> set (rChecks rep). stHealthy st)) \<and>
    (\<forall>i < length (checks g). \<exists>w'. rChecks rep ! i =
       status_of (fst (checks g ! i)) (fst (snd (checks g ! i) (wt ctx (htimeout g)) w')))"
proof -
  let ?n = "length (checks g)"
  let ?rs = "fst (fold (check_one wt ctx g) order (replicate ?n zero_result, w))"
  have o: "set order = {..< ?n}" using assms(1) by (metis atLeast_upt set_mset_mset)
  then have rs: "length ?rs = ?n" "\<And>i. i < ?n \<Longrightarrow> slot_ok wt ctx g i (?rs ! i)"
    using fold_check_one [of order "replicate ?n zero_result" wt ctx g w] by auto
  then have "fst (?rs ! i) = i" if "i < ?n" for i
    using rs(2) [OF that] by (auto simp: slot_ok_def)
  then have "map fst ?rs = [0 ..< 0 + length ?rs]" by (intro nth_equalityI) (auto simp: rs(1))
  from assemble_eq [OF this, of "replicate ?n (snd zero_result)" True] rs(1)
  have "rChecks rep = map snd ?rs" "rHealthy rep \<longleftrightarrow> (\<forall>r \<in> set ?rs. stHealthy (snd r))"
    by (auto simp: Check_def Let_def case_prod_beta simp flip: rep)
  then show ?thesis using rs by (fastforce simp: slot_ok_def)
qed

text \<open>
  In whatever order the goroutines run, the report lists one status per registered checker
  in registration order, each the answer of its checker under the per-check timeout (with the
  error's text when it failed), the report is healthy exactly when every status is, and the
  readiness handler answers 200 then and 503 otherwise.
\<close>

theorem health_Check_report:
  assumes "mset order = mset [0 ..< length (checks g)]"
    "Check wt order start finish ctx g w = (rep, w')"
  shows "length (rChecks rep) = length (checks g) \<and>
    (\<forall>i < length (checks g). \<exists>w''. rChecks rep ! i =
       status_of (fst (checks g ! i)) (fst (snd (checks g ! i) (wt ctx (htimeout g)) w''))) \<and>
    (rHealthy rep \<longleftrightarrow> (\<forall>st \<in> set (rChecks rep). stHealthy st)) \<and>
    code (fst (ReadyHandler encode wt order start finish ctx g w)) =
      (if \<forall>st \<in> set (rChecks rep). stHealthy st then 200 else 503)"
  using Check_correct [OF assms(1), of wt start finish ctx w rep] assms(2)
  by (simp add: ReadyHandler_def health_handler_def)

definition demo_health :: "(int, unit) health_group" where
  "demo_health = health_Register ''db'' (\<lambda>c w. (if c < 10 then Some DeadlineExceeded else None, w))
     (health_Register ''up'' (\<lambda>c w. (None, w)) (health_New []))"

theorem health_Check_report_witness:
  "code (fst (ReadyHandler (\<lambda>_. []) (\<lambda>c d. c) [1, 0] 0 5 3 demo_health ())) = 503"
proof -
  let ?rep = "\<lparr>rHealthy = False, rChecks = [status_of ''up'' None, status_of ''db'' (Some DeadlineExceeded)],
    rDuration = duration_String 5\<rparr>"
  have "Check (\<lambda>c d. c) [1, 0] 0 5 3 demo_health () = (?rep, ())"
    by (simp add: Check_def demo_health_def health_Register_def health_New_def check_one_def
        status_of_def zero_result_def time_Sub_def sat64_def numeral_2_eq_2)
  moreover have "mset [1, 0] = mset [0 ..< length (checks demo_health)]"
    by (simp add: demo_health_def health_Register_def health_New_def upt_rec)
  ultimately show ?thesis
    using health_Check_report [of "[1, 0]" demo_health "\<lambda>c d. c" 0 5 3 "()" ?rep "()" "\<lambda>_. []"]
    by (simp add: status_of_def)
qed

text \<open>
  Checkers whose answers do not depend on each other give the same statuses and the same
  verdict in every order of the goroutines, and the liveness handler answers 200 whatever is
  registered.
\<close>

theorem health_Check_order:
  assumes "mset order = mset [0 ..< length (checks g)]" "mset order' = mset [0 ..< length (checks g)]"
    "\<forall>(n, c) \<in> set (checks g). \<forall>x w w'. fst (c x w) = fst (c x w')"
  shows "rChecks (fst (Check wt order start finish ctx g w)) = rChecks (fst (Check wt order' start finish ctx g w)) \<and>
    rHealthy (fst (Check wt order start finish ctx g w)) = rHealthy (fst (Check wt order' start finish ctx g w)) \<and>
    code (fst (LiveHandler encode wt [] start finish ctx g w)) = 200"
proof -
  let ?rep = "fst (Check wt order start finish ctx g w)" and ?rep' = "fst (Check wt order' start finish ctx g w)"
  have "rChecks ?rep ! i = rChecks ?rep' ! i" if i: "i < length (checks g)" for i
  proof -
    have "checks g ! i \<in> set (checks g)" using i by simp
    then have "fst (snd (checks g ! i) x v) = fst (snd (checks g ! i) x v')" for x v v'
      using assms(3) by fastforce
    moreover obtain v v' where "rChecks ?rep ! i =
        status_of (fst (checks g ! i)) (fst (snd (checks g ! i) (wt ctx (htimeout g)) v))"
      "rChecks ?rep' ! i =
        status_of (fst (checks g ! i)) (fst (snd (checks g ! i) (wt ctx (htimeout g)) v'))"
      using Check_correct [OF assms(1) refl] Check_correct [OF assms(2) refl] i by metis
    ultimately show ?thesis by metis
  qed
  then have "rChecks ?rep = rChecks ?rep'"
    using Check_correct [OF assms(1) refl] Check_correct [OF assms(2) refl]
    by (intro nth_equalityI) auto
  moreover from this have "rHealthy ?rep = rHealthy ?rep'"
    using Check_correct [OF assms(1) refl] Check_correct [OF assms(2) refl] by metis
  moreover have "code (fst (LiveHandler encode wt [] start finish ctx g w)) = 200"
    by (simp add: LiveHandler_def health_handler_def Check_def health_New_def)
  ultimately show ?thesis by blast
qed

theorem health_Check_order_witness:
  "rChecks (fst (Check (\<lambda>c d. c) [1, 0] 0 5 3 demo_health ())) = rChecks (fst (Check (\<lambda>c d. c) [0, 1] 0 5 3 demo_health ()))"
proof -
  have n: "[0 ..< length (checks demo_health)] = [0, 1]"
    by (simp add: demo_health_def health_Register_def health_New_def upt_rec)
  have "\<forall>(n, c) \<in> set (checks demo_health). \<forall>x w w'. fst (c x w) = fst (c x w')"
    by (simp add: demo_health_def health_Register_def health_New_def)
  from health_Check_order [OF _ _ this, of "[1, 0]" "[0, 1]"] show ?thesis unfolding n by simp
qed

end
