(* ===== verification/Pool.thy ===== *)
theory Pool
  imports GoStd
begin

text \<open>
  The worker pool of \<open>pkg/pool/pool.go\<close> as a system of threads: the workers started by \<open>Start\<close>
  and the clients that call \<open>Submit\<close>, \<open>TrySubmit\<close> and \<open>Stop\<close>. Each step is one atomic action of
  the code: a channel operation, a load, store or add of an atomic, a call of the worker
  function or of the error callback. The job channel is a queue with a capacity; when a worker
  waits on the empty channel a sender may hand its job over directly.
\<close>

section \<open>State\<close>

abbreviation ErrPoolStopped :: err where "ErrPoolStopped \<equiv> ErrNew ''pool: pool is stopped''"
abbreviation ErrQueueFull :: err where "ErrQueueFull \<equiv> ErrNew ''pool: queue is full''"

text \<open>Where a worker is in the loop of \<open>run\<close>.\<close>

datatype 'j worker =
    WIdle
  | WGot 'j
  | WRun 'j
  | WRet 'j "err option"
  | WDec 'j "err option"
  | WCnt 'j "err option"
  | WErr 'j err
  | WExit

text \<open>Where a client is in a call; \<open>CRet\<close> is the return with its error.\<close>

datatype 'j client =
    CIdle
  | CSubmit 'j
  | CTry 'j
  | CSent 'j
  | CStop
  | CClosed
  | CRet "err option"
  | CPanic string

record pool_options =
  queueSize :: int
  hasOnError :: bool

record 'j pool =
  workers :: nat
  popts :: pool_options
  jobs :: "'j list"
  jobsClosed :: bool
  stopped :: bool
  submitted :: "64 word"
  completed :: "64 word"
  perrors :: "64 word"
  inFlight :: "64 word"
  running :: "'j worker list"
  clients :: "'j client list"
  accepted :: "'j list"
  finished :: "('j \<times> err option) list"
  reported :: "('j \<times> err) list"

text \<open>
  \<open>accepted\<close> (the jobs sent so far), \<open>finished\<close> (the calls of the worker function that returned)
  and \<open>reported\<close> (the calls of the error callback) record what happened. The result of \<open>New\<close> is
  \<open>None\<close> where it panics: fewer than one worker, or a negative channel size.
\<close>

definition WithQueueSize :: "int \<Rightarrow> pool_options \<Rightarrow> pool_options" where
  "WithQueueSize n o' = o'\<lparr>queueSize := n\<rparr>"

definition WithOnError :: "pool_options \<Rightarrow> pool_options" where
  "WithOnError o' = o'\<lparr>hasOnError := True\<rparr>"

definition pool_New :: "int \<Rightarrow> (pool_options \<Rightarrow> pool_options) list \<Rightarrow> nat \<Rightarrow> 'j pool option" where
  "pool_New n opts nclients =
     (if n < 1 then None
      else
        let cfg = fold (\<lambda>f c. f c) opts \<lparr>queueSize = n, hasOnError = False\<rparr> in
        if queueSize cfg < 0 then None
        else Some \<lparr>workers = nat n, popts = cfg, jobs = [], jobsClosed = False, stopped = False,
          submitted = 0, completed = 0, perrors = 0, inFlight = 0, running = [],
          clients = replicate nclients CIdle, accepted = [], finished = [], reported = []\<rparr>)"

definition pool_Start :: "'j pool \<Rightarrow> 'j pool" where
  "pool_Start p = p\<lparr>running := running p @ replicate (workers p) WIdle\<rparr>"

abbreviation setw :: "nat \<Rightarrow> 'j worker \<Rightarrow> 'j pool \<Rightarrow> 'j pool" where
  "setw i w p \<equiv> p\<lparr>running := (running p)[i := w]\<rparr>"

abbreviation setc :: "nat \<Rightarrow> 'j client \<Rightarrow> 'j pool \<Rightarrow> 'j pool" where
  "setc i c p \<equiv> p\<lparr>clients := (clients p)[i := c]\<rparr>"

definition room :: "'j pool \<Rightarrow> bool" where
  "room p \<longleftrightarrow> int (length (jobs p)) < queueSize (popts p)"

definition receiver :: "nat \<Rightarrow> 'j pool \<Rightarrow> bool" where
  "receiver k p \<longleftrightarrow> k < length (running p) \<and> running p ! k = WIdle \<and> jobs p = []"

section \<open>Steps\<close>

text \<open>One turn of the loop of \<open>run\<close>, for worker \<open>i\<close>.\<close>

inductive worker_step :: "nat \<Rightarrow> 'j pool \<Rightarrow> 'j pool \<Rightarrow> bool" for i where
  receive: "running p ! i = WIdle \<Longrightarrow> jobs p = j # js \<Longrightarrow>
     worker_step i p (setw i (WGot j) (p\<lparr>jobs := js\<rparr>))"
| range_end: "running p ! i = WIdle \<Longrightarrow> jobs p = [] \<Longrightarrow> jobsClosed p \<Longrightarrow>
     worker_step i p (setw i WExit p)"
| inc: "running p ! i = WGot j \<Longrightarrow>
     worker_step i p (setw i (WRun j) (p\<lparr>inFlight := inFlight p + 1\<rparr>))"
| call: "running p ! i = WRun j \<Longrightarrow>
     worker_step i p (setw i (WRet j e) (p\<lparr>finished := finished p @ [(j, e)]\<rparr>))"
| dec: "running p ! i = WRet j e \<Longrightarrow>
     worker_step i p (setw i (WDec j e) (p\<lparr>inFlight := inFlight p - 1\<rparr>))"
| count: "running p ! i = WDec j e \<Longrightarrow>
     worker_step i p (setw i (WCnt j e) (p\<lparr>completed := completed p + 1\<rparr>))"
| no_error: "running p ! i = WCnt j None \<Longrightarrow> worker_step i p (setw i WIdle p)"
| error: "running p ! i = WCnt j (Some e) \<Longrightarrow>
     worker_step i p (setw i (WErr j e) (p\<lparr>perrors := perrors p + 1\<rparr>))"
| on_error: "running p ! i = WErr j e \<Longrightarrow>
     worker_step i p (setw i WIdle
       (if hasOnError (popts p) then p\<lparr>reported := reported p @ [(j, e)]\<rparr> else p))"

text \<open>The clients: \<open>Submit\<close>, \<open>TrySubmit\<close> and \<open>Stop\<close>.\<close>

inductive client_step :: "nat \<Rightarrow> 'j pool \<Rightarrow> 'j pool \<Rightarrow> bool" for c where
  submit_stopped: "clients p ! c = CIdle \<Longrightarrow> stopped p \<Longrightarrow>
     client_step c p (setc c (CRet (Some ErrPoolStopped)) p)"
| submit: "clients p ! c = CIdle \<Longrightarrow> \<not> stopped p \<Longrightarrow> client_step c p (setc c (CSubmit j) p)"
| submit_cancel: "clients p ! c = CSubmit j \<Longrightarrow> client_step c p (setc c (CRet (Some e)) p)"
| try_submit: "clients p ! c = CIdle \<Longrightarrow> \<not> stopped p \<Longrightarrow> client_step c p (setc c (CTry j) p)"
| try_full: "clients p ! c = CTry j \<Longrightarrow> \<not> jobsClosed p \<Longrightarrow> \<not> room p \<Longrightarrow> \<nexists>k. receiver k p \<Longrightarrow>
     client_step c p (setc c (CRet (Some ErrQueueFull)) p)"
| send: "clients p ! c \<in> {CSubmit j, CTry j} \<Longrightarrow> \<not> jobsClosed p \<Longrightarrow> room p \<Longrightarrow>
     client_step c p (setc c (CSent j) (p\<lparr>jobs := jobs p @ [j], accepted := accepted p @ [j]\<rparr>))"
| hand_over: "clients p ! c \<in> {CSubmit j, CTry j} \<Longrightarrow> \<not> jobsClosed p \<Longrightarrow> receiver k p \<Longrightarrow>
     client_step c p (setc c (CSent j) (setw k (WGot j) (p\<lparr>accepted := accepted p @ [j]\<rparr>)))"
| send_closed: "clients p ! c \<in> {CSubmit j, CTry j} \<Longrightarrow> jobsClosed p \<Longrightarrow>
     client_step c p (setc c (CPanic ''send on closed channel'') p)"
| sent: "clients p ! c = CSent j \<Longrightarrow>
     client_step c p (setc c (CRet None) (p\<lparr>submitted := submitted p + 1\<rparr>))"
| stop: "clients p ! c = CIdle \<Longrightarrow> client_step c p (setc c CStop (p\<lparr>stopped := True\<rparr>))"
| stop_close: "clients p ! c = CStop \<Longrightarrow> \<not> jobsClosed p \<Longrightarrow>
     client_step c p (setc c CClosed (p\<lparr>jobsClosed := True\<rparr>))"
| stop_again: "clients p ! c = CStop \<Longrightarrow> jobsClosed p \<Longrightarrow>
     client_step c p (setc c (CPanic ''close of closed channel'') p)"
| stop_wait: "clients p ! c = CClosed \<Longrightarrow> \<forall>w \<in> set (running p). w = WExit \<Longrightarrow>
     client_step c p (setc c (CRet None) p)"
| return: "clients p ! c = CRet r \<Longrightarrow> client_step c p (setc c CIdle p)"

datatype pool_event = Work nat | Call nat | Start

inductive pool_step :: "'j pool \<Rightarrow> pool_event \<Rightarrow> 'j pool \<Rightarrow> bool" where
  worker: "i < length (running p) \<Longrightarrow> worker_step i p p' \<Longrightarrow> pool_step p (Work i) p'"
| client: "c < length (clients p) \<Longrightarrow> client_step c p p' \<Longrightarrow> pool_step p (Call c) p'"
| start: "pool_step p Start (pool_Start p)"

text \<open>\<open>Stats\<close> reads the counters.\<close>

record pool_stats =
  Submitted :: "64 word"
  Completed :: "64 word"
  Errors :: "64 word"
  InFlight :: "64 word"
  QueueDepth :: nat

definition pool_Stats :: "'j pool \<Rightarrow> pool_stats" where
  "pool_Stats p = \<lparr>Submitted = submitted p, Completed = completed p, Errors = perrors p,
     InFlight = inFlight p, QueueDepth = length (jobs p)\<rparr>"

section \<open>The invariant\<close>

text \<open>What a worker or a client contributes to the sums of the invariant.\<close>

fun held :: "'j worker \<Rightarrow> 'j multiset" where
  "held (WGot j) = {#j#}"
| "held (WRun j) = {#j#}"
| "held _ = {#}"

fun calling :: "'j worker \<Rightarrow> 64 word" where
  "calling (WRun j) = 1"
| "calling (WRet j e) = 1"
| "calling _ = 0"

fun uncounted :: "'j worker \<Rightarrow> 64 word" where
  "uncounted (WRet j e) = 1"
| "uncounted (WDec j e) = 1"
| "uncounted _ = 0"

fun error_uncounted :: "'j worker \<Rightarrow> 64 word" where
  "error_uncounted (WRet j e) = (if e = None then 0 else 1)"
| "error_uncounted (WDec j e) = (if e = None then 0 else 1)"
| "error_uncounted (WCnt j e) = (if e = None then 0 else 1)"
| "error_uncounted _ = 0"

fun unsent :: "'j client \<Rightarrow> 64 word" where
  "unsent (CSent j) = 1"
| "unsent _ = 0"

definition failures_of :: "('j \<times> err option) list \<Rightarrow> nat" where
  "failures_of xs = length (filter (\<lambda>(j, e). e \<noteq> None) xs)"

definition jobs_inv :: "'j pool \<Rightarrow> bool" where
  "jobs_inv p \<longleftrightarrow> mset (accepted p) =
     mset (jobs p) + sum_list (map held (running p)) + mset (map fst (finished p))"

definition count_inv :: "'j pool \<Rightarrow> bool" where
  "count_inv p \<longleftrightarrow> inFlight p = sum_list (map calling (running p)) \<and>
     completed p + sum_list (map uncounted (running p)) = of_nat (length (finished p)) \<and>
     perrors p + sum_list (map error_uncounted (running p)) = of_nat (failures_of (finished p)) \<and>
     submitted p + sum_list (map unsent (clients p)) = of_nat (length (accepted p))"

definition close_inv :: "'j pool \<Rightarrow> bool" where
  "close_inv p \<longleftrightarrow> int (length (jobs p)) \<le> queueSize (popts p) \<and>
     (WExit \<in> set (running p) \<longrightarrow> jobsClosed p \<and> jobs p = []) \<and>
     (CStop \<in> set (clients p) \<longrightarrow> stopped p) \<and>
     (CClosed \<in> set (clients p) \<longrightarrow> jobsClosed p) \<and>
     (jobsClosed p \<longrightarrow> stopped p)"

definition pool_inv :: "'j pool \<Rightarrow> bool" where
  "pool_inv p \<longleftrightarrow> jobs_inv p \<and> count_inv p \<and> close_inv p"

lemma sum_upd_word:
  fixes f :: "'b \<Rightarrow> 64 word"
  shows "i < length xs \<Longrightarrow> sum_list (map f (xs[i := x])) = sum_list (map f xs) - f (xs ! i) + f x"
  using sum_list_update_eq [of i xs f x] by (simp add: eq_diff_eq algebra_simps)

lemma held_upd:
  assumes "i < length xs"
  shows "sum_list (map held (xs[i := x])) = sum_list (map held xs) + held x - held (xs ! i)"
  using sum_list_update_eq [OF assms, of held x] by (metis add_diff_cancel_right')

lemma held_in: "i < length xs \<Longrightarrow> j \<in># held (xs ! i) \<Longrightarrow> j \<in># sum_list (map held xs)"
  by (induction xs arbitrary: i) (auto simp: nth_Cons split: nat.splits)

lemma failures_of_snoc [simp]:
  "failures_of (xs @ [(j, e)]) = failures_of xs + (if e = None then 0 else 1)"
  by (simp add: failures_of_def)

lemma jobs_inv_worker:
  assumes "jobs_inv p" "i < length (running p)" "worker_step i p p'"
  shows "jobs_inv p'"
  using assms(3,1,2)
proof (cases rule: worker_step.cases)
  case (call j e)
  then have "j \<in># sum_list (map held (running p))" using assms(2) by (intro held_in [of i]) auto
  then show ?thesis using call assms by (simp add: jobs_inv_def held_upd insert_DiffM2)
qed (simp_all add: jobs_inv_def held_upd)

lemma count_inv_worker:
  assumes "count_inv p" "i < length (running p)" "worker_step i p p'"
  shows "count_inv p'"
  using assms(3,1,2)
  by (cases rule: worker_step.cases) (simp_all add: count_inv_def sum_upd_word)

lemma close_inv_worker:
  assumes "close_inv p" "i < length (running p)" "worker_step i p p'"
  shows "close_inv p'"
  using assms(3,1,2)
  by (cases rule: worker_step.cases) (auto simp: close_inv_def dest!: set_upd_mem)

lemma jobs_inv_client:
  assumes "jobs_inv p" "client_step c p p'"
  shows "jobs_inv p'"
  using assms(2,1)
  by (cases rule: client_step.cases) (simp_all add: jobs_inv_def receiver_def held_upd)

lemma count_inv_client:
  assumes "count_inv p" "c < length (clients p)" "client_step c p p'"
  shows "count_inv p'"
  using assms(3,1,2)
proof (cases rule: client_step.cases)
  case (send j)
  then show ?thesis using assms by (auto simp: count_inv_def sum_upd_word)
next
  case (hand_over j k)
  then show ?thesis using assms by (auto simp: count_inv_def receiver_def sum_upd_word)
next
  case (send_closed j)
  then show ?thesis using assms by (auto simp: count_inv_def sum_upd_word)
qed (simp_all add: count_inv_def sum_upd_word)

lemma close_inv_client:
  assumes "close_inv p" "c < length (clients p)" "client_step c p p'"
  shows "close_inv p'"
  using assms(3,1,2)
proof (cases rule: client_step.cases)
  case stop_close
  then have "stopped p" using assms by (metis close_inv_def nth_mem)
  with stop_close show ?thesis using assms by (auto simp: close_inv_def dest!: set_upd_mem)
qed (auto simp: close_inv_def room_def receiver_def dest!: set_upd_mem)

lemma sum_list_replicate_0 [simp]: "sum_list (replicate n (0 :: 'a :: comm_monoid_add)) = 0"
  by (induction n) simp_all

lemma sum_list_replicate_empty [simp]: "sum_list (replicate n {#}) = {#}"
  by (induction n) simp_all

lemma pool_inv_start: "pool_inv p \<Longrightarrow> pool_inv (pool_Start p)"
  unfolding pool_inv_def jobs_inv_def count_inv_def close_inv_def pool_Start_def
  by (intro conjI) simp_all

lemma pool_inv_New: "pool_New n opts k = Some p \<Longrightarrow> pool_inv p"
  by (auto simp: pool_New_def Let_def pool_inv_def jobs_inv_def count_inv_def close_inv_def failures_of_def
      split: if_splits)

definition pool_init :: "'j pool \<Rightarrow> bool" where
  "pool_init p \<longleftrightarrow> (\<exists>n opts k. pool_New n opts k = Some p)"

abbreviation pool_reach :: "'j pool \<Rightarrow> bool" where
  "pool_reach \<equiv> reach pool_init pool_step"

interpretation pools: step_invariant pool_init pool_step pool_inv
proof
  fix p :: "'j pool"
  show "pool_init p \<Longrightarrow> pool_inv p" by (auto simp: pool_init_def pool_inv_New)
next
  fix p p' :: "'j pool" and ev
  assume "pool_step p ev p'" "pool_inv p"
  then show "pool_inv p'"
  proof (cases rule: pool_step.cases)
    case (worker i)
    with \<open>pool_inv p\<close> show ?thesis
      unfolding pool_inv_def using jobs_inv_worker count_inv_worker close_inv_worker by metis
  next
    case (client c)
    with \<open>pool_inv p\<close> show ?thesis
      unfolding pool_inv_def using jobs_inv_client count_inv_client close_inv_client by metis
  next
    case start
    with \<open>pool_inv p\<close> show ?thesis by (simp add: pool_inv_start)
  qed
qed

lemmas pool_reach_step = reach_step [where trans = pool_step]

lemma pool_call: "pool_reach p \<Longrightarrow> c < length (clients p) \<Longrightarrow> client_step c p p' \<Longrightarrow> pool_reach p'"
  by (blast intro: pool_reach_step pool_step.client)

lemmas pool_reach_inv = pools.reach_inv

section \<open>Properties\<close>

text \<open>
  C16. No job is lost or run twice, and the counters of \<open>Stats\<close> are right: in every reachable state
  the accepted jobs are exactly those queued, those taken by a worker and not yet returned, and
  those whose call has returned; the queue is within its size; \<open>InFlight\<close> is the number of
  workers in a call, and \<open>Completed\<close>, \<open>Errors\<close> and \<open>Submitted\<close> lag behind the calls that returned,
  the failed ones and the accepted jobs only by the threads that are about to count them.
\<close>

theorem pool_reachable_invariant:
  assumes "pool_reach p"
  shows "mset (accepted p) = mset (jobs p) + sum_list (map held (running p)) + mset (map fst (finished p)) \<and>
    int (QueueDepth (pool_Stats p)) \<le> queueSize (popts p) \<and>
    InFlight (pool_Stats p) = sum_list (map calling (running p)) \<and>
    Completed (pool_Stats p) + sum_list (map uncounted (running p)) = of_nat (length (finished p)) \<and>
    Errors (pool_Stats p) + sum_list (map error_uncounted (running p)) = of_nat (failures_of (finished p)) \<and>
    Submitted (pool_Stats p) + sum_list (map unsent (clients p)) = of_nat (length (accepted p))"
  using pool_reach_inv [OF assms]
  by (simp add: pool_inv_def jobs_inv_def count_inv_def close_inv_def pool_Stats_def)

definition demo_pool :: "nat pool" where
  "demo_pool = the (pool_New 1 [] 2)"

lemma demo_pool_simps [simp]:
  "running demo_pool = []" "clients demo_pool = [CIdle, CIdle]" "jobs demo_pool = []"
  "stopped demo_pool = False" "jobsClosed demo_pool = False" "workers demo_pool = 1"
  "popts demo_pool = \<lparr>queueSize = 1, hasOnError = False\<rparr>" "accepted demo_pool = []" "finished demo_pool = []"
  by (simp_all add: demo_pool_def pool_New_def Let_def numeral_2_eq_2)

lemma demo_pool_reach: "pool_reach demo_pool"
proof (rule reach_start)
  show "pool_init demo_pool"
    unfolding pool_init_def
    by (rule exI [of _ 1], rule exI [of _ "[]"], rule exI [of _ 2]) (simp add: demo_pool_def pool_New_def Let_def)
qed

lemma demo_submit_reach: "pool_reach (setc 0 (CSubmit 7) demo_pool)"
  by (rule pool_call [OF demo_pool_reach, of 0], simp)
    (rule client_step.submit, simp_all)

theorem pool_reachable_invariant_witness:
  "mset (accepted (setc 0 (CSent 7) ((setc 0 (CSubmit 7) demo_pool)\<lparr>jobs := [7], accepted := [7]\<rparr>))) =
   mset (jobs (setc 0 (CSent 7) ((setc 0 (CSubmit 7) demo_pool)\<lparr>jobs := [7], accepted := [7]\<rparr>)))"
proof -
  let ?p = "setc 0 (CSubmit 7) demo_pool"
  have "client_step 0 ?p (setc 0 (CSent 7) (?p\<lparr>jobs := jobs ?p @ [7], accepted := accepted ?p @ [7]\<rparr>))"
    by (rule client_step.send) (simp_all add: room_def)
  then have "pool_reach (setc 0 (CSent 7) (?p\<lparr>jobs := [7], accepted := [7]\<rparr>))"
    by (intro pool_call [OF demo_submit_reach, of 0]) simp_all
  from pool_reachable_invariant [OF this] show ?thesis by simp
qed

text \<open>
  C9. \<open>Stop\<close> drains the queue: when the wait of a \<open>Stop\<close> can return (all the started workers, at
  least one, have exited) the queue is empty, every job that was ever accepted has been run, and
  \<open>Stats\<close> shows no job in flight and every accepted job completed.
\<close>

theorem pool_Stop_drains:
  assumes "pool_reach p" "CClosed \<in> set (clients p)" "running p \<noteq> []" "\<forall>w \<in> set (running p). w = WExit"
  shows "jobs p = [] \<and> mset (map fst (finished p)) = mset (accepted p) \<and>
    InFlight (pool_Stats p) = 0 \<and> Completed (pool_Stats p) = of_nat (length (accepted p))"
proof -
  have inv: "jobs_inv p" "count_inv p" "close_inv p"
    using pool_reach_inv [OF assms(1)] by (simp_all add: pool_inv_def)
  obtain n where n: "running p = replicate n WExit" using assms(4) by (metis replicate_eqI)
  have "jobs p = []" using assms(3,4) inv(3) by (cases "running p") (auto simp: close_inv_def)
  moreover from this have m: "mset (map fst (finished p)) = mset (accepted p)"
    using inv(1) by (simp add: jobs_inv_def n)
  moreover from m have "length (finished p) = length (accepted p)"
    by (metis length_map size_mset)
  ultimately show ?thesis using inv(2) by (simp add: count_inv_def n pool_Stats_def)
qed

definition done_pool :: "nat pool" where
  "done_pool = demo_pool\<lparr>stopped := True, jobsClosed := True, clients := [CIdle, CClosed], running := [WExit]\<rparr>"

lemma done_pool_reach: "pool_reach done_pool"
proof -
  let ?p1 = "pool_Start demo_pool"
  let ?p2 = "setc 1 CStop (?p1\<lparr>stopped := True\<rparr>)"
  let ?p3 = "setc 1 CClosed (?p2\<lparr>jobsClosed := True\<rparr>)"
  have "pool_reach ?p1" by (rule pool_reach_step [OF demo_pool_reach pool_step.start])
  then have "pool_reach ?p2"
    by (rule pool_call [where c = 1]) (simp add: pool_Start_def, rule client_step.stop, simp add: pool_Start_def)
  then have "pool_reach ?p3"
    by (rule pool_call [where c = 1]) (simp add: pool_Start_def, rule client_step.stop_close, simp_all add: pool_Start_def)
  moreover have "worker_step 0 ?p3 (setw 0 WExit ?p3)"
    by (rule worker_step.range_end) (simp_all add: pool_Start_def)
  then have "pool_step ?p3 (Work 0) (setw 0 WExit ?p3)"
    by (rule pool_step.worker [rotated]) (simp add: pool_Start_def)
  ultimately have "pool_reach (setw 0 WExit ?p3)" by (rule pool_reach_step)
  then show ?thesis by (simp add: done_pool_def pool_Start_def)
qed

theorem pool_Stop_drains_witness: "Completed (pool_Stats done_pool) = 0"
  using pool_Stop_drains [OF done_pool_reach] by (simp add: done_pool_def)

text \<open>
  What the workers still have to do: every step of a worker does some of it.
\<close>

fun todo :: "'j worker \<Rightarrow> nat" where
  "todo WExit = 0"
| "todo WIdle = 1"
| "todo (WErr j e) = 2"
| "todo (WCnt j e) = 3"
| "todo (WDec j e) = 4"
| "todo (WRet j e) = 5"
| "todo (WRun j) = 6"
| "todo (WGot j) = 7"

definition drain_work :: "'j pool \<Rightarrow> nat" where
  "drain_work p = 7 * length (jobs p) + sum_list (map todo (running p))"

definition some_worker_step :: "'j pool \<Rightarrow> 'j pool \<Rightarrow> bool" where
  "some_worker_step p p' \<longleftrightarrow> (\<exists>i < length (running p). worker_step i p p')"

lemma todo_upd:
  "i < length xs \<Longrightarrow> sum_list (map todo (xs[i := x])) + todo (xs ! i) = sum_list (map todo xs) + todo x"
  by (rule sum_list_update_eq)

lemma worker_step_decreases:
  assumes "i < length (running p)" "worker_step i p p'"
  shows "drain_work p' < drain_work p"
  using assms(2) todo_upd [OF assms(1)]
proof (cases rule: worker_step.cases)
  case (receive j js)
  then show ?thesis using todo_upd [OF assms(1), of "WGot j"] by (simp add: drain_work_def)
next
  case range_end
  then show ?thesis using todo_upd [OF assms(1), of WExit] by (simp add: drain_work_def)
next
  case (inc j)
  then show ?thesis using todo_upd [OF assms(1), of "WRun j"] by (simp add: drain_work_def)
next
  case (call j e)
  then show ?thesis using todo_upd [OF assms(1), of "WRet j e"] by (simp add: drain_work_def)
next
  case (dec j e)
  then show ?thesis using todo_upd [OF assms(1), of "WDec j e"] by (simp add: drain_work_def)
next
  case (count j e)
  then show ?thesis using todo_upd [OF assms(1), of "WCnt j e"] by (simp add: drain_work_def)
next
  case (no_error j)
  then show ?thesis using todo_upd [OF assms(1), of WIdle] by (simp add: drain_work_def)
next
  case (error j e)
  then show ?thesis using todo_upd [OF assms(1), of "WErr j e"] by (simp add: drain_work_def)
next
  case (on_error j e)
  then show ?thesis using todo_upd [OF assms(1), of WIdle] by (simp add: drain_work_def)
qed

lemma closed_worker_can_step:
  assumes "jobsClosed p" "running p ! i \<noteq> WExit"
  shows "\<exists>p'. worker_step i p p'"
proof (cases "running p ! i")
  case WIdle
  then show ?thesis using assms by (cases "jobs p") (blast intro: worker_step.intros)+
next
  case (WCnt j e)
  then show ?thesis by (cases e) (blast intro: worker_step.intros)+
qed (use assms in \<open>blast intro: worker_step.intros\<close>)+

lemma worker_step_keeps: "worker_step i p p' \<Longrightarrow> jobsClosed p' = jobsClosed p \<and> clients p' = clients p"
  by (cases rule: worker_step.cases) (auto split: if_splits)

lemma some_worker_bound: "(some_worker_step ^^ n) p p' \<Longrightarrow> n \<le> drain_work p"
proof (induction n arbitrary: p)
  case (Suc n)
  then obtain q where "some_worker_step p q" "(some_worker_step ^^ n) q p'"
    by (metis relpowp_Suc_E2)
  with Suc.IH [of q] worker_step_decreases show ?case by (fastforce simp: some_worker_step_def)
qed simp

text \<open>
  C34. \<open>Stop\<close> returns: once the channel is closed, the workers can take only boundedly many more
  steps (\<open>drain_work\<close>), and as long as one of them has not exited some worker can take a step. So
  if the worker function returns from each call, all workers exit and the wait of \<open>Stop\<close> ends.
\<close>

theorem pool_Stop_returns:
  assumes "jobsClosed p" "(some_worker_step ^^ n) p p'"
  shows "n \<le> drain_work p \<and>
    ((\<nexists>p''. some_worker_step p' p'') \<longrightarrow> (\<forall>w \<in> set (running p'). w = WExit))"
proof
  show "n \<le> drain_work p" using assms(2) by (rule some_worker_bound)
  have "jobsClosed p'"
    using assms
  proof (induction n arbitrary: p)
    case (Suc n)
    then obtain q where "some_worker_step p q" "(some_worker_step ^^ n) q p'"
      by (metis relpowp_Suc_E2)
    with Suc worker_step_keeps show ?case by (metis some_worker_step_def)
  qed simp
  then show "(\<nexists>p''. some_worker_step p' p'') \<longrightarrow> (\<forall>w \<in> set (running p'). w = WExit)"
    using closed_worker_can_step by (fastforce simp: in_set_conv_nth some_worker_step_def)
qed

theorem pool_Stop_returns_witness:
  "list_all (\<lambda>w. w = WExit) (running done_pool)"
proof -
  have "\<nexists>p''. some_worker_step done_pool p''"
    by (auto simp: some_worker_step_def done_pool_def elim: worker_step.cases)
  with pool_Stop_returns [of done_pool 0 done_pool] show ?thesis by (simp add: done_pool_def list_all_iff)
qed

text \<open>
  A race the code does not exclude: \<open>Submit\<close> tests \<open>stopped\<close> before it sends, and \<open>Stop\<close> closes the
  channel without waiting for submitters, so there is an execution in which \<open>Submit\<close> panics with
  a send on a closed channel instead of returning \<open>ErrPoolStopped\<close>; and one in which a second
  \<open>Stop\<close> panics.
\<close>

theorem pool_Submit_Stop_race:
  "(\<exists>p :: nat pool. pool_reach p \<and> CPanic ''send on closed channel'' \<in> set (clients p)) \<and>
   (\<exists>p :: nat pool. pool_reach p \<and> CPanic ''close of closed channel'' \<in> set (clients p))"
proof
  let ?p1 = "setc 0 (CSubmit 7) demo_pool"
  let ?p2 = "setc 1 CStop (?p1\<lparr>stopped := True\<rparr>)"
  let ?p3 = "setc 1 CClosed (?p2\<lparr>jobsClosed := True\<rparr>)"
  let ?p4 = "setc 0 (CPanic ''send on closed channel'') ?p3"
  have "pool_reach ?p2"
    by (rule pool_call [OF demo_submit_reach, of 1], simp)
      (rule client_step.stop, simp)
  then have "pool_reach ?p3"
    by (rule pool_call [where c = 1]) (simp, rule client_step.stop_close, simp_all)
  then have "pool_reach ?p4"
    by (rule pool_call [where c = 0]) (simp, rule client_step.send_closed [of _ _ 7], simp_all)
  then show "\<exists>p :: nat pool. pool_reach p \<and> CPanic ''send on closed channel'' \<in> set (clients p)"
    by (intro exI conjI) (assumption, simp)
  let ?q1 = "setc 0 CStop (demo_pool\<lparr>stopped := True\<rparr>)"
  let ?q2 = "setc 1 CStop (?q1\<lparr>stopped := True\<rparr>)"
  let ?q3 = "setc 0 CClosed (?q2\<lparr>jobsClosed := True\<rparr>)"
  let ?q4 = "setc 1 (CPanic ''close of closed channel'') ?q3"
  have "pool_reach ?q1"
    by (rule pool_call [OF demo_pool_reach, of 0], simp)
      (rule client_step.stop, simp)
  then have "pool_reach ?q2"
    by (rule pool_call [where c = 1]) (simp, rule client_step.stop, simp)
  then have "pool_reach ?q3"
    by (rule pool_call [where c = 0]) (simp, rule client_step.stop_close, simp_all)
  then have "pool_reach ?q4"
    by (rule pool_call [where c = 1]) (simp, rule client_step.stop_again, simp_all)
  then show "\<exists>p :: nat pool. pool_reach p \<and> CPanic ''close of closed channel'' \<in> set (clients p)"
    by (intro exI conjI) (assumption, simp)
qed

end
