(* ===== verification/Pipeline.thy ===== *)
theory Pipeline
  imports GoStd
begin

text \<open>
  The data-processing functions of \<open>pkg/pipeline/pipeline.go\<close>. \<open>Chain\<close> and \<open>Compose\<close> combine
  functions that act on a world. \<open>Process\<close> is a system of threads: the sender, the workers, the
  collector and the cancellation of the context. What the mapped function may return for an item
  is a relation, since it may depend on the world and on the context.
\<close>

section \<open>Chain and Compose\<close>

type_synonym ('w, 'a, 'b) MapFunc = "'a \<Rightarrow> ('w, 'b \<times> err option) action"

fun chain_loop :: "('w \<Rightarrow> err option) \<Rightarrow> 'a \<Rightarrow> ('w, 'a, 'a) MapFunc list \<Rightarrow> ('w, 'a, 'a) MapFunc" where
  "chain_loop ctx_Err zero [] x w = ((x, None), w)"
| "chain_loop ctx_Err zero (stage # stages) x w =
     (if ctx_Err w \<noteq> None then ((zero, ctx_Err w), w)
      else let ((y, err), w1) = stage x w
           in if err \<noteq> None then ((zero, err), w1) else chain_loop ctx_Err zero stages y w1)"

definition Chain :: "('w \<Rightarrow> err option) \<Rightarrow> 'a \<Rightarrow> ('w, 'a, 'a) MapFunc list \<Rightarrow> ('w, 'a, 'a) MapFunc" where
  "Chain ctx_Err zero stages = chain_loop ctx_Err zero stages"

definition Compose :: "'c \<Rightarrow> ('w, 'a, 'b) MapFunc \<Rightarrow> ('w, 'b, 'c) MapFunc \<Rightarrow> ('w, 'a, 'c) MapFunc" where
  "Compose zero first second x w =
     (let ((b, err), w1) = first x w
      in if err \<noteq> None then ((zero, err), w1) else second b w1)"

definition Compose3 :: "'c \<Rightarrow> 'd \<Rightarrow> ('w, 'a, 'b) MapFunc \<Rightarrow> ('w, 'b, 'c) MapFunc \<Rightarrow> ('w, 'c, 'd) MapFunc
    \<Rightarrow> ('w, 'a, 'd) MapFunc" where
  "Compose3 zeroC zeroD f1 f2 f3 = Compose zeroD (Compose zeroC f1 f2) f3"

definition pipeline_Map :: "'a \<Rightarrow> ('w, 'a, 'b) MapFunc \<Rightarrow> ('w, 'b \<times> err option) action" where
  "pipeline_Map x fn = fn x"

lemma chain_loop_append:
  "chain_loop ctx_Err zero (xs @ ys) x w = Compose zero (chain_loop ctx_Err zero xs) (chain_loop ctx_Err zero ys) x w"
  by (induction xs arbitrary: x w) (auto simp: Compose_def split: prod.split)

lemma Compose_assoc:
  "Compose zero (Compose zero' f g) h = Compose zero f (Compose zero g h)"
  by (auto simp: Compose_def fun_eq_iff split: prod.split)

text \<open>
  A chain of stages is their composition: \<open>Chain\<close> of two lists of stages is \<open>Compose\<close> of their
  chains, so the output of each stage is the input of the next and the first error ends the
  chain; and \<open>Compose\<close> is associative, so \<open>Compose3\<close> does not depend on the grouping.
\<close>

theorem pipeline_Chain_Compose:
  "Chain ctx_Err zero (xs @ ys) = Compose zero (Chain ctx_Err zero xs) (Chain ctx_Err zero ys) \<and>
   Compose3 zeroC zeroD f g h = Compose zeroD f (Compose zeroD g h)"
  by (simp add: Chain_def Compose3_def Compose_assoc chain_loop_append fun_eq_iff)

section \<open>Process: state and steps\<close>

record processOptions =
  pworkers :: int
  ordered :: bool

definition WithWorkers :: "int \<Rightarrow> processOptions \<Rightarrow> processOptions" where
  "WithWorkers n o' = (if 0 < n then o'\<lparr>pworkers := n\<rparr> else o')"

definition WithOrdered :: "bool \<Rightarrow> processOptions \<Rightarrow> processOptions" where
  "WithOrdered b o' = o'\<lparr>ordered := b\<rparr>"

definition process_config :: "nat \<Rightarrow> (processOptions \<Rightarrow> processOptions) list \<Rightarrow> processOptions" where
  "process_config n opts =
     (let o' = fold (\<lambda>f c. f c) opts \<lparr>pworkers = int n, ordered = False\<rparr>
      in if int n < pworkers o' then o'\<lparr>pworkers := int n\<rparr> else o')"

text \<open>Where a worker is: waiting for a job, at the test of the context, in the call, finished.\<close>

datatype pworker = PIdle | PGot nat | PCall nat | PExit

record ('i, 'o) process =
  items :: "'i list"
  popt :: processOptions
  to_send :: "nat list"
  jobsq :: "nat list"
  pws :: "pworker list"
  resultsq :: "(nat \<times> (err + 'o)) list"
  ctxErr :: "err option"
  parentErr :: "err option"
  out :: "'o option list"
  unordered :: "'o list"
  firstErr :: "err option"
  collected :: "(nat \<times> (err + 'o)) list"

definition process_init :: "'i list \<Rightarrow> (processOptions \<Rightarrow> processOptions) list \<Rightarrow> ('i, 'o) process" where
  "process_init xs opts =
     (let cfg = process_config (length xs) opts
      in \<lparr>items = xs, popt = cfg, to_send = [0 ..< length xs], jobsq = [],
          pws = replicate (nat (pworkers cfg)) PIdle, resultsq = [], ctxErr = None, parentErr = None,
          out = replicate (length xs) None, unordered = [], firstErr = None, collected = []\<rparr>)"

text \<open>One result arrives at the collector.\<close>

definition collect :: "nat \<times> (err + 'o) \<Rightarrow> ('i, 'o) process \<Rightarrow> ('i, 'o) process" where
  "collect r p =
     (case r of
        (idx, Inl e) \<Rightarrow>
          if firstErr p = None
          then p\<lparr>firstErr := Some e, ctxErr := (if ctxErr p = None then Some Canceled else ctxErr p)\<rparr>
          else p
      | (idx, Inr v) \<Rightarrow>
          if ordered (popt p) then p\<lparr>out := (out p)[idx := Some v]\<rparr>
          else p\<lparr>unordered := unordered p @ [v]\<rparr>)"

text \<open>
  The steps. \<open>fnres x r\<close> says that the mapped function may return \<open>r\<close> for the item \<open>x\<close>. Both channels
  have room for all items; the sends are guarded by that room. The last step is the cancellation
  of the caller's context, which \<open>parentErr\<close> records.
\<close>

inductive process_step :: "('i \<Rightarrow> err + 'o \<Rightarrow> bool) \<Rightarrow> ('i, 'o) process \<Rightarrow> unit \<Rightarrow> ('i, 'o) process \<Rightarrow> bool"
  for fnres where
  send: "to_send p = i # is \<Longrightarrow> length (jobsq p) < length (items p) \<Longrightarrow>
     process_step fnres p () (p\<lparr>to_send := is, jobsq := jobsq p @ [i]\<rparr>)"
| receive: "k < length (pws p) \<Longrightarrow> pws p ! k = PIdle \<Longrightarrow> jobsq p = i # is \<Longrightarrow>
     process_step fnres p () (p\<lparr>jobsq := is, pws := (pws p)[k := PGot i]\<rparr>)"
| skip: "k < length (pws p) \<Longrightarrow> pws p ! k = PGot i \<Longrightarrow> ctxErr p = Some e \<Longrightarrow>
     length (resultsq p) < length (items p) \<Longrightarrow>
     process_step fnres p () (p\<lparr>resultsq := resultsq p @ [(i, Inl e)], pws := (pws p)[k := PIdle]\<rparr>)"
| enter: "k < length (pws p) \<Longrightarrow> pws p ! k = PGot i \<Longrightarrow> ctxErr p = None \<Longrightarrow>
     process_step fnres p () (p\<lparr>pws := (pws p)[k := PCall i]\<rparr>)"
| result: "k < length (pws p) \<Longrightarrow> pws p ! k = PCall i \<Longrightarrow> fnres (items p ! i) r \<Longrightarrow>
     length (resultsq p) < length (items p) \<Longrightarrow>
     process_step fnres p () (p\<lparr>resultsq := resultsq p @ [(i, r)], pws := (pws p)[k := PIdle]\<rparr>)"
| exit: "k < length (pws p) \<Longrightarrow> pws p ! k = PIdle \<Longrightarrow> to_send p = [] \<Longrightarrow> jobsq p = [] \<Longrightarrow>
     process_step fnres p () (p\<lparr>pws := (pws p)[k := PExit]\<rparr>)"
| collected: "resultsq p = r # rs \<Longrightarrow>
     process_step fnres p () (collect r (p\<lparr>resultsq := rs, collected := collected p @ [r]\<rparr>))"
| cancelled: "ctxErr p = None \<Longrightarrow> process_step fnres p () (p\<lparr>ctxErr := Some e, parentErr := Some e\<rparr>)"

text \<open>The loop over the results ends when the channel is closed and empty.\<close>

definition process_done :: "('i, 'o) process \<Rightarrow> bool" where
  "process_done p \<longleftrightarrow> to_send p = [] \<and> (\<forall>w \<in> set (pws p). w = PExit) \<and> resultsq p = []"

text \<open>What is returned; the output of a slot that was never written is the zero value.\<close>

definition process_result :: "'o \<Rightarrow> ('i, 'o) process \<Rightarrow> 'o list \<times> err option" where
  "process_result zero p =
     (if firstErr p \<noteq> None then ([], firstErr p)
      else if ordered (popt p) then (map (\<lambda>x. case x of None \<Rightarrow> zero | Some v \<Rightarrow> v) (out p), None)
      else (unordered p, None))"

text \<open>\<open>Process\<close> returns at once when there are no items, and otherwise when the collector is done.\<close>

definition Process_returns :: "'o \<Rightarrow> 'i list \<Rightarrow> ('i, 'o) process \<Rightarrow> 'o list \<times> err option \<Rightarrow> bool" where
  "Process_returns zero xs p r \<longleftrightarrow>
     (if length xs = 0 then r = ([], None) else process_done p \<and> r = process_result zero p)"

section \<open>The invariant\<close>

fun holds_idx :: "pworker \<Rightarrow> nat multiset" where
  "holds_idx (PGot i) = {#i#}"
| "holds_idx (PCall i) = {#i#}"
| "holds_idx _ = {#}"

definition idx_inv :: "('i, 'o) process \<Rightarrow> bool" where
  "idx_inv p \<longleftrightarrow> mset [0 ..< length (items p)] = mset (to_send p) + mset (jobsq p) +
     sum_list (map holds_idx (pws p)) + mset (map fst (resultsq p)) + mset (map fst (collected p))"

definition exit_inv :: "('i, 'o) process \<Rightarrow> bool" where
  "exit_inv p \<longleftrightarrow> pws p \<noteq> [] \<and> (PExit \<in> set (pws p) \<longrightarrow> to_send p = [] \<and> jobsq p = [])"

text \<open>Every result is one the function may return for its item, or the error of the context.\<close>

definition result_ok :: "('i \<Rightarrow> err + 'o \<Rightarrow> bool) \<Rightarrow> ('i, 'o) process \<Rightarrow> nat \<times> (err + 'o) \<Rightarrow> bool" where
  "result_ok fnres p r \<longleftrightarrow> fnres (items p ! fst r) (snd r) \<or>
     (\<exists>e. snd r = Inl e \<and> (parentErr p = Some e \<or> firstErr p \<noteq> None))"

definition res_inv :: "('i \<Rightarrow> err + 'o \<Rightarrow> bool) \<Rightarrow> ('i, 'o) process \<Rightarrow> bool" where
  "res_inv fnres p \<longleftrightarrow> (ctxErr p = None \<longrightarrow> parentErr p = None) \<and>
     (\<forall>e. ctxErr p = Some e \<longrightarrow> parentErr p = Some e \<or> firstErr p \<noteq> None) \<and>
     (\<forall>r \<in> set (resultsq p) \<union> set (collected p). result_ok fnres p r) \<and>
     (\<forall>e. firstErr p = Some e \<longrightarrow> (\<exists>i < length (items p). fnres (items p ! i) (Inl e)) \<or> parentErr p = Some e)"

text \<open>What the collector has made of the results it received.\<close>

definition good_values :: "(nat \<times> (err + 'o)) list \<Rightarrow> (nat \<times> 'o) list" where
  "good_values rs = [(i, v). (i, Inr v) \<leftarrow> rs]"

definition out_inv :: "('i, 'o) process \<Rightarrow> bool" where
  "out_inv p \<longleftrightarrow> length (out p) = length (items p) \<and>
     (firstErr p = None \<longrightarrow> (\<forall>r \<in> set (collected p). \<exists>v. snd r = Inr v)) \<and>
     (if ordered (popt p)
      then \<forall>i < length (items p). out p ! i = map_of (rev (good_values (collected p))) i
      else unordered p = map snd (good_values (collected p)))"

definition process_inv :: "('i \<Rightarrow> err + 'o \<Rightarrow> bool) \<Rightarrow> ('i, 'o) process \<Rightarrow> bool" where
  "process_inv fnres p \<longleftrightarrow> idx_inv p \<and> exit_inv p \<and> res_inv fnres p \<and> out_inv p"

lemma holds_upd:
  assumes "k < length ws"
  shows "sum_list (map holds_idx (ws[k := x])) = sum_list (map holds_idx ws) + holds_idx x - holds_idx (ws ! k)"
  using sum_list_update_eq [OF assms, of holds_idx x] by (metis add_diff_cancel_right')

lemma holds_in: "k < length ws \<Longrightarrow> i \<in># holds_idx (ws ! k) \<Longrightarrow> i \<in># sum_list (map holds_idx ws)"
  by (induction ws arbitrary: k) (auto simp: nth_Cons split: nat.splits)

lemma good_values_snoc [simp]:
  "good_values (rs @ [(i, Inr v)]) = good_values rs @ [(i, v)]" "good_values (rs @ [(i, Inl e)]) = good_values rs"
  by (simp_all add: good_values_def)

lemma collect_keeps [simp]:
  "items (collect r p) = items p" "popt (collect r p) = popt p" "to_send (collect r p) = to_send p"
  "jobsq (collect r p) = jobsq p" "pws (collect r p) = pws p" "resultsq (collect r p) = resultsq p"
  "parentErr (collect r p) = parentErr p" "collected (collect r p) = collected p"
  by (auto simp: collect_def split: prod.split sum.split)

lemma idx_inv_step:
  assumes "process_step fnres p ev p'" "idx_inv p"
  shows "idx_inv p'"
  using assms
proof (cases rule: process_step.cases)
  case (skip k i e)
  then have "i \<in># sum_list (map holds_idx (pws p))" by (intro holds_in [of k]) auto
  then show ?thesis using skip assms(2) by (simp add: idx_inv_def holds_upd insert_DiffM2)
next
  case (result k i r)
  then have "i \<in># sum_list (map holds_idx (pws p))" by (intro holds_in [of k]) auto
  then show ?thesis using result assms(2) by (simp add: idx_inv_def holds_upd insert_DiffM2)
qed (simp_all add: idx_inv_def holds_upd)

lemma exit_inv_step:
  assumes "process_step fnres p ev p'" "exit_inv p"
  shows "exit_inv p'"
  using assms by (cases rule: process_step.cases) (auto simp: exit_inv_def dest!: set_upd_mem)

lemma idx_less:
  assumes "idx_inv p" "i \<in># sum_list (map holds_idx (pws p)) \<or> i \<in> fst ` set (resultsq p)"
  shows "i < length (items p)"
proof -
  have "i \<in># mset [0 ..< length (items p)]"
    using assms unfolding idx_inv_def by auto
  then show ?thesis by simp
qed

lemma res_inv_step:
  assumes "process_step fnres p ev p'" "res_inv fnres p" "idx_inv p"
  shows "res_inv fnres p'"
  using assms
proof (cases rule: process_step.cases)
  case (collected r rs)
  have "fst r < length (items p)" by (rule idx_less [OF assms(3)]) (simp add: collected)
  moreover have "result_ok fnres p r" using assms(2) by (simp add: res_inv_def collected)
  ultimately show ?thesis
    using assms(2)
    by (cases r; cases "snd r")
      (auto simp: res_inv_def result_ok_def collect_def collected split: if_splits)
qed (auto simp: res_inv_def result_ok_def)

lemma out_inv_step:
  assumes "process_step fnres p ev p'" "out_inv p" "idx_inv p"
  shows "out_inv p'"
  using assms
proof (cases rule: process_step.cases)
  case (collected r rs)
  have "fst r < length (items p)" by (rule idx_less [OF assms(3)]) (simp add: collected)
  then show ?thesis
    using assms(2)
    by (cases r; cases "snd r")
      (auto simp: collected out_inv_def collect_def nth_list_update split: if_splits)
qed (auto simp: out_inv_def)

definition process_start :: "'i list \<Rightarrow> ('i, 'o) process \<Rightarrow> bool" where
  "process_start xs p \<longleftrightarrow> (\<exists>opts. p = process_init xs opts \<and> 1 \<le> pworkers (process_config (length xs) opts))"

lemma process_inv_init:
  assumes "1 \<le> pworkers (process_config (length xs) opts)"
  shows "process_inv fnres (process_init xs opts)"
proof -
  have "sum_list (map holds_idx (replicate n PIdle)) = {#}" for n by (induction n) auto
  then show ?thesis
    using assms
    by (auto simp: process_inv_def idx_inv_def exit_inv_def res_inv_def out_inv_def process_init_def Let_def
        good_values_def)
qed

interpretation procs: step_invariant "process_start xs" "process_step fnres" "process_inv fnres"
proof
  fix p :: "('a, 'b) process"
  show "process_start xs p \<Longrightarrow> process_inv fnres p"
    by (auto simp: process_start_def process_inv_init)
next
  fix p p' :: "('a, 'b) process" and ev
  assume "process_step fnres p ev p'" "process_inv fnres p"
  then show "process_inv fnres p'"
    unfolding process_inv_def using idx_inv_step exit_inv_step res_inv_step out_inv_step by metis
qed

lemmas process_reach_inv = procs.reach_inv
lemmas process_reach_step = reach_step [where trans = "process_step fnres" for fnres]

section \<open>The result\<close>

lemma items_reach: "reach (process_start xs) (process_step fnres) p \<Longrightarrow> items p = xs"
proof (induction rule: reach.induct)
  case (reach_start p)
  then show ?case by (auto simp: process_start_def process_init_def Let_def)
next
  case (reach_step p ev p')
  from reach_step(2) show ?case using reach_step.IH by (cases rule: process_step.cases) auto
qed

lemma done_indices:
  assumes "idx_inv p" "exit_inv p" "process_done p"
  shows "mset (map fst (collected p)) = mset [0 ..< length (items p)]"
proof -
  have "PExit \<in> set (pws p)" using assms by (cases "pws p") (auto simp: exit_inv_def process_done_def)
  moreover have "sum_list (map holds_idx ws) = {#}" if "\<forall>w \<in> set ws. w = PExit" for ws
    using that by (induction ws) auto
  ultimately show ?thesis
    using assms by (simp add: idx_inv_def exit_inv_def process_done_def)
qed

lemma all_good_values:
  "\<forall>r \<in> set rs. \<exists>v. snd r = Inr v \<Longrightarrow> map fst (good_values rs) = map fst rs"
  by (induction rs) (auto simp: good_values_def)

lemma good_values_in: "(i, v) \<in> set (good_values rs) \<Longrightarrow> (i, Inr v) \<in> set rs"
  by (auto simp: good_values_def split: prod.splits sum.splits)

lemma process_result_correct:
  assumes "reach (process_start xs) (process_step fnres) p" "process_done p"
  shows "case process_result zero p of
      (ys, Some e) \<Rightarrow> ys = [] \<and> ((\<exists>x \<in> set xs. fnres x (Inl e)) \<or> parentErr p = Some e)
    | (ys, None) \<Rightarrow>
        if ordered (popt p) then list_all2 (\<lambda>x y. fnres x (Inr y)) xs ys
        else \<exists>is. mset is = mset [0 ..< length xs] \<and> list_all2 (\<lambda>i y. fnres (xs ! i) (Inr y)) is ys"
proof -
  have inv: "idx_inv p" "exit_inv p" "res_inv fnres p" "out_inv p"
    using process_reach_inv [OF assms(1)] by (simp_all add: process_inv_def)
  have xs: "items p = xs" using assms(1) by (rule items_reach)
  note idx = done_indices [OF inv(1,2) assms(2), unfolded xs]
  let ?vs = "good_values (collected p)"
  have fn: "fnres (xs ! i) (Inr v)" if "(i, v) \<in> set ?vs" for i v
    using inv(3) good_values_in [OF that] by (force simp: res_inv_def result_ok_def xs)
  show ?thesis
  proof (cases "firstErr p")
    case (Some e)
    then show ?thesis
      using inv(3) by (auto simp: process_result_def res_inv_def xs)
  next
    case None
    then have "map fst ?vs = map fst (collected p)"
      using inv(4) by (intro all_good_values) (simp add: out_inv_def)
    then have ix: "mset (map fst ?vs) = mset [0 ..< length xs]" using idx by simp
    show ?thesis
    proof (cases "ordered (popt p)")
      case True
      have "distinct (map fst ?vs)" using ix by (metis distinct_upt mset_eq_imp_distinct_iff)
      then have d: "map_of (rev ?vs) = map_of ?vs" 
        by (subst map_of_inject_set) (simp_all flip: rev_map)
      have "set (map fst ?vs) = {..< length xs}" using ix by (metis atLeast_upt set_mset_mset)
      then have "\<exists>v. map_of ?vs i = Some v" if "i < length xs" for i
        using that by (metis domIff dom_map_of_conv_image_fst lessThan_iff not_None_eq set_map)
      then have "fnres (xs ! i) (Inr (case out p ! i of None \<Rightarrow> zero | Some v \<Rightarrow> v))" if "i < length xs" for i
        using that inv(4) True fn map_of_SomeD by (fastforce simp: out_inv_def xs d)
      then show ?thesis
        using None True inv(4) by (auto simp: process_result_def list_all2_conv_all_nth out_inv_def xs)
    next
      case False
      have "list_all2 (\<lambda>i y. fnres (xs ! i) (Inr y)) (map fst ?vs) (map snd ?vs)"
        using fn by (auto simp: list_all2_conv_all_nth)
      moreover have "unordered p = map snd ?vs" using inv(4) False by (simp add: out_inv_def)
      ultimately show ?thesis
        using None False ix by (simp add: process_result_def) (metis mset_map)
    qed
  qed
qed

text \<open>
  \<open>Process\<close> returns the right results for every interleaving. When its collector is done and
  no error occurred, the function was called for every item exactly once; with \<open>WithOrdered\<close> the
  output at each index is a result of the function for the item at that index, and without it the
  outputs are results for the items in some order. Otherwise the error returned is one that the
  function returned for an item, or the error of the caller's context.
\<close>

theorem pipeline_Process_result:
  assumes "xs \<noteq> [] \<longrightarrow> reach (process_start xs) (process_step fnres) p" "Process_returns zero xs p r"
  shows "case r of
      (ys, Some e) \<Rightarrow> ys = [] \<and> ((\<exists>x \<in> set xs. fnres x (Inl e)) \<or> parentErr p = Some e)
    | (ys, None) \<Rightarrow>
        if ordered (popt p) then list_all2 (\<lambda>x y. fnres x (Inr y)) xs ys
        else \<exists>is. mset is = mset [0 ..< length xs] \<and> list_all2 (\<lambda>i y. fnres (xs ! i) (Inr y)) is ys"
proof (cases "xs = []")
  case True
  then show ?thesis using assms(2) by (simp add: Process_returns_def)
next
  case False
  then show ?thesis
    using process_result_correct [of xs fnres p zero] assms by (simp add: Process_returns_def)
qed

definition demo_fn :: "int \<Rightarrow> err + int \<Rightarrow> bool" where
  "demo_fn x r \<longleftrightarrow> r = Inr (x + 1)"

text \<open>A run of one worker on one item.\<close>

definition demo_state :: "nat list \<Rightarrow> nat list \<Rightarrow> pworker \<Rightarrow> (nat \<times> (err + int)) list \<Rightarrow> int option
    \<Rightarrow> (nat \<times> (err + int)) list \<Rightarrow> (int, int) process" where
  "demo_state ts js w rs o1 cs = \<lparr>items = [5], popt = \<lparr>pworkers = 1, ordered = True\<rparr>, to_send = ts, jobsq = js,
     pws = [w], resultsq = rs, ctxErr = None, parentErr = None, out = [o1], unordered = [], firstErr = None,
     collected = cs\<rparr>"

abbreviation demo_reach :: "(int, int) process \<Rightarrow> bool" where
  "demo_reach \<equiv> reach (process_start [5]) (process_step demo_fn)"

lemma demo_run: "demo_reach (demo_state [] [] PExit [] (Some 6) [(0, Inr 6)])"
proof -
  have "process_init [5] [WithOrdered True] = demo_state [0] [] PIdle [] None []"
    "1 \<le> pworkers (process_config (length [5 :: int]) [WithOrdered True])"
    by (simp_all add: process_init_def process_config_def WithOrdered_def demo_state_def)
  then have "process_start [5] (demo_state [0] [] PIdle [] None [])"
    unfolding process_start_def by metis
  then have "demo_reach (demo_state [0] [] PIdle [] None [])" by (rule reach_start)
  moreover have "process_step demo_fn (demo_state [0] [] PIdle [] None []) () (demo_state [] [0] PIdle [] None [])"
    using process_step.send [of "demo_state [0] [] PIdle [] None []" 0 "[]" demo_fn] by (simp add: demo_state_def)
  moreover have "process_step demo_fn (demo_state [] [0] PIdle [] None []) () (demo_state [] [] (PGot 0) [] None [])"
    using process_step.receive [of 0 "demo_state [] [0] PIdle [] None []" 0 "[]" demo_fn] by (simp add: demo_state_def)
  moreover have "process_step demo_fn (demo_state [] [] (PGot 0) [] None []) () (demo_state [] [] (PCall 0) [] None [])"
    using process_step.enter [of 0 "demo_state [] [] (PGot 0) [] None []" 0 demo_fn] by (simp add: demo_state_def)
  moreover have "process_step demo_fn (demo_state [] [] (PCall 0) [] None []) ()
      (demo_state [] [] PIdle [(0, Inr 6)] None [])"
    using process_step.result [of 0 "demo_state [] [] (PCall 0) [] None []" 0 demo_fn "Inr 6"]
    by (simp add: demo_state_def demo_fn_def)
  moreover have "process_step demo_fn (demo_state [] [] PIdle [(0, Inr 6)] None []) ()
      (demo_state [] [] PIdle [] (Some 6) [(0, Inr 6)])"
    using process_step.collected [of "demo_state [] [] PIdle [(0, Inr 6)] None []" "(0, Inr 6)" "[]" demo_fn]
    by (simp add: demo_state_def collect_def)
  moreover have "process_step demo_fn (demo_state [] [] PIdle [] (Some 6) [(0, Inr 6)]) ()
      (demo_state [] [] PExit [] (Some 6) [(0, Inr 6)])"
    using process_step.exit [of 0 "demo_state [] [] PIdle [] (Some 6) [(0, Inr 6)]" demo_fn] by (simp add: demo_state_def)
  ultimately show ?thesis by (meson process_reach_step)
qed

theorem pipeline_Process_result_witness:
  "list_all2 (\<lambda>x y. demo_fn x (Inr y)) [5] (fst (process_result 0 (demo_state [] [] PExit [] (Some 6) [(0, Inr 6)])))"
  using pipeline_Process_result [of "[5]" demo_fn "demo_state [] [] PExit [] (Some 6) [(0, Inr 6)]" 0
      "process_result 0 (demo_state [] [] PExit [] (Some 6) [(0, Inr 6)])"] demo_run
  by (simp add: Process_returns_def process_done_def demo_state_def process_result_def)

end
