(* ===== verification/GoStrings.thy ===== *)
theory GoStrings
  imports GoStd "HOL-Library.Sublist"
begin

text \<open>
  What the packages use of \<open>strings\<close>, \<open>strconv\<close> and \<open>unicode/utf8\<close>, on strings as lists of bytes.
\<close>

section \<open>Splitting and trimming\<close>

text \<open>\<open>strings.Split\<close> and \<open>strings.Cut\<close> with a separator of one byte.\<close>

fun Split :: "char \<Rightarrow> string \<Rightarrow> string list" where
  "Split c [] = [[]]"
| "Split c (x # xs) =
     (if x = c then [] # Split c xs
      else case Split c xs of [] \<Rightarrow> [[x]] | y # ys \<Rightarrow> (x # y) # ys)"

fun Cut :: "char \<Rightarrow> string \<Rightarrow> (string \<times> string) option" where
  "Cut c [] = None"
| "Cut c (x # xs) = (if x = c then Some ([], xs) else map_option (\<lambda>(k, v). (x # k, v)) (Cut c xs))"

definition HasPrefix :: "string \<Rightarrow> string \<Rightarrow> bool" where
  "HasPrefix s p = prefix p s"

definition TrimPrefix :: "string \<Rightarrow> string \<Rightarrow> string" where
  "TrimPrefix s p = (if prefix p s then drop (length p) s else s)"

text \<open>\<open>strings.Trim\<close> with a set of bytes to cut.\<close>

definition Trim :: "string \<Rightarrow> string \<Rightarrow> string" where
  "Trim cutset s = rev (dropWhile (\<lambda>c. c \<in> set cutset) (rev (dropWhile (\<lambda>c. c \<in> set cutset) s)))"

text \<open>\<open>strings.TrimSpace\<close>: the UTF-8 encodings of the characters that \<open>unicode.IsSpace\<close> accepts.\<close>

definition space_seqs :: "string list" where
  "space_seqs =
     [[CHR 0x09], [CHR 0x0A], [CHR 0x0B], [CHR 0x0C], [CHR 0x0D], [CHR 0x20],
      [CHR 0xC2, CHR 0x85], [CHR 0xC2, CHR 0xA0], [CHR 0xE1, CHR 0x9A, CHR 0x80],
      [CHR 0xE2, CHR 0x80, CHR 0x80], [CHR 0xE2, CHR 0x80, CHR 0x81], [CHR 0xE2, CHR 0x80, CHR 0x82],
      [CHR 0xE2, CHR 0x80, CHR 0x83], [CHR 0xE2, CHR 0x80, CHR 0x84], [CHR 0xE2, CHR 0x80, CHR 0x85],
      [CHR 0xE2, CHR 0x80, CHR 0x86], [CHR 0xE2, CHR 0x80, CHR 0x87], [CHR 0xE2, CHR 0x80, CHR 0x88],
      [CHR 0xE2, CHR 0x80, CHR 0x89], [CHR 0xE2, CHR 0x80, CHR 0x8A], [CHR 0xE2, CHR 0x80, CHR 0xA8],
      [CHR 0xE2, CHR 0x80, CHR 0xA9], [CHR 0xE2, CHR 0x80, CHR 0xAF], [CHR 0xE2, CHR 0x81, CHR 0x9F],
      [CHR 0xE3, CHR 0x80, CHR 0x80]]"

function strip_seqs :: "string list \<Rightarrow> string \<Rightarrow> string" where
  "strip_seqs seqs s =
     (case find (\<lambda>p. p \<noteq> [] \<and> prefix p s) seqs of
        None \<Rightarrow> s
      | Some p \<Rightarrow> strip_seqs seqs (drop (length p) s))"
  by pat_completeness auto
termination
  by (relation "measure (\<lambda>(seqs, s). length s)") (auto simp: find_Some_iff prefix_def)

declare strip_seqs.simps [simp del]

definition TrimSpace :: "string \<Rightarrow> string" where
  "TrimSpace s = rev (strip_seqs (map rev space_seqs) (rev (strip_seqs space_seqs s)))"

text \<open>\<open>strings.LastIndex\<close> of one byte: the position of its last occurrence, or \<open>-1\<close>.\<close>

definition LastIndex :: "string \<Rightarrow> char \<Rightarrow> int" where
  "LastIndex s c = (if c \<in> set s then int (length s) - 1 - int (length (takeWhile (\<lambda>x. x \<noteq> c) (rev s))) else - 1)"

text \<open>
  \<open>utf8.RuneCountInString\<close> of a string that is valid UTF-8: the bytes that do not continue a
  character.
\<close>

definition RuneCount :: "string \<Rightarrow> nat" where
  "RuneCount s = length (filter (\<lambda>c. \<not> (128 \<le> (of_char c :: nat) \<and> (of_char c :: nat) < 192)) s)"

section \<open>Numbers\<close>

definition is_digit :: "char \<Rightarrow> bool" where
  "is_digit c \<longleftrightarrow> 48 \<le> (of_char c :: nat) \<and> (of_char c :: nat) \<le> 57"

definition digits_value :: "string \<Rightarrow> nat" where
  "digits_value s = foldl (\<lambda>n c. 10 * n + (of_char c - 48)) 0 s"

text \<open>
  \<open>strconv.ParseUint(s, 10, bits)\<close>, \<open>strconv.ParseInt(s, 10, bits)\<close> and \<open>strconv.ParseBool\<close>; \<open>None\<close>
  is an error, for the syntax or for the range.
\<close>

definition ParseUint :: "nat \<Rightarrow> string \<Rightarrow> int option" where
  "ParseUint bits s =
     (if s = [] \<or> \<not> list_all is_digit s then None
      else let n = int (digits_value s) in if n < 2 ^ bits then Some n else None)"

definition ParseInt :: "nat \<Rightarrow> string \<Rightarrow> int option" where
  "ParseInt bits s =
     (let neg = (case s of c # _ \<Rightarrow> c = CHR ''-'' | [] \<Rightarrow> False);
          ds = (case s of c # cs \<Rightarrow> if c = CHR ''-'' \<or> c = CHR ''+'' then cs else s | [] \<Rightarrow> [])
      in if ds = [] \<or> \<not> list_all is_digit ds then None
         else let n = int (digits_value ds) in
           if neg then (if n \<le> 2 ^ (bits - 1) then Some (- n) else None)
           else (if n < 2 ^ (bits - 1) then Some n else None))"

definition ParseBool :: "string \<Rightarrow> bool option" where
  "ParseBool s =
     (if s \<in> {''1'', ''t'', ''T'', ''TRUE'', ''true'', ''True''} then Some True
      else if s \<in> {''0'', ''f'', ''F'', ''FALSE'', ''false'', ''False''} then Some False
      else None)"

section \<open>Lemmas\<close>

lemma Split_nonempty: "Split c s \<noteq> []"
  by (induction s) (auto split: list.split)

lemma Split_join: "intersperse_concat [c] (Split c s) = s"
proof (induction s)
  case (Cons x xs)
  obtain y ys where y: "Split c xs = y # ys" using Split_nonempty by (metis list.exhaust)
  then show ?case using Cons by (cases ys) auto
qed simp

lemma Split_no_sep: "p \<in> set (Split c s) \<Longrightarrow> c \<notin> set p"
  by (induction s arbitrary: p) (auto split: if_splits list.splits)

lemma Split_single: "c \<notin> set s \<Longrightarrow> Split c s = [s]"
  by (induction s) auto

lemma Cut_Some_iff: "Cut c s = Some (k, v) \<longleftrightarrow> s = k @ c # v \<and> c \<notin> set k"
proof (induction s arbitrary: k)
  case (Cons x xs)
  show ?case
  proof (cases k)
    case Nil
    then show ?thesis by (cases "Cut c xs") auto
  next
    case k: (Cons y ys)
    then have "Cut c (x # xs) = Some (k, v) \<longleftrightarrow> x \<noteq> c \<and> x = y \<and> Cut c xs = Some (ys, v)"
      by (cases "Cut c xs") auto
    then show ?thesis using Cons.IH [of ys] k by auto
  qed
qed simp

lemma nat_digits_nonempty: "nat_digits n \<noteq> []"
  by (subst nat_digits.simps) simp

lemma digit_char_digit: "n < 10 \<Longrightarrow> is_digit (digit_char n) \<and> of_char (digit_char n) = 48 + n"
  by (simp add: is_digit_def digit_char_def)

lemma nat_digits_all: "list_all is_digit (nat_digits n)"
  by (induction n rule: nat_digits.induct) (subst nat_digits.simps, simp add: digit_char_digit)

lemma digits_value_snoc: "digits_value (s @ [c]) = 10 * digits_value s + (of_char c - 48)"
  by (simp add: digits_value_def)

lemma nat_digits_value: "digits_value (nat_digits n) = n"
proof (induction n rule: nat_digits.induct)
  case (1 n)
  show ?case
  proof (cases "n < 10")
    case True
    then show ?thesis using digits_value_snoc [of "[]" "digit_char n"]
      by (subst nat_digits.simps) (simp add: digit_char_digit digits_value_def)
  next
    case False
    then show ?thesis
      using 1 by (subst nat_digits.simps) (simp add: digits_value_snoc digit_char_digit)
  qed
qed

lemma hd_nat_digits: "nat_digits n = c # cs \<Longrightarrow> is_digit c"
  using nat_digits_all [of n] by simp

lemma ParseUint_Itoa: "0 \<le> n \<Longrightarrow> ParseUint bits (Itoa n) = (if n < 2 ^ bits then Some n else None)"
  by (simp add: ParseUint_def Itoa_def nat_digits_nonempty nat_digits_all nat_digits_value)

lemma ParseInt_Itoa:
  "ParseInt bits (Itoa n) = (if - (2 ^ (bits - 1)) \<le> n \<and> n < 2 ^ (bits - 1) then Some n else None)"
proof (cases "n < 0")
  case True
  then show ?thesis
    by (auto simp: ParseInt_def Itoa_def nat_digits_nonempty nat_digits_all nat_digits_value Let_def)
next
  case False
  obtain c cs where d: "nat_digits (nat n) = c # cs" using nat_digits_nonempty by (metis list.exhaust)
  have "is_digit c" using d by (rule hd_nat_digits)
  then have "c \<noteq> CHR ''-''" "c \<noteq> CHR ''+''" by (auto simp: is_digit_def)
  then have "ParseInt bits (Itoa n) = (if int (digits_value (c # cs)) < 2 ^ (bits - 1)
      then Some (int (digits_value (c # cs))) else None)"
    using False nat_digits_all [of "nat n"] by (simp add: ParseInt_def Itoa_def d)
  moreover have "int (digits_value (c # cs)) = n" using nat_digits_value [of "nat n"] False d by simp
  moreover have "- (2 ^ (bits - 1)) \<le> n" using False by (simp add: order.trans [of _ 0])
  ultimately show ?thesis by simp
qed

lemma strip_seqs_id: "\<forall>p \<in> set seqs. p \<noteq> [] \<longrightarrow> \<not> prefix p s \<Longrightarrow> strip_seqs seqs s = s"
  by (subst strip_seqs.simps) (auto split: option.split simp: find_Some_iff)

end
