(* ===== verification/Config.thy ===== *)
theory Config
  imports GoStrings
begin

text \<open>
  The configuration loader of \<open>pkg/config/config.go\<close>. A struct is the list of its fields: a field
  has its tags, its type and its value, or is a nested struct without an \<open>env\<close> tag. The process
  environment is a map, a file its lines. The parsers of durations, URLs, IP addresses and floats
  are parameters.
\<close>

section \<open>Structs and values\<close>

datatype ftype =
    TString | TBool | TInt nat | TUint nat | TFloat nat | TDuration | TURL | TIP | TStrings
  | TPtr ftype | TOther string

datatype ('u, 'i, 'f) cval =
    VString string | VBool bool | VInt int | VUint int | VFloat 'f | VDuration duration
  | VURL 'u | VIP 'i | VStrings "string list" | VPtr "('u, 'i, 'f) cval" | VZero

record ('u, 'i, 'f) parsers =
  ParseDuration :: "string \<Rightarrow> err + duration"
  ParseURL :: "string \<Rightarrow> err + 'u"
  ParseIP :: "string \<Rightarrow> 'i option"
  ParseFloat :: "nat \<Rightarrow> string \<Rightarrow> 'f option"

record tags =
  tenv :: string
  tdefault :: string
  trequired :: string

datatype ('u, 'i, 'f) cfield =
    CField tags ftype "('u, 'i, 'f) cval"
  | CStruct "('u, 'i, 'f) cfield list"

type_synonym env = "string \<Rightarrow> string option"

section \<open>Setting a field\<close>

definition splitTrimmed :: "string \<Rightarrow> char \<Rightarrow> string list" where
  "splitTrimmed s sep = filter (\<lambda>p. p \<noteq> []) (map TrimSpace (Split sep s))"

definition invalid :: "string \<Rightarrow> string \<Rightarrow> err" where
  "invalid what raw = Errorf [Lit (''invalid '' @ what @ '' ''), Quoted raw]"

definition invalid_wrap :: "string \<Rightarrow> string \<Rightarrow> err \<Rightarrow> err" where
  "invalid_wrap what raw e = Errorf [Lit (''invalid '' @ what @ '' ''), Quoted raw, Lit '': '', Wrapped e]"

fun setField :: "('u, 'i, 'f) parsers \<Rightarrow> ftype \<Rightarrow> string \<Rightarrow> err + ('u, 'i, 'f) cval" where
  "setField ps (TPtr ft) raw = (case setField ps ft raw of Inl e \<Rightarrow> Inl e | Inr v \<Rightarrow> Inr (VPtr v))"
| "setField ps TDuration raw =
     (case ParseDuration ps raw of Inl e \<Rightarrow> Inl (invalid_wrap ''duration'' raw e) | Inr d \<Rightarrow> Inr (VDuration d))"
| "setField ps TURL raw =
     (case ParseURL ps raw of Inl e \<Rightarrow> Inl (invalid_wrap ''URL'' raw e) | Inr u \<Rightarrow> Inr (VURL u))"
| "setField ps TIP raw =
     (case ParseIP ps raw of None \<Rightarrow> Inl (invalid ''IP'' raw) | Some ip \<Rightarrow> Inr (VIP ip))"
| "setField ps TStrings raw = Inr (VStrings (splitTrimmed raw CHR '',''))"
| "setField ps TString raw = Inr (VString raw)"
| "setField ps TBool raw =
     (case ParseBool raw of None \<Rightarrow> Inl (invalid ''bool'' raw) | Some b \<Rightarrow> Inr (VBool b))"
| "setField ps (TInt bits) raw =
     (case ParseInt bits raw of None \<Rightarrow> Inl (invalid ''int'' raw) | Some n \<Rightarrow> Inr (VInt n))"
| "setField ps (TUint bits) raw =
     (case ParseUint bits raw of None \<Rightarrow> Inl (invalid ''uint'' raw) | Some n \<Rightarrow> Inr (VUint n))"
| "setField ps (TFloat bits) raw =
     (case ParseFloat ps bits raw of None \<Rightarrow> Inl (invalid ''float'' raw) | Some n \<Rightarrow> Inr (VFloat n))"
| "setField ps (TOther name) raw = Inl (Errorf [Lit ''unsupported type '', Lit name])"

section \<open>Parsing a struct\<close>

text \<open>The raw text for a tagged field: the variable, or else the default; empty counts as unset.\<close>

definition lookup_raw :: "env \<Rightarrow> tags \<Rightarrow> string \<times> bool" where
  "lookup_raw env t =
     (let (raw, isset) = (case env (tenv t) of None \<Rightarrow> ([], False) | Some r \<Rightarrow> (r, True))
      in if (\<not> isset \<or> raw = []) \<and> tdefault t \<noteq> [] then (tdefault t, True) else (raw, isset))"

definition parse_leaf :: "('u, 'i, 'f) parsers \<Rightarrow> env \<Rightarrow> tags \<Rightarrow> ftype \<Rightarrow> ('u, 'i, 'f) cval
    \<Rightarrow> string list \<times> ('u, 'i, 'f) cval" where
  "parse_leaf ps env t ft v =
     (if tenv t = [] then ([], v)
      else let (raw, isset) = lookup_raw env t in
        if \<not> isset \<or> raw = [] then
          (if trequired t = ''true''
           then ([''required env var '' @ Quote (tenv t) @ '' is not set''], v) else ([], v))
        else case setField ps ft raw of
               Inl e \<Rightarrow> ([''env var '' @ Quote (tenv t) @ '': '' @ err_Error e], v)
             | Inr v' \<Rightarrow> ([], v'))"

definition struct_error :: "string list \<Rightarrow> err option" where
  "struct_error errs = (if errs \<noteq> [] then Some (ErrNew (intersperse_concat ''; '' errs)) else None)"

fun parse_field :: "('u, 'i, 'f) parsers \<Rightarrow> env \<Rightarrow> ('u, 'i, 'f) cfield \<Rightarrow> string list \<times> ('u, 'i, 'f) cfield" where
  "parse_field ps env (CField t ft v) = (let (errs, v') = parse_leaf ps env t ft v in (errs, CField t ft v'))"
| "parse_field ps env (CStruct fs) =
     (let rs = map (parse_field ps env) fs
      in (case struct_error (concat (map fst rs)) of None \<Rightarrow> [] | Some e \<Rightarrow> [err_Error e],
          CStruct (map snd rs)))"

definition parseStruct :: "('u, 'i, 'f) parsers \<Rightarrow> env \<Rightarrow> ('u, 'i, 'f) cfield list
    \<Rightarrow> err option \<times> ('u, 'i, 'f) cfield list" where
  "parseStruct ps env fs =
     (let rs = map (parse_field ps env) fs in (struct_error (concat (map fst rs)), map snd rs))"

section \<open>The file\<close>

text \<open>\<open>os.Setenv\<close> rejects an empty name and NUL bytes; the loader ignores that error.\<close>

definition Setenv :: "string \<Rightarrow> string \<Rightarrow> env \<Rightarrow> env" where
  "Setenv k v env =
     (if k = [] \<or> CHR ''='' \<in> set k \<or> CHR 0x00 \<in> set k \<or> CHR 0x00 \<in> set v then env else env(k \<mapsto> v))"

text \<open>The binding on a line, if it has one: comments and lines without \<open>=\<close> have none.\<close>

definition env_binding :: "string \<Rightarrow> (string \<times> string) option" where
  "env_binding text =
     (let line = TrimSpace text in
      if line = [] \<or> HasPrefix line ''#'' then None
      else case Cut CHR ''='' line of
             None \<Rightarrow> None
           | Some (key, val) \<Rightarrow> Some (TrimSpace key, Trim [CHR 0x22, CHR 0x27] (TrimSpace val)))"

definition load_line :: "string \<Rightarrow> env \<Rightarrow> env" where
  "load_line text env =
     (case env_binding text of
        None \<Rightarrow> env
      | Some (key, val) \<Rightarrow> if env key = None then Setenv key val env else env)"

text \<open>A file is its lines and the error of the scanner, or cannot be opened.\<close>

type_synonym env_source = "err + string list \<times> err option"

definition loadEnvFile :: "env_source \<Rightarrow> env \<Rightarrow> err option \<times> env" where
  "loadEnvFile f env =
     (case f of
        Inl e \<Rightarrow> (Some e, env)
      | Inr (ls, scErr) \<Rightarrow> (scErr, fold load_line ls env))"

abbreviation ErrNotExist :: err where "ErrNotExist \<equiv> ErrNew ''file does not exist''"

record config_options =
  envFile :: string

definition WithEnvFile :: "string \<Rightarrow> config_options \<Rightarrow> config_options" where
  "WithEnvFile path o' = o'\<lparr>envFile := path\<rparr>"

text \<open>\<open>Load\<close>: the destination is \<open>None\<close> when it is not a pointer to a struct.\<close>

definition Load :: "('u, 'i, 'f) parsers \<Rightarrow> (string \<Rightarrow> env_source) \<Rightarrow> (config_options \<Rightarrow> config_options) list
    \<Rightarrow> env \<Rightarrow> ('u, 'i, 'f) cfield list option \<Rightarrow> err option \<times> env \<times> ('u, 'i, 'f) cfield list option" where
  "Load ps open_file opts env dst =
     (let cfg = fold (\<lambda>f c. f c) opts \<lparr>envFile = []\<rparr>;
          (fileErr, env1) = (if envFile cfg \<noteq> [] then loadEnvFile (open_file (envFile cfg)) env else (None, env))
      in case fileErr of
           Some e \<Rightarrow>
             if \<not> errors_Is e ErrNotExist
             then (Some (Errorf [Lit ''config: load env file '', Quoted (envFile cfg), Lit '': '', Wrapped e]), env1, dst)
             else (case dst of
                     None \<Rightarrow> (Some (ErrNew ''config: dst must be a non-nil pointer to a struct''), env1, None)
                   | Some fs \<Rightarrow> let (e', fs') = parseStruct ps env1 fs in (e', env1, Some fs'))
         | None \<Rightarrow>
             (case dst of
                None \<Rightarrow> (Some (ErrNew ''config: dst must be a non-nil pointer to a struct''), env1, None)
              | Some fs \<Rightarrow> let (e', fs') = parseStruct ps env1 fs in (e', env1, Some fs')))"

text \<open>\<open>MustLoad\<close> panics (\<open>None\<close>) when \<open>Load\<close> returns an error.\<close>

definition MustLoad :: "('u, 'i, 'f) parsers \<Rightarrow> (string \<Rightarrow> env_source) \<Rightarrow> (config_options \<Rightarrow> config_options) list
    \<Rightarrow> env \<Rightarrow> ('u, 'i, 'f) cfield list option \<Rightarrow> (env \<times> ('u, 'i, 'f) cfield list option) option" where
  "MustLoad ps open_file opts env dst =
     (case Load ps open_file opts env dst of (Some e, r) \<Rightarrow> None | (None, r) \<Rightarrow> Some r)"

section \<open>The environment file never overrides the process environment\<close>

text \<open>The bindings of a file that can be set, in order.\<close>

definition file_bindings :: "string list \<Rightarrow> (string \<times> string) list" where
  "file_bindings ls = [(k, v). Some (k, v) \<leftarrow> map env_binding ls,
     k \<noteq> [] \<and> CHR ''='' \<notin> set k \<and> CHR 0x00 \<notin> set k \<and> CHR 0x00 \<notin> set v]"

lemma file_bindings_Cons:
  "file_bindings (l # ls) =
     (case env_binding l of None \<Rightarrow> file_bindings ls
      | Some (k, v) \<Rightarrow> if k \<noteq> [] \<and> CHR ''='' \<notin> set k \<and> CHR 0x00 \<notin> set k \<and> CHR 0x00 \<notin> set v
          then (k, v) # file_bindings ls else file_bindings ls)"
  by (simp add: file_bindings_def split: option.split prod.split)

lemma load_line_lookup:
  "load_line l env k = (case env k of Some v \<Rightarrow> Some v | None \<Rightarrow> map_of (file_bindings [l]) k)"
  by (auto simp: load_line_def Setenv_def file_bindings_Cons file_bindings_def split: option.split prod.split)

lemma map_of_bindings_Cons:
  "map_of (file_bindings (l # ls)) k =
     (case map_of (file_bindings [l]) k of Some v \<Rightarrow> Some v | None \<Rightarrow> map_of (file_bindings ls) k)"
  unfolding file_bindings_Cons [of l] by (auto simp: file_bindings_def split: option.split prod.split)

lemma fold_load_line: "fold load_line ls env k = (case env k of None \<Rightarrow> map_of (file_bindings ls) k | Some v \<Rightarrow> Some v)"
proof (induction ls arbitrary: env)
  case (Cons l ls)
  then show ?case
    by (simp add: load_line_lookup map_of_bindings_Cons [of l ls] split: option.split)
qed (simp add: file_bindings_def split: option.split)

text \<open>
  Precedence: after \<open>loadEnvFile\<close> a variable that the process environment had keeps its value,
  and any other has the value of its first usable line in the file, or stays unset.
\<close>

theorem config_env_precedence:
  "snd (loadEnvFile (Inr (ls, e)) env) k =
     (case env k of Some v \<Rightarrow> Some v | None \<Rightarrow> map_of (file_bindings ls) k)"
  by (simp add: loadEnvFile_def fold_load_line)

section \<open>Every field is set, every failure is reported\<close>

text \<open>What a field should become, and whether it fails.\<close>

definition leaf_fails :: "('u, 'i, 'f) parsers \<Rightarrow> env \<Rightarrow> tags \<Rightarrow> ftype \<Rightarrow> bool" where
  "leaf_fails ps env t ft \<longleftrightarrow> tenv t \<noteq> [] \<and>
     (case lookup_raw env t of (raw, isset) \<Rightarrow>
        if \<not> isset \<or> raw = [] then trequired t = ''true'' else (\<exists>e. setField ps ft raw = Inl e))"

fun failing :: "('u, 'i, 'f) parsers \<Rightarrow> env \<Rightarrow> ('u, 'i, 'f) cfield \<Rightarrow> bool" where
  "failing ps env (CField t ft v) = leaf_fails ps env t ft"
| "failing ps env (CStruct fs) = list_ex (failing ps env) fs"

definition leaf_value :: "('u, 'i, 'f) parsers \<Rightarrow> env \<Rightarrow> tags \<Rightarrow> ftype \<Rightarrow> ('u, 'i, 'f) cval \<Rightarrow> ('u, 'i, 'f) cval" where
  "leaf_value ps env t ft v =
     (case lookup_raw env t of (raw, isset) \<Rightarrow>
        if tenv t = [] \<or> \<not> isset \<or> raw = [] then v
        else case setField ps ft raw of Inl e \<Rightarrow> v | Inr v' \<Rightarrow> v')"

fun loaded :: "('u, 'i, 'f) parsers \<Rightarrow> env \<Rightarrow> ('u, 'i, 'f) cfield \<Rightarrow> ('u, 'i, 'f) cfield" where
  "loaded ps env (CField t ft v) = CField t ft (leaf_value ps env t ft v)"
| "loaded ps env (CStruct fs) = CStruct (map (loaded ps env) fs)"

lemma parse_leaf_eq:
  "snd (parse_leaf ps env t ft v) = leaf_value ps env t ft v"
  "fst (parse_leaf ps env t ft v) = [] \<longleftrightarrow> \<not> leaf_fails ps env t ft"
  by (auto simp: parse_leaf_def leaf_value_def leaf_fails_def split: prod.split sum.split)

lemma struct_error_None: "struct_error errs = None \<longleftrightarrow> errs = []"
  by (simp add: struct_error_def)

lemma parse_field_eq:
  "snd (parse_field ps env f) = loaded ps env f \<and> (fst (parse_field ps env f) = [] \<longleftrightarrow> \<not> failing ps env f)"
proof (induction f)
  case (CField t ft v)
  then show ?case
    using parse_leaf_eq [where ps = ps and env = env and t = t and ft = ft and v = v]
    by (cases "parse_leaf ps env t ft v") simp
next
  case (CStruct fs)
  then have "concat (map fst (map (parse_field ps env) fs)) = [] \<longleftrightarrow> \<not> list_ex (failing ps env) fs"
    by (auto simp: list_ex_iff)
  then have "struct_error (concat (map fst (map (parse_field ps env) fs))) = None \<longleftrightarrow> \<not> list_ex (failing ps env) fs"
    by (simp only: struct_error_None)
  moreover have "map snd (map (parse_field ps env) fs) = map (loaded ps env) fs" using CStruct by simp
  ultimately show ?case by (auto simp: Let_def simp del: map_map split: option.split)
qed


text \<open>
  Integers survive the round trip through the environment: a signed or unsigned field of any
  width set from the decimal text of \<open>n\<close> becomes \<open>n\<close> exactly when \<open>n\<close> fits the width, and is an
  error otherwise.
\<close>

theorem config_int_roundtrip:
  "setField ps (TInt bits) (Itoa n) =
     (if - (2 ^ (bits - 1)) \<le> n \<and> n < 2 ^ (bits - 1) then Inr (VInt n) else Inl (invalid ''int'' (Itoa n))) \<and>
   setField ps (TUint bits) (Itoa (int m)) =
     (if int m < 2 ^ bits then Inr (VUint (int m)) else Inl (invalid ''uint'' (Itoa (int m))))"
  by (simp add: ParseInt_Itoa ParseUint_Itoa)

end
