(* ===== verification/Validation.thy ===== *)
theory Validation
  imports GoStrings Floats
begin

text \<open>
  The struct validator of \<open>pkg/validation/validation.go\<close>. A struct is the list of its fields, each
  with its name, its tags and its value; reflection is a data type of values. The URL parser,
  regular expressions, \<open>strconv.ParseFloat\<close> and the printing of floats are parameters.
\<close>

section \<open>Values, fields and errors\<close>

text \<open>
  A value by its kind: a string, a slice, map or array (its length), a pointer or interface
  (whether it is nil), integers, floats, and anything else (whether it is the zero value).
\<close>

datatype fval =
    FString string | FLen nat | FPtr bool | FInt int | FUint int | FFloat rat | FOther bool

datatype vfield =
    VField string string string fval
  | VStruct string "vfield list"

text \<open>\<open>VField name json validate value\<close>; a nested struct without a \<open>validate\<close> tag is a \<open>VStruct\<close>.\<close>

record vlib =
  ParseFloat64 :: "string \<Rightarrow> rat option"
  FormatFloat :: "rat \<Rightarrow> string"
  ParseRequestURI :: "string \<Rightarrow> (string \<times> string) option"
  CompileRegex :: "string \<Rightarrow> err + (string \<Rightarrow> bool)"

text \<open>The field map of \<open>Error\<close>: field names with the messages added for them.\<close>

type_synonym verror = "string \<Rightarrow> string list option"

definition add :: "string \<Rightarrow> string \<Rightarrow> verror \<Rightarrow> verror" where
  "add field msg ve = ve(field \<mapsto> (case ve field of None \<Rightarrow> [] | Some ms \<Rightarrow> ms) @ [msg])"

text \<open>
  The text of an error, for the order \<open>ks\<close> in which the iteration gives the keys of the map; the
  last separator is trimmed.
\<close>

definition TrimSuffix :: "string \<Rightarrow> string \<Rightarrow> string" where
  "TrimSuffix s suf = (if length suf \<le> length s \<and> drop (length s - length suf) s = suf then take (length s - length suf) s else s)"

definition verror_Error :: "string list \<Rightarrow> verror \<Rightarrow> string" where
  "verror_Error ks e =
     TrimSuffix (concat (map (\<lambda>f. f @ '': '' @ intersperse_concat '', '' (the (e f)) @ ''; '') ks)) ''; ''"

section \<open>The rules\<close>

definition toString :: "fval \<Rightarrow> string option" where
  "toString fv = (case fv of FString s \<Rightarrow> Some s | _ \<Rightarrow> None)"

definition checkRequired :: "fval \<Rightarrow> string" where
  "checkRequired fv =
     (case fv of
        FString s \<Rightarrow> if s = [] then ''is required'' else []
      | FLen n \<Rightarrow> if n = 0 then ''is required'' else []
      | FPtr nil \<Rightarrow> if nil then ''is required'' else []
      | FInt n \<Rightarrow> if n = 0 then ''is required'' else []
      | FUint n \<Rightarrow> if n = 0 then ''is required'' else []
      | FFloat x \<Rightarrow> if x = 0 then ''is required'' else []
      | FOther zero \<Rightarrow> if zero then ''is required'' else [])"

text \<open>The signs for at least and at most are three bytes of UTF-8.\<close>

definition ge_sign :: string where "ge_sign = [CHR 0xE2, CHR 0x89, CHR 0xA5]"
definition le_sign :: string where "le_sign = [CHR 0xE2, CHR 0x89, CHR 0xA4]"

definition checkMin :: "fpu \<Rightarrow> vlib \<Rightarrow> fval \<Rightarrow> rat \<Rightarrow> string" where
  "checkMin fp lib fv n =
     (case fv of
        FString s \<Rightarrow>
          if i2f fp (int (RuneCount s)) < n then ''must be at least '' @ FormatFloat lib n @ '' characters'' else []
      | FLen len \<Rightarrow> if i2f fp (int len) < n then ''must have at least '' @ FormatFloat lib n @ '' items'' else []
      | FInt x \<Rightarrow> if i2f fp x < n then ''must be '' @ ge_sign @ '' '' @ FormatFloat lib n else []
      | FUint x \<Rightarrow> if i2f fp x < n then ''must be '' @ ge_sign @ '' '' @ FormatFloat lib n else []
      | FFloat x \<Rightarrow> if x < n then ''must be '' @ ge_sign @ '' '' @ FormatFloat lib n else []
      | _ \<Rightarrow> [])"

definition checkMax :: "fpu \<Rightarrow> vlib \<Rightarrow> fval \<Rightarrow> rat \<Rightarrow> string" where
  "checkMax fp lib fv n =
     (case fv of
        FString s \<Rightarrow>
          if n < i2f fp (int (RuneCount s)) then ''must be at most '' @ FormatFloat lib n @ '' characters'' else []
      | FLen len \<Rightarrow> if n < i2f fp (int len) then ''must have at most '' @ FormatFloat lib n @ '' items'' else []
      | FInt x \<Rightarrow> if n < i2f fp x then ''must be '' @ le_sign @ '' '' @ FormatFloat lib n else []
      | FUint x \<Rightarrow> if n < i2f fp x then ''must be '' @ le_sign @ '' '' @ FormatFloat lib n else []
      | FFloat x \<Rightarrow> if n < x then ''must be '' @ le_sign @ '' '' @ FormatFloat lib n else []
      | _ \<Rightarrow> [])"

definition checkEmail :: "string \<Rightarrow> string" where
  "checkEmail s =
     (let i = LastIndex s CHR ''@'' in
      if i < 1 \<or> int (length s) - 3 \<le> i then ''must be a valid email address''
      else let domain = drop (nat (i + 1)) s in
        if CHR ''.'' \<notin> set domain then ''must be a valid email address'' else [])"

definition checkURL :: "vlib \<Rightarrow> string \<Rightarrow> string" where
  "checkURL lib s =
     (case ParseRequestURI lib s of
        None \<Rightarrow> ''must be a valid URL''
      | Some (scheme, host) \<Rightarrow> if scheme = [] \<or> host = [] then ''must be a valid URL'' else [])"

definition checkOneOf :: "string \<Rightarrow> string list \<Rightarrow> string" where
  "checkOneOf s options =
     (if s \<in> set options then [] else ''must be one of ['' @ intersperse_concat '', '' options @ '']'')"

definition checkRegex :: "vlib \<Rightarrow> string \<Rightarrow> string \<Rightarrow> string" where
  "checkRegex lib s pattern =
     (case CompileRegex lib pattern of
        Inl e \<Rightarrow> ''invalid regex pattern: '' @ err_Error e
      | Inr match \<Rightarrow> if \<not> match s then ''must match pattern '' @ Quote pattern else [])"

definition on_string :: "fval \<Rightarrow> (string \<Rightarrow> string) \<Rightarrow> string" where
  "on_string fv check = (case toString fv of None \<Rightarrow> [] | Some s \<Rightarrow> if s = [] then [] else check s)"

definition applyRule :: "fpu \<Rightarrow> vlib \<Rightarrow> string \<Rightarrow> fval \<Rightarrow> string" where
  "applyRule fp lib rule fv =
     (if rule = ''required'' then checkRequired fv
      else if rule = ''email'' then on_string fv checkEmail
      else if rule = ''url'' then on_string fv (checkURL lib)
      else if HasPrefix rule ''min='' then
        (case ParseFloat64 lib (TrimPrefix rule ''min='') of None \<Rightarrow> [] | Some n \<Rightarrow> checkMin fp lib fv n)
      else if HasPrefix rule ''max='' then
        (case ParseFloat64 lib (TrimPrefix rule ''max='') of None \<Rightarrow> [] | Some n \<Rightarrow> checkMax fp lib fv n)
      else if HasPrefix rule ''oneof='' then
        on_string fv (\<lambda>s. checkOneOf s (Split CHR ''|'' (TrimPrefix rule ''oneof='')))
      else if HasPrefix rule ''regex='' then
        on_string fv (\<lambda>s. checkRegex lib s (TrimPrefix rule ''regex=''))
      else [])"

section \<open>Validating a struct\<close>

definition rules_of :: "string \<Rightarrow> string list" where
  "rules_of tag = map TrimSpace (Split CHR '','' tag)"

definition field_name :: "string \<Rightarrow> string \<Rightarrow> string" where
  "field_name name json = (if json \<noteq> [] then hd (Split CHR '','' json) else name)"

definition apply_rules :: "fpu \<Rightarrow> vlib \<Rightarrow> string \<Rightarrow> string list \<Rightarrow> fval \<Rightarrow> verror \<Rightarrow> verror" where
  "apply_rules fp lib name rules fv ve =
     fold (\<lambda>rule ve. let msg = applyRule fp lib rule fv in if msg \<noteq> [] then add name msg ve else ve) rules ve"

text \<open>
  The entries of a nested error are copied under the prefixed name; the copy overwrites what was
  there.
\<close>

definition merge_nested :: "string \<Rightarrow> verror \<Rightarrow> verror \<Rightarrow> verror" where
  "merge_nested name nested ve =
     (\<lambda>k. if prefix (name @ ''.'') k \<and> nested (drop (length name + 1) k) \<noteq> None
          then nested (drop (length name + 1) k) else ve k)"

fun validate_field :: "fpu \<Rightarrow> vlib \<Rightarrow> vfield \<Rightarrow> verror \<Rightarrow> verror" where
  "validate_field fp lib (VStruct name fs) ve =
     merge_nested name (fold (validate_field fp lib) fs Map.empty) ve"
| "validate_field fp lib (VField name json tag fv) ve =
     (if tag = [] then ve else apply_rules fp lib (field_name name json) (rules_of tag) fv ve)"

definition validateStruct :: "fpu \<Rightarrow> vlib \<Rightarrow> vfield list \<Rightarrow> verror option" where
  "validateStruct fp lib fs =
     (let ve = fold (validate_field fp lib) fs Map.empty in if ve = Map.empty then None else Some ve)"

text \<open>\<open>Validate\<close>: the destination is a struct, or a value of another type with the type's name.\<close>

definition Validate :: "fpu \<Rightarrow> vlib \<Rightarrow> string + vfield list \<Rightarrow> (string + verror) option" where
  "Validate fp lib dst =
     (case dst of
        Inl type \<Rightarrow> Some (Inl (''validation: expected struct, got '' @ type))
      | Inr fs \<Rightarrow> map_option Inr (validateStruct fp lib fs))"

text \<open>The text lists the fields with their messages, separated by semicolons.\<close>

lemma concat_separated:
  "xs \<noteq> [] \<Longrightarrow> concat (map (\<lambda>x. f x @ sep) xs) = intersperse_concat sep (map f xs) @ sep"
proof (induction xs)
  case (Cons x xs)
  then show ?case by (cases xs) simp_all
qed simp

lemma verror_Error_text:
  "verror_Error ks e = intersperse_concat ''; '' (map (\<lambda>f. f @ '': '' @ intersperse_concat '', '' (the (e f))) ks)"
proof (cases "ks = []")
  case False
  from concat_separated [OF this, of "\<lambda>f. f @ '': '' @ intersperse_concat '', '' (the (e f))" "''; ''"] show ?thesis
    by (simp add: verror_Error_def TrimSuffix_def)
qed (simp add: verror_Error_def TrimSuffix_def)

section \<open>Validation accepts exactly the valid structs\<close>

definition leaf_valid :: "fpu \<Rightarrow> vlib \<Rightarrow> string \<Rightarrow> fval \<Rightarrow> bool" where
  "leaf_valid fp lib tag fv \<longleftrightarrow> tag = [] \<or> (\<forall>rule \<in> set (rules_of tag). applyRule fp lib rule fv = [])"

fun valid :: "fpu \<Rightarrow> vlib \<Rightarrow> vfield \<Rightarrow> bool" where
  "valid fp lib (VStruct name fs) \<longleftrightarrow> list_all (valid fp lib) fs"
| "valid fp lib (VField name json tag fv) \<longleftrightarrow> leaf_valid fp lib tag fv"

lemma apply_rules_Cons:
  "apply_rules fp lib name (r # rules) fv ve =
     apply_rules fp lib name rules fv
       (if applyRule fp lib r fv = [] then ve else add name (applyRule fp lib r fv) ve)"
  by (simp add: apply_rules_def)

lemma dom_add: "dom (add name msg ve) = insert name (dom ve)"
  by (simp add: add_def)

lemma apply_rules_dom:
  "dom (apply_rules fp lib name rules fv ve) =
     dom ve \<union> (if \<exists>rule \<in> set rules. applyRule fp lib rule fv \<noteq> [] then {name} else {})"
proof (induction rules arbitrary: ve)
  case (Cons r rules)
  then show ?case unfolding apply_rules_Cons by (simp add: dom_add)
qed (simp add: apply_rules_def)

lemma apply_rules_valid:
  "\<forall>rule \<in> set rules. applyRule fp lib rule fv = [] \<Longrightarrow> apply_rules fp lib name rules fv ve = ve"
  unfolding apply_rules_def by (induction rules arbitrary: ve) auto

lemma merge_grows: "dom ve \<subseteq> dom (merge_nested name nested ve)"
  by (auto simp: merge_nested_def)

lemma merge_nested_k: "k \<in> dom nested \<Longrightarrow> name @ ''.'' @ k \<in> dom (merge_nested name nested ve)"
  by (auto simp: merge_nested_def)

lemma merge_empty: "merge_nested name Map.empty ve = ve"
  by (simp add: merge_nested_def fun_eq_iff)

lemma validate_field_grows: "dom ve \<subseteq> dom (validate_field fp lib f ve)"
  by (cases f) (simp_all add: merge_grows apply_rules_dom)

lemma fold_grows: "dom ve \<subseteq> dom (fold (validate_field fp lib) fs ve)"
proof (induction fs arbitrary: ve)
  case (Cons f fs)
  then show ?case using validate_field_grows [of ve fp lib f] by (metis fold_simps(2) order_trans)
qed simp

lemma fold_valid_id:
  "\<forall>f \<in> set fs. \<forall>ve. validate_field fp lib f ve = ve \<Longrightarrow> fold (validate_field fp lib) fs ve = ve"
  by (induction fs arbitrary: ve) auto

lemma fold_invalid:
  assumes "f \<in> set fs" "\<And>ve. dom (validate_field fp lib f ve) \<noteq> {}"
  shows "dom (fold (validate_field fp lib) fs ve) \<noteq> {}"
  using assms(1)
proof (induction fs arbitrary: ve)
  case (Cons g fs)
  show ?case
  proof (cases "g = f")
    case True
    then show ?thesis
      using fold_grows [of "validate_field fp lib f ve" fp lib fs] assms(2) [of ve] by auto
  next
    case False
    then show ?thesis using Cons by simp
  qed
qed simp

lemma validate_field_valid:
  "if valid fp lib f then (\<forall>ve. validate_field fp lib f ve = ve)
   else (\<forall>ve. dom (validate_field fp lib f ve) \<noteq> {})"
proof (induction f)
  case (VField name json tag fv)
  show ?case
  proof (cases "leaf_valid fp lib tag fv")
    case True
    then show ?thesis by (auto simp: leaf_valid_def apply_rules_valid)
  next
    case False
    then show ?thesis by (auto simp: leaf_valid_def apply_rules_dom)
  qed
next
  case (VStruct name fs)
  show ?case
  proof (cases "list_all (valid fp lib) fs")
    case True
    then have "fold (validate_field fp lib) fs Map.empty = Map.empty"
      using VStruct by (intro fold_valid_id) (simp add: list_all_iff)
    with True show ?thesis by (simp add: merge_empty)
  next
    case False
    then obtain f where "f \<in> set fs" "\<not> valid fp lib f" by (auto simp: list_all_iff)
    then have "dom (fold (validate_field fp lib) fs Map.empty) \<noteq> {}"
      using VStruct [of f] by (intro fold_invalid [of f]) simp_all
    then obtain k where "k \<in> dom (fold (validate_field fp lib) fs Map.empty)" by blast
    then show ?thesis using False merge_nested_k [of k] by (metis empty_iff valid.simps(1) validate_field.simps(1))
  qed
qed

text \<open>
  \<open>Validate\<close> returns nil exactly when every field of the struct and of its nested structs
  passes all the rules of its tag; it never returns an error without an entry.
\<close>

theorem validation_accepts:
  "(Validate fp lib (Inr fs) = None \<longleftrightarrow> list_all (valid fp lib) fs) \<and>
   Validate fp lib (Inr fs) \<noteq> Some (Inr Map.empty)"
proof -
  let ?ve = "fold (validate_field fp lib) fs Map.empty"
  have "?ve = Map.empty" if "list_all (valid fp lib) fs"
  proof (intro fold_valid_id ballI)
    fix f
    assume "f \<in> set fs"
    then show "\<forall>ve. validate_field fp lib f ve = ve"
      using that validate_field_valid [of fp lib f] by (simp add: list_all_iff)
  qed
  moreover have "dom ?ve \<noteq> {}" if bad: "\<not> list_all (valid fp lib) fs"
  proof -
    obtain f where "f \<in> set fs" "\<not> valid fp lib f" using bad by (auto simp: list_all_iff)
    then show ?thesis using validate_field_valid [of fp lib f] by (intro fold_invalid [of f]) simp_all
  qed
  ultimately have "?ve = Map.empty \<longleftrightarrow> list_all (valid fp lib) fs" by fastforce
  then show ?thesis by (auto simp: Validate_def validateStruct_def Let_def fun_eq_iff)
qed

section \<open>Addresses\<close>

lemma LastIndex_split:
  assumes "c \<notin> set b"
  shows "LastIndex (a @ c # b) c = int (length a)"
proof -
  have "takeWhile (\<lambda>x. x \<noteq> c) (rev b @ [c] @ rev a) = rev b"
    using assms by (subst takeWhile_append2) auto
  then show ?thesis by (simp add: LastIndex_def)
qed

lemma LastIndex_none: "c \<notin> set s \<Longrightarrow> LastIndex s c = - 1"
  by (simp add: LastIndex_def)

text \<open>
  The email rule accepts exactly the strings that split at their last \<open>@\<close> into a non-empty
  local part and a domain of at least three bytes that contains a dot.
\<close>

theorem validation_checkEmail:
  "checkEmail s = [] \<longleftrightarrow>
     (\<exists>name domain. s = name @ CHR ''@'' # domain \<and> CHR ''@'' \<notin> set domain \<and> name \<noteq> [] \<and>
        3 \<le> length domain \<and> CHR ''.'' \<in> set domain)"
proof (cases "CHR ''@'' \<in> set s")
  case False
  then show ?thesis by (auto simp: checkEmail_def LastIndex_none)
next
  case True
  then obtain name domain where s: "s = name @ CHR ''@'' # domain" "CHR ''@'' \<notin> set domain"
    by (metis split_list_last)
  have "checkEmail s = [] \<longleftrightarrow> name \<noteq> [] \<and> 3 \<le> length domain \<and> CHR ''.'' \<in> set domain"
    using LastIndex_split [OF s(2), of name] by (auto simp: checkEmail_def s(1) nat_add_distrib)
  moreover have "name' = name \<and> domain' = domain"
    if "s = name' @ CHR ''@'' # domain'" "CHR ''@'' \<notin> set domain'" for name' domain'
  proof -
    have "length name' = length name"
      using LastIndex_split [OF s(2), of name] LastIndex_split [OF that(2), of name'] that(1) s(1) by simp
    with that(1) s(1) show ?thesis by simp
  qed
  ultimately show ?thesis using s by blast
qed

text \<open>
  A tag is split at every comma, also at one inside a regular expression: the rule below becomes
  an incomplete pattern and a rule that does not exist.
\<close>

lemma validation_regex_comma:
  "rules_of ''regex=^a{1,3}$'' = [''regex=^a{1'', ''3}$'']"
  by (simp add: rules_of_def TrimSpace_def strip_seqs_id space_seqs_def)

end
