(* ===== verification/Feature.thy ===== *)
theory Feature
  imports GoStd
begin

text \<open>
  The feature flags of \<open>pkg/feature/feature.go\<close>. Redis is a world with the operations the store
  uses as parameters; JSON encoding and decoding are parameters; logging is left out.
\<close>

section \<open>Flags and the store\<close>

record Flag =
  Enabled :: bool
  Percentage :: int
  AllowList :: "string list"
  UpdatedAt :: gotime

definition zero_Flag :: Flag where
  "zero_Flag = \<lparr>Enabled = False, Percentage = 0, AllowList = [], UpdatedAt = 0\<rparr>"

text \<open>
  What the store uses of Redis: \<open>GET\<close> (the bytes, nothing when the key is missing, or an error),
  \<open>SET\<close>, \<open>DEL\<close> and \<open>SCAN\<close> (keys and the next cursor).
\<close>

record 'w redis =
  rGet :: "string \<Rightarrow> ('w, err + string option) action"
  rSet :: "string \<Rightarrow> string \<Rightarrow> ('w, err option) action"
  rDel :: "string \<Rightarrow> ('w, err option) action"
  rScan :: "nat \<Rightarrow> string \<Rightarrow> ('w, err + string list \<times> nat) action"

record codec =
  marshal :: "Flag \<Rightarrow> err + string"
  unmarshal :: "string \<Rightarrow> err + Flag"

record 'w store =
  client :: "'w redis"
  namespace :: string
  json :: codec

definition WithNamespace :: "string \<Rightarrow> 'w store \<Rightarrow> 'w store" where
  "WithNamespace ns s = s\<lparr>namespace := ns\<rparr>"

definition NewStore :: "'w redis \<Rightarrow> codec \<Rightarrow> ('w store \<Rightarrow> 'w store) list \<Rightarrow> 'w store" where
  "NewStore cl js opts = fold (\<lambda>f s. f s) opts \<lparr>client = cl, namespace = ''gkit'', json = js\<rparr>"

definition key :: "'w store \<Rightarrow> string \<Rightarrow> string" where
  "key s name = namespace s @ '':flags:'' @ name"

definition feature_err :: "string \<Rightarrow> string \<Rightarrow> err \<Rightarrow> err" where
  "feature_err what name e = Errorf [Lit (''feature: '' @ what @ '' ''), Quoted name, Lit '': '', Wrapped e]"

definition store_Set :: "'w store \<Rightarrow> gotime \<Rightarrow> string \<Rightarrow> Flag \<Rightarrow> ('w, err option) action" where
  "store_Set s now name flag w =
     (case marshal (json s) (flag\<lparr>UpdatedAt := now\<rparr>) of
        Inl e \<Rightarrow> (Some (feature_err ''marshal'' name e), w)
      | Inr raw \<Rightarrow>
          (case rSet (client s) (key s name) raw w of
             (Some e, w1) \<Rightarrow> (Some (feature_err ''set'' name e), w1)
           | (None, w1) \<Rightarrow> (None, w1)))"

definition store_Get :: "'w store \<Rightarrow> string \<Rightarrow> ('w, (Flag \<times> bool) \<times> err option) action" where
  "store_Get s name w =
     (case rGet (client s) (key s name) w of
        (Inl e, w1) \<Rightarrow> (((zero_Flag, False), Some (feature_err ''get'' name e)), w1)
      | (Inr None, w1) \<Rightarrow> (((zero_Flag, False), None), w1)
      | (Inr (Some raw), w1) \<Rightarrow>
          (case unmarshal (json s) raw of
             Inl e \<Rightarrow> (((zero_Flag, False), Some (feature_err ''unmarshal'' name e)), w1)
           | Inr f \<Rightarrow> (((f, True), None), w1)))"

definition store_Delete :: "'w store \<Rightarrow> string \<Rightarrow> ('w, err option) action" where
  "store_Delete s name w =
     (case rDel (client s) (key s name) w of
        (Some e, w1) \<Rightarrow> (Some (feature_err ''delete'' name e), w1)
      | (None, w1) \<Rightarrow> (None, w1))"

section \<open>Evaluation\<close>

text \<open>FNV-1a on 64-bit words.\<close>

definition fnv_step :: "char \<Rightarrow> 64 word \<Rightarrow> 64 word" where
  "fnv_step c h = xor h (word_of_nat (of_char c)) * 1099511628211"

definition fnv64a :: "string \<Rightarrow> 64 word" where
  "fnv64a s = fold fnv_step s 14695981039346656037"

definition hashBucket :: "string \<Rightarrow> nat \<Rightarrow> int" where
  "hashBucket k buckets = uint (fnv64a k mod word_of_nat buckets)"

definition IsEnabled :: "'w store \<Rightarrow> string \<Rightarrow> ('w, bool) action" where
  "IsEnabled s name w =
     (let (((f, ok), err), w1) = store_Get s name w
      in (if err \<noteq> None then False
          else ok \<and> Enabled f \<and> (Percentage f = 0 \<or> 100 \<le> Percentage f) \<and> length (AllowList f) = 0, w1))"

definition enabled_for :: "string \<Rightarrow> string \<Rightarrow> Flag \<Rightarrow> bool" where
  "enabled_for name entityID f =
     (if entityID \<in> set (AllowList f) then True
      else if 0 < Percentage f then hashBucket (name @ '':'' @ entityID) 100 < Percentage f
      else True)"

definition IsEnabledFor :: "'w store \<Rightarrow> string \<Rightarrow> string \<Rightarrow> ('w, bool) action" where
  "IsEnabledFor s name entityID w =
     (let (((f, ok), err), w1) = store_Get s name w
      in (if err \<noteq> None then False
          else if \<not> ok \<or> \<not> Enabled f then False
          else enabled_for name entityID f, w1))"

text \<open>
  \<open>ListAll\<close> follows the cursor of \<open>SCAN\<close> until it is 0 again; the number of turns is bounded by
  fuel, and \<open>None\<close> is a scan that has not finished.
\<close>

definition list_keys :: "'w store \<Rightarrow> string list \<Rightarrow> (string \<Rightarrow> Flag option) \<times> 'w \<Rightarrow> (string \<Rightarrow> Flag option) \<times> 'w" where
  "list_keys s ks fw =
     fold (\<lambda>k (flags, w).
        case rGet (client s) k w of
          (Inr (Some raw), w1) \<Rightarrow>
            (case unmarshal (json s) raw of
               Inl e \<Rightarrow> (flags, w1)
             | Inr f \<Rightarrow> (flags(drop (length (key s [])) k \<mapsto> f), w1))
        | (_, w1) \<Rightarrow> (flags, w1)) ks fw"

fun list_loop :: "nat \<Rightarrow> 'w store \<Rightarrow> nat \<Rightarrow> (string \<Rightarrow> Flag option) \<Rightarrow> 'w
    \<Rightarrow> ((err + (string \<Rightarrow> Flag option)) \<times> 'w) option" where
  "list_loop 0 s cursor flags w = None"
| "list_loop (Suc n) s cursor flags w =
     (case rScan (client s) cursor (key s ''*'') w of
        (Inl e, w1) \<Rightarrow> Some (Inl (Errorf [Lit ''feature: scan: '', Wrapped e]), w1)
      | (Inr (ks, nxt), w1) \<Rightarrow>
          (let (flags', w2) = list_keys s ks (flags, w1)
           in if nxt = 0 then Some (Inr flags', w2) else list_loop n s nxt flags' w2))"

definition ListAll :: "nat \<Rightarrow> 'w store \<Rightarrow> 'w \<Rightarrow> ((err + (string \<Rightarrow> Flag option)) \<times> 'w) option" where
  "ListAll fuel s w = list_loop fuel s 0 Map.empty w"

section \<open>The rollout\<close>

lemma hashBucket_range:
  assumes "0 < buckets" "buckets < 2 ^ 64"
  shows "0 \<le> hashBucket k buckets" "hashBucket k buckets < int buckets"
proof -
  have b: "uint (word_of_nat buckets :: 64 word) = int buckets"
    using assms(2) by (simp add: unsigned_of_nat take_bit_nat_eq_self)
  show "0 \<le> hashBucket k buckets" by (simp add: hashBucket_def)
  show "hashBucket k buckets < int buckets" using assms(1) by (simp add: hashBucket_def uint_mod b)
qed

text \<open>
  What the store relies on: Redis keeps the value that was set for a key and the values of the
  other keys, and decoding undoes encoding.
\<close>

definition redis_ok :: "'w store \<Rightarrow> ('w \<Rightarrow> string \<Rightarrow> string option) \<Rightarrow> bool" where
  "redis_ok s data \<longleftrightarrow>
     (\<forall>k w. rGet (client s) k w = (Inr (data w k), w)) \<and>
     (\<forall>k v w. fst (rSet (client s) k v w) = None \<and> data (snd (rSet (client s) k v w)) = (data w)(k \<mapsto> v)) \<and>
     (\<forall>k w. fst (rDel (client s) k w) = None \<and> data (snd (rDel (client s) k w)) = (data w)(k := None))"

definition codec_ok :: "'w store \<Rightarrow> Flag \<Rightarrow> bool" where
  "codec_ok s f \<longleftrightarrow> (\<exists>raw. marshal (json s) f = Inr raw \<and> unmarshal (json s) raw = Inr f)"

lemma key_inject: "key s a = key s b \<longleftrightarrow> a = b"
  by (simp add: key_def)

lemma Get_after_Set:
  assumes "redis_ok s data" "codec_ok s (f\<lparr>UpdatedAt := now\<rparr>)"
  shows "fst (store_Set s now name f w) = None"
    "fst (store_Get s name' (snd (store_Set s now name f w))) =
       (if name' = name then ((f\<lparr>UpdatedAt := now\<rparr>, True), None) else fst (store_Get s name' w))"
proof -
  obtain raw where raw: "marshal (json s) (f\<lparr>UpdatedAt := now\<rparr>) = Inr raw" "unmarshal (json s) raw = Inr (f\<lparr>UpdatedAt := now\<rparr>)"
    using assms(2) by (auto simp: codec_ok_def)
  obtain w1 where w1: "rSet (client s) (key s name) raw w = (None, w1)" "data w1 = (data w)(key s name \<mapsto> raw)"
    using assms by (metis redis_ok_def prod.collapse)
  have g: "rGet (client s) k v = (Inr (data v k), v)" for k v using assms by (simp add: redis_ok_def)
  show "fst (store_Set s now name f w) = None" by (simp add: store_Set_def raw w1)
  show "fst (store_Get s name' (snd (store_Set s now name f w))) =
       (if name' = name then ((f\<lparr>UpdatedAt := now\<rparr>, True), None) else fst (store_Get s name' w))"
    by (auto simp: store_Set_def store_Get_def raw w1 g key_inject split: option.split sum.split)
qed

text \<open>The answer for an entity after the flag was set.\<close>

definition answer :: "'w store \<Rightarrow> 'w \<Rightarrow> gotime \<Rightarrow> string \<Rightarrow> Flag \<Rightarrow> string \<Rightarrow> string \<Rightarrow> bool" where
  "answer s w now name f name' e = fst (IsEnabledFor s name' e (snd (store_Set s now name f w)))"

lemma IsEnabledFor_eq:
  "fst (IsEnabledFor s n e v) =
     (case fst (store_Get s n v) of ((f, ok), err) \<Rightarrow> err = None \<and> ok \<and> Enabled f \<and> enabled_for n e f)"
  by (auto simp: IsEnabledFor_def case_prod_beta)

lemma answer_eq:
  assumes "redis_ok s data" "codec_ok s (f\<lparr>UpdatedAt := now\<rparr>)"
  shows "answer s w now name f name' e =
    (if name' = name then Enabled f \<and> enabled_for name e f else fst (IsEnabledFor s name' e w))"
  by (auto simp: answer_def IsEnabledFor_eq Get_after_Set(2) [OF assms] enabled_for_def)

text \<open>
  A flag that was set governs the evaluation: after \<open>Set\<close> of an enabled flag, \<open>IsEnabledFor\<close> is
  true for every entity of the allow list; with a percentage \<open>p\<close> from 1 to 99 it is true for the
  other entities exactly when their hash bucket is below \<open>p\<close>, so raising the percentage never
  turns the flag off for an entity that had it, and from 100 on it is on for everyone; a
  disabled flag is off for everyone; other flags are not affected.
\<close>

theorem feature_rollout:
  assumes "redis_ok s data" "codec_ok s (f\<lparr>UpdatedAt := now\<rparr>)"
    "codec_ok s (f\<lparr>Percentage := p, UpdatedAt := now\<rparr>)"
  shows "(Enabled f \<and> e \<in> set (AllowList f) \<longrightarrow> answer s w now name f name e) \<and>
    (Enabled f \<and> 0 < Percentage f \<and> e \<notin> set (AllowList f) \<longrightarrow>
       (answer s w now name f name e \<longleftrightarrow> hashBucket (name @ '':'' @ e) 100 < Percentage f)) \<and>
    (0 < Percentage f \<and> Percentage f \<le> p \<and> answer s w now name f name e \<longrightarrow>
       answer s w now name (f\<lparr>Percentage := p\<rparr>) name e) \<and>
    (Enabled f \<and> 100 \<le> Percentage f \<longrightarrow> answer s w now name f name e) \<and>
    (\<not> Enabled f \<longrightarrow> \<not> answer s w now name f name e) \<and>
    (name' \<noteq> name \<longrightarrow> answer s w now name f name' e = fst (IsEnabledFor s name' e w))"
proof -
  have "hashBucket (name @ '':'' @ e) 100 < 100" using hashBucket_range(2) [of 100] by simp
  then show ?thesis
    using answer_eq [OF assms(1,2)] answer_eq [OF assms(1), where f = "f\<lparr>Percentage := p\<rparr>" and now = now] assms(3)
    by (auto simp: enabled_for_def)
qed

text \<open>A Redis that is a map.\<close>

definition map_redis :: "(string \<Rightarrow> string option) redis" where
  "map_redis = \<lparr>rGet = \<lambda>k w. (Inr (w k), w), rSet = \<lambda>k v w. (None, w(k \<mapsto> v)),
     rDel = \<lambda>k w. (None, w(k := None)), rScan = \<lambda>c p w. (Inr ([], 0), w)\<rparr>"

definition demo_flag :: Flag where
  "demo_flag = \<lparr>Enabled = True, Percentage = 0, AllowList = [''u1''], UpdatedAt = 5\<rparr>"

definition demo_store :: "(string \<Rightarrow> string option) store" where
  "demo_store = NewStore map_redis \<lparr>marshal = \<lambda>_. Inr [], unmarshal = \<lambda>_. Inr demo_flag\<rparr> []"

lemma demo_store_ok: "redis_ok demo_store (\<lambda>w. w)" "codec_ok demo_store demo_flag"
  by (simp_all add: redis_ok_def codec_ok_def demo_store_def NewStore_def map_redis_def)

theorem feature_rollout_witness:
  "answer demo_store Map.empty 5 ''dark'' demo_flag ''dark'' ''u1''"
  using feature_rollout [OF demo_store_ok(1), where f = demo_flag and now = 5 and p = 0 and e = "''u1''"]
    demo_store_ok(2) by (simp add: demo_flag_def)

text \<open>
  The evaluation of a flag without percentage: an enabled flag whose percentage is 0 is on for
  every entity, also when it has an allow list that the entity is not on; while \<open>IsEnabled\<close> is
  false for a flag with an allow list.
\<close>

theorem feature_zero_percentage:
  assumes "redis_ok s data" "codec_ok s (f\<lparr>UpdatedAt := now\<rparr>)" "Enabled f" "Percentage f = 0"
  shows "answer s w now name f name e \<and>
    (AllowList f \<noteq> [] \<longrightarrow> \<not> fst (IsEnabled s name (snd (store_Set s now name f w))))"
  using assms by (simp add: answer_eq enabled_for_def IsEnabled_def case_prod_beta Get_after_Set(2))

theorem feature_zero_percentage_witness:
  "answer demo_store Map.empty 5 ''dark'' demo_flag ''dark'' ''stranger''"
  using feature_zero_percentage [OF demo_store_ok(1), where f = demo_flag and now = 5] demo_store_ok(2)
  by (simp add: demo_flag_def)

end
