(* ===== verification/Http.thy ===== *)
theory Http
  imports GoStrings
begin

text \<open>
  The HTTP middleware of \<open>pkg/middleware\<close>. A handler gets a request, a response writer and the
  world, and returns or panics. The response writer is the server's, under the layers that
  \<open>Logging\<close> and \<open>Metrics\<close> wrap around it. The clock, the logger, the random source and the
  metrics registry are operations on the world.
\<close>

section \<open>Requests, responses and handlers\<close>

text \<open>The values that the middlewares put in the request context.\<close>

record 'c ctx =
  ctx_id :: "string option"
  ctx_claims :: "'c option"
  ctx_deadline :: "gotime option"

record 'c request =
  rmethod :: string
  rpath :: string
  rpattern :: string
  rheader :: "string \<Rightarrow> string"
  rcookie :: "string \<Rightarrow> string option"
  rcontext :: "'c ctx"

text \<open>The server's writer: the status is sent once, by the first \<open>WriteHeader\<close> or \<open>Write\<close>.\<close>

record rw =
  header :: "string \<Rightarrow> string option"
  sent :: "int option"
  wbody :: string

text \<open>A layer of \<open>wrapResponseWriter\<close>.\<close>

record responseWriter =
  rstatus :: int
  wroteHeader :: bool
  rbytes :: int

record writer =
  layers :: "responseWriter list"
  base :: rw

definition base_WriteHeader :: "int \<Rightarrow> rw \<Rightarrow> rw" where
  "base_WriteHeader code w = (if sent w = None then w\<lparr>sent := Some code\<rparr> else w)"

definition base_Write :: "string \<Rightarrow> rw \<Rightarrow> rw" where
  "base_Write b w = (let w1 = base_WriteHeader 200 w in w1\<lparr>wbody := wbody w1 @ b\<rparr>)"

fun layer_WriteHeader :: "int \<Rightarrow> responseWriter list \<Rightarrow> rw \<Rightarrow> responseWriter list \<times> rw" where
  "layer_WriteHeader code [] b = ([], base_WriteHeader code b)"
| "layer_WriteHeader code (l # ls) b =
     (if wroteHeader l then (l # ls, b)
      else let (ls', b') = layer_WriteHeader code ls b
           in (l\<lparr>rstatus := code, wroteHeader := True\<rparr> # ls', b'))"

definition WriteHeader :: "int \<Rightarrow> writer \<Rightarrow> writer" where
  "WriteHeader code w =
     (let (ls, b) = layer_WriteHeader code (layers w) (base w) in w\<lparr>layers := ls, base := b\<rparr>)"

definition layer_Write :: "string \<Rightarrow> responseWriter \<Rightarrow> responseWriter" where
  "layer_Write b l = l\<lparr>rbytes := rbytes l + int (length b)\<rparr>"

definition Write :: "string \<Rightarrow> writer \<Rightarrow> writer" where
  "Write b w = w\<lparr>layers := map (layer_Write b) (layers w), base := base_Write b (base w)\<rparr>"

definition SetHeader :: "string \<Rightarrow> string \<Rightarrow> writer \<Rightarrow> writer" where
  "SetHeader k v w = w\<lparr>base := (base w)\<lparr>header := (header (base w))(k \<mapsto> v)\<rparr>\<rparr>"

text \<open>\<open>http.Error\<close>.\<close>

definition http_Error :: "string \<Rightarrow> int \<Rightarrow> writer \<Rightarrow> writer" where
  "http_Error msg code w =
     Write (msg @ [CHR 0x0A]) (WriteHeader code
       (SetHeader ''X-Content-Type-Options'' ''nosniff''
         (SetHeader ''Content-Type'' ''text/plain; charset=utf-8'' w)))"

datatype outcome = Returned | Panicked string

type_synonym ('c, 'w) handler = "'c request \<Rightarrow> writer \<Rightarrow> 'w \<Rightarrow> (outcome \<times> writer) \<times> 'w"
type_synonym ('c, 'w) Middleware = "('c, 'w) handler \<Rightarrow> ('c, 'w) handler"

section \<open>Chain, Apply\<close>

fun chain_handlers :: "('c, 'w) Middleware list \<Rightarrow> ('c, 'w) handler \<Rightarrow> ('c, 'w) handler" where
  "chain_handlers [] nxt = nxt"
| "chain_handlers (m # ms) nxt = chain_handlers ms (m nxt)"

definition http_Chain :: "('c, 'w) Middleware list \<Rightarrow> ('c, 'w) Middleware" where
  "http_Chain ms nxt = chain_handlers (rev ms) nxt"

definition Apply :: "('c, 'w) handler \<Rightarrow> ('c, 'w) Middleware list \<Rightarrow> ('c, 'w) handler" where
  "Apply h ms = http_Chain ms h"

section \<open>The middlewares\<close>

text \<open>\<open>Recovery\<close>: the deferred function answers 500 when the handler panicked.\<close>

definition Recovery :: "(string \<Rightarrow> 'w \<Rightarrow> 'w) \<Rightarrow> ('c, 'w) Middleware" where
  "Recovery log_panic nxt r w s =
     (case nxt r w s of
        ((Panicked p, w1), s1) \<Rightarrow> ((Returned, http_Error ''Internal Server Error'' 500 w1), log_panic p s1)
      | ((Returned, w1), s1) \<Rightarrow> ((Returned, w1), s1))"

definition RequestIDHeader :: string where "RequestIDHeader = ''X-Request-Id''"

text \<open>\<open>hex.EncodeToString\<close>, and the ID of eight random bytes.\<close>

definition hex_EncodeToString :: "8 word list \<Rightarrow> string" where
  "hex_EncodeToString bs = concat (map (\<lambda>b. [hex_digit (unat b div 16), hex_digit (unat b mod 16)]) bs)"

definition newRequestID :: "(nat \<Rightarrow> ('w, 8 word list) action) \<Rightarrow> ('w, string) action" where
  "newRequestID rand_Read s = (let (b, s1) = rand_Read 8 s in (hex_EncodeToString b, s1))"

definition RequestID :: "('w, string) action \<Rightarrow> ('c, 'w) Middleware" where
  "RequestID new_id nxt r w s =
     (let (rid, s1) = (if rheader r RequestIDHeader = [] then new_id s else (rheader r RequestIDHeader, s));
          w1 = SetHeader RequestIDHeader rid w
      in nxt (r\<lparr>rcontext := (rcontext r)\<lparr>ctx_id := Some rid\<rparr>\<rparr>) w1 s1)"

definition RequestIDFromContext :: "'c ctx \<Rightarrow> string" where
  "RequestIDFromContext c = (case ctx_id c of None \<Rightarrow> [] | Some rid \<Rightarrow> rid)"

text \<open>\<open>context.WithTimeout\<close> keeps an earlier deadline.\<close>

definition with_deadline :: "gotime \<Rightarrow> 'c ctx \<Rightarrow> 'c ctx" where
  "with_deadline t c = c\<lparr>ctx_deadline := (case ctx_deadline c of None \<Rightarrow> Some t | Some t' \<Rightarrow> Some (min t t'))\<rparr>"

definition Timeout :: "('w, gotime) action \<Rightarrow> duration \<Rightarrow> ('c, 'w) Middleware" where
  "Timeout clock d nxt r w s =
     (let (now, s1) = clock s
      in nxt (r\<lparr>rcontext := with_deadline (time_Add now d) (rcontext r)\<rparr>) w s1)"

definition RateLimit :: "('c request \<Rightarrow> ('w, bool) action) \<Rightarrow> ('c, 'w) Middleware" where
  "RateLimit allow nxt r w s =
     (let (ok, s1) = allow r s
      in if \<not> ok then ((Returned, http_Error ''rate limit exceeded'' 429 w), s1) else nxt r w s1)"

definition wrapResponseWriter :: "writer \<Rightarrow> writer" where
  "wrapResponseWriter w = w\<lparr>layers := \<lparr>rstatus = 200, wroteHeader = False, rbytes = 0\<rparr> # layers w\<rparr>"

definition unwrap :: "writer \<Rightarrow> writer" where
  "unwrap w = w\<lparr>layers := tl (layers w)\<rparr>"

datatype level = LevelInfo | LevelWarn | LevelError

record log_entry =
  llevel :: level
  lmethod :: string
  lpath :: string
  lstatus :: int
  lduration :: duration
  lbytes :: int
  lrequestID :: "string option"

definition status_level :: "int \<Rightarrow> level" where
  "status_level st = (if 500 \<le> st then LevelError else if 400 \<le> st then LevelWarn else LevelInfo)"

definition Logging :: "('w, gotime) action \<Rightarrow> (log_entry \<Rightarrow> 'w \<Rightarrow> 'w) \<Rightarrow> ('c, 'w) Middleware" where
  "Logging clock log nxt r w s =
     (let (start, s1) = clock s in
      case nxt r (wrapResponseWriter w) s1 of
        ((Panicked p, w1), s2) \<Rightarrow> ((Panicked p, unwrap w1), s2)
      | ((Returned, w1), s2) \<Rightarrow>
          let (finish, s3) = clock s2;
              wrapped = hd (layers w1);
              rid = RequestIDFromContext (rcontext r)
          in ((Returned, unwrap w1),
              log \<lparr>llevel = status_level (rstatus wrapped), lmethod = rmethod r, lpath = rpath r,
                    lstatus = rstatus wrapped, lduration = time_Sub finish start, lbytes = rbytes wrapped,
                    lrequestID = (if rid \<noteq> [] then Some rid else None)\<rparr> s3))"

text \<open>The instruments of \<open>HTTPMetrics\<close>: the gauge and the counters by label.\<close>

record http_metrics =
  requestsInFlight :: "string \<Rightarrow> int"
  requestsTotal :: "string \<times> string \<times> string \<Rightarrow> int"
  responseBytes :: "string \<Rightarrow> int"
  requestDuration :: "string \<times> string \<Rightarrow> duration list"

definition bump :: "'k \<Rightarrow> int \<Rightarrow> ('k \<Rightarrow> int) \<Rightarrow> 'k \<Rightarrow> int" where
  "bump k n f = f(k := f k + n)"

definition metrics_Middleware :: "('w, gotime) action \<Rightarrow> ((http_metrics \<Rightarrow> http_metrics) \<Rightarrow> 'w \<Rightarrow> 'w) \<Rightarrow> ('c, 'w) Middleware" where
  "metrics_Middleware clock upd nxt r w s =
     (let s0 = upd (requestsInFlight_update (bump (rmethod r) 1)) s;
          (start, s1) = clock s0 in
      case nxt r (wrapResponseWriter w) s1 of
        ((Panicked p, w1), s2) \<Rightarrow> ((Panicked p, unwrap w1), s2)
      | ((Returned, w1), s2) \<Rightarrow>
          let (finish, s2') = clock s2;
              wrapped = hd (layers w1);
              path = (if rpattern r = [] then rpath r else rpattern r);
              s3 = upd (requestsInFlight_update (bump (rmethod r) (- 1))) s2';
              s4 = upd (requestsTotal_update (bump (rmethod r, path, Itoa (rstatus wrapped)) 1)) s3;
              s5 = upd (requestDuration_update (\<lambda>f. f((rmethod r, path) := f (rmethod r, path) @ [time_Sub finish start]))) s4;
              s6 = upd (responseBytes_update (bump (rmethod r) (rbytes wrapped))) s5
          in ((Returned, unwrap w1), s6))"

section \<open>Properties\<close>

text \<open>An ID has two digits per byte, and different bytes give different IDs.\<close>

lemma hex_digit_inj: "m < 16 \<Longrightarrow> n < 16 \<Longrightarrow> hex_digit m = hex_digit n \<longleftrightarrow> m = n"
  by (auto simp: hex_digit_def split: if_splits)

lemma length_hex: "length (hex_EncodeToString bs) = 2 * length bs"
  by (induction bs) (simp_all add: hex_EncodeToString_def)

lemma hex_EncodeToString_inj: "hex_EncodeToString bs = hex_EncodeToString bs' \<Longrightarrow> bs = bs'"
proof (induction bs arbitrary: bs')
  case Nil
  then show ?case using length_hex [of bs'] by (simp add: hex_EncodeToString_def)
next
  case (Cons b bs)
  then obtain c cs where bs': "bs' = c # cs" using length_hex [of bs'] length_hex [of "b # bs"] by (cases bs') auto
  have d: "unat x div 16 < 16" "unat x mod 16 < 16" for x :: "8 word"
  proof -
    have "unat x < 2 ^ LENGTH(8)" by (rule unsigned_less)
    then show "unat x div 16 < 16" "unat x mod 16 < 16" by simp_all
  qed
  have "unat b div 16 = unat c div 16" "unat b mod 16 = unat c mod 16" "bs = cs"
    using Cons d by (auto simp: bs' hex_EncodeToString_def hex_digit_inj)
  then have "unat b = unat c" by (metis mult_div_mod_eq)
  then show ?case using bs' \<open>bs = cs\<close> by (simp add: unsigned_word_eqI)
qed

lemma chain_handlers_append: "chain_handlers (xs @ ys) nxt = chain_handlers ys (chain_handlers xs nxt)"
  by (induction xs arbitrary: nxt) auto

lemma http_Chain_Nil: "http_Chain [] nxt = nxt"
  by (simp add: http_Chain_def)

lemma http_Chain_Cons: "http_Chain (m # ms) nxt = m (http_Chain ms nxt)"
  by (simp add: http_Chain_def chain_handlers_append)

lemma http_Chain_append: "http_Chain (xs @ ys) nxt = http_Chain xs (http_Chain ys nxt)"
  by (induction xs) (simp_all add: http_Chain_Cons http_Chain_Nil)

text \<open>What the client sees of a writer after an error response.\<close>

lemma layer_WriteHeader_sent:
  "sent b \<noteq> None \<Longrightarrow> snd (layer_WriteHeader code ls b) = b"
  by (induction ls) (auto simp: base_WriteHeader_def split: prod.split)

lemma layer_WriteHeader_fresh:
  "sent b = None \<Longrightarrow> \<forall>l \<in> set ls. \<not> wroteHeader l \<Longrightarrow>
    sent (snd (layer_WriteHeader code ls b)) = Some code"
  by (induction ls) (auto simp: base_WriteHeader_def split: prod.split)

lemma base_WriteHeader_code: "sent (base (WriteHeader code w)) =
    (if sent (base w) \<noteq> None then sent (base w) else sent (base (WriteHeader code w)))"
  using layer_WriteHeader_sent [of "base w" code "layers w"]
  by (auto simp: WriteHeader_def split: prod.split)

definition fresh :: "writer \<Rightarrow> bool" where
  "fresh w \<longleftrightarrow> sent (base w) = None \<and> (\<forall>l \<in> set (layers w). \<not> wroteHeader l)"

lemma http_Error_fresh:
  assumes "fresh w"
  shows "sent (base (http_Error msg code w)) = Some code"
proof -
  let ?w = "SetHeader ''X-Content-Type-Options'' ''nosniff''
       (SetHeader ''Content-Type'' ''text/plain; charset=utf-8'' w)"
  have "sent (base ?w) = None" "\<forall>l \<in> set (layers ?w). \<not> wroteHeader l"
    using assms by (simp_all add: fresh_def SetHeader_def)
  then have "sent (base (WriteHeader code ?w)) = Some code"
    using layer_WriteHeader_fresh [of "base ?w" "layers ?w" code]
    by (simp add: WriteHeader_def case_prod_beta)
  then show ?thesis by (simp add: http_Error_def Write_def base_Write_def Let_def base_WriteHeader_def)
qed

lemma http_Error_sent:
  assumes "sent (base w) \<noteq> None"
  shows "sent (base (http_Error msg code w)) = sent (base w)"
proof -
  let ?w = "SetHeader ''X-Content-Type-Options'' ''nosniff''
       (SetHeader ''Content-Type'' ''text/plain; charset=utf-8'' w)"
  have "sent (base ?w) = sent (base w)" by (simp add: SetHeader_def)
  moreover from this have "sent (base (WriteHeader code ?w)) = sent (base ?w)"
    using assms layer_WriteHeader_sent [of "base ?w" code "layers ?w"]
    by (simp add: WriteHeader_def case_prod_beta)
  ultimately show ?thesis
    using assms by (auto simp: http_Error_def Write_def base_Write_def Let_def base_WriteHeader_def)
qed

text \<open>
  Chains and recovery: the first middleware of a chain is the outermost, and chains of two
  lists nest. A chain whose first middleware is \<open>Recovery\<close> never panics, whatever is inside; if
  the handler panics before anything was sent the client gets 500, and a response that was
  already begun keeps its status.
\<close>

theorem http_Chain_Recovery:
  fixes ms :: "('c, 'w) Middleware list"
  shows "http_Chain (m # ms) h = m (http_Chain ms h) \<and> Apply h (ms @ ns) = http_Chain ms (Apply h ns) \<and>
    fst (fst (http_Chain (Recovery lg # ms) h r w s)) = Returned \<and>
    (\<forall>p w1 s1. http_Chain ms h r w s = ((Panicked p, w1), s1) \<longrightarrow>
       (fresh w1 \<longrightarrow> sent (base (snd (fst (http_Chain (Recovery lg # ms) h r w s)))) = Some 500) \<and>
       (sent (base w1) \<noteq> None \<longrightarrow>
          sent (base (snd (fst (http_Chain (Recovery lg # ms) h r w s)))) = sent (base w1)))"
  by (auto simp: http_Chain_Cons http_Chain_append Apply_def Recovery_def http_Error_fresh http_Error_sent
      split: prod.split outcome.split)

theorem http_Chain_Recovery_witness:
  "sent (base (snd (fst (http_Chain [Recovery (\<lambda>p s. s), \<lambda>nxt. nxt] (\<lambda>r w s. ((Panicked ''boom'', w), s))
      \<lparr>rmethod = ''GET'', rpath = ''/'', rpattern = [], rheader = \<lambda>_. [], rcookie = \<lambda>_. None,
        rcontext = \<lparr>ctx_id = None, ctx_claims = (None :: unit option), ctx_deadline = None\<rparr>\<rparr>
      \<lparr>layers = [], base = \<lparr>header = Map.empty, sent = None, wbody = []\<rparr>\<rparr> ())))) = Some 500"
  using http_Chain_Recovery [of "\<lambda>nxt. nxt" "[\<lambda>nxt. nxt]" "\<lambda>r w s. ((Panicked ''boom'', w), s)" "[]" "\<lambda>p s. s"
      "\<lparr>rmethod = ''GET'', rpath = ''/'', rpattern = [], rheader = \<lambda>_. [], rcookie = \<lambda>_. None,
        rcontext = \<lparr>ctx_id = None, ctx_claims = (None :: unit option), ctx_deadline = None\<rparr>\<rparr>"
      "\<lparr>layers = [], base = \<lparr>header = Map.empty, sent = None, wbody = []\<rparr>\<rparr>" "()"]
  by (simp add: http_Chain_def fresh_def)

text \<open>
  A panic leaks the in-flight gauge: when the handler inside the metrics middleware panics,
  the gauge that was incremented is not decremented, so a recovery outside of it (the order the
  package comment shows) leaves one request in flight for ever; a handler that returns leaves
  the gauge as it was.
\<close>

theorem http_metrics_gauge:
  assumes "\<And>f s. m (upd f s) = f (m s)" "\<And>s. m (snd (clock s)) = m s"
    "\<And>r w s. m (snd (h r w s)) = m s"
  shows "requestsInFlight (m (snd (metrics_Middleware clock upd h r w s))) (rmethod r) =
    requestsInFlight (m s) (rmethod r) +
      (case fst (fst (h r (wrapResponseWriter w) (snd (clock (upd (requestsInFlight_update (bump (rmethod r) 1)) s)))))
       of Panicked p \<Rightarrow> 1 | Returned \<Rightarrow> 0)"
proof -
  let ?s1 = "snd (clock (upd (requestsInFlight_update (bump (rmethod r) 1)) s))"
  obtain o1 w1 s2 where h: "h r (wrapResponseWriter w) ?s1 = ((o1, w1), s2)" by (metis prod.exhaust)
  have "m ?s1 = requestsInFlight_update (bump (rmethod r) 1) (m s)" using assms(1,2) by simp
  moreover have "m s2 = m ?s1" using assms(3) [of r "wrapResponseWriter w" ?s1] h by simp
  ultimately show ?thesis
    using assms(1,2)
    by (cases o1) (simp_all add: metrics_Middleware_def Let_def case_prod_beta h bump_def)
qed

theorem http_metrics_gauge_witness:
  "requestsInFlight (snd (metrics_Middleware (\<lambda>s. (0, s)) (\<lambda>f s. f s) (\<lambda>r w s. ((Panicked ''boom'', w), s))
      \<lparr>rmethod = ''GET'', rpath = ''/'', rpattern = [], rheader = \<lambda>_. [], rcookie = \<lambda>_. None,
        rcontext = \<lparr>ctx_id = None, ctx_claims = (None :: unit option), ctx_deadline = None\<rparr>\<rparr>
      \<lparr>layers = [], base = \<lparr>header = Map.empty, sent = None, wbody = []\<rparr>\<rparr>
      \<lparr>requestsInFlight = \<lambda>_. 0, requestsTotal = \<lambda>_. 0, responseBytes = \<lambda>_. 0, requestDuration = \<lambda>_. []\<rparr>)) ''GET'' = 1"
  by (subst http_metrics_gauge [where m = "\<lambda>s. s", of "\<lambda>f s. f s" "\<lambda>s. (0, s)" "\<lambda>r w s. ((Panicked ''boom'', w), s)"
        "\<lparr>rmethod = ''GET'', rpath = ''/'', rpattern = [], rheader = \<lambda>_. [], rcookie = \<lambda>_. None,
          rcontext = \<lparr>ctx_id = None, ctx_claims = None, ctx_deadline = None\<rparr>\<rparr>", simplified]) simp_all

text \<open>
  \<open>responseWriter.Write\<close> does not note that it sent the header: after a \<open>Write\<close>, which sends 200, a
  late \<open>WriteHeader(500)\<close> is recorded by the layer and ignored by the server.
\<close>

lemma wrapped_status_differs:
  assumes "layers w = []" "sent (base w) = None"
  shows "rstatus (hd (layers (WriteHeader 500 (Write b (wrapResponseWriter w))))) = 500 \<and>
    sent (base (WriteHeader 500 (Write b (wrapResponseWriter w)))) = Some 200"
  using assms
  by (simp add: WriteHeader_def Write_def wrapResponseWriter_def layer_Write_def base_Write_def
      base_WriteHeader_def Let_def)

end
