(* ===== verification/Auth.thy ===== *)
theory Auth
  imports Http
begin

text \<open>
  Authentication and authorisation of \<open>pkg/auth/auth.go\<close>. The JWT library is a parameter: parsing
  a token with a function that gives the key for its signing method, and signing claims.
\<close>

section \<open>Claims\<close>

record Claims =
  UserID :: string
  Roles :: "string list"
  IssuedAt :: gotime
  NotBefore :: gotime
  ExpiresAt :: gotime
  Subject :: string

definition HasRole :: "Claims \<Rightarrow> string \<Rightarrow> bool" where
  "HasRole c role = list_ex (\<lambda>r. r = role) (Roles c)"

definition HasAnyRole :: "Claims \<Rightarrow> string list \<Rightarrow> bool" where
  "HasAnyRole c roles = list_ex (HasRole c) roles"

definition ContextWithClaims :: "Claims ctx \<Rightarrow> Claims \<Rightarrow> Claims ctx" where
  "ContextWithClaims ctx c = ctx\<lparr>ctx_claims := Some c\<rparr>"

definition ClaimsFromContext :: "Claims ctx \<Rightarrow> Claims option" where
  "ClaimsFromContext ctx = ctx_claims ctx"

section \<open>Tokens\<close>

definition bearerToken :: "Claims request \<Rightarrow> err + string" where
  "bearerToken r =
     (let hdr = rheader r ''Authorization'' in
      if hdr = [] then
        (case rcookie r ''access_token'' of
           Some v \<Rightarrow> Inr v
         | None \<Rightarrow> Inl (ErrNew ''missing Authorization header''))
      else if \<not> HasPrefix hdr ''Bearer '' then
        Inl (ErrNew (''Authorization header must start with '' @ [CHR 0x27] @ ''Bearer '' @ [CHR 0x27]))
      else
        let tok = TrimSpace (TrimPrefix hdr ''Bearer '')
        in if tok = [] then Inl (ErrNew ''empty token'') else Inr tok)"

text \<open>A signing method of the library: HMAC, or another with its name.\<close>

datatype signing_method = HMAC | OtherMethod string

type_synonym keyfunc = "signing_method \<Rightarrow> err + string"

record jwt =
  ParseWithClaims :: "string \<Rightarrow> keyfunc \<Rightarrow> err + Claims"
  SignedString :: "Claims \<Rightarrow> string \<Rightarrow> err + string"

abbreviation ErrTokenExpired :: err where "ErrTokenExpired \<equiv> ErrNew ''token is expired''"

definition hmac_key :: "string \<Rightarrow> keyfunc" where
  "hmac_key secret m =
     (case m of
        HMAC \<Rightarrow> Inr secret
      | OtherMethod alg \<Rightarrow> Inl (Errorf [Lit ''unexpected signing method: '', Lit alg]))"

definition parseToken :: "jwt \<Rightarrow> string \<Rightarrow> string \<Rightarrow> err + Claims" where
  "parseToken lib raw secret =
     (case ParseWithClaims lib raw (hmac_key secret) of Inl e \<Rightarrow> Inl e | Inr c \<Rightarrow> Inr c)"

definition IssueToken :: "jwt \<Rightarrow> gotime \<Rightarrow> Claims \<Rightarrow> string \<Rightarrow> duration \<Rightarrow> err + string" where
  "IssueToken lib now c secret ttl =
     (let c1 = c\<lparr>IssuedAt := now, NotBefore := now, ExpiresAt := time_Add now ttl, Subject := UserID c\<rparr>
      in case SignedString lib c1 secret of
           Inl e \<Rightarrow> Inl (Errorf [Lit ''auth: sign token: '', Wrapped e])
         | Inr tok \<Rightarrow> Inr tok)"

section \<open>The middlewares\<close>

definition JWT :: "jwt \<Rightarrow> string \<Rightarrow> (Claims, 'w) Middleware" where
  "JWT lib secret nxt r w s =
     (case bearerToken r of
        Inl e \<Rightarrow> ((Returned, http_Error (''unauthorized: '' @ err_Error e) 401 w), s)
      | Inr raw \<Rightarrow>
          (case parseToken lib raw secret of
             Inl e \<Rightarrow>
               if errors_Is e ErrTokenExpired then ((Returned, http_Error ''token expired'' 403 w), s)
               else ((Returned, http_Error ''unauthorized: invalid token'' 401 w), s)
           | Inr claims \<Rightarrow> nxt (r\<lparr>rcontext := ContextWithClaims (rcontext r) claims\<rparr>) w s))"

definition Require :: "string list \<Rightarrow> (Claims, 'w) Middleware" where
  "Require roles nxt r w s =
     (case ClaimsFromContext (rcontext r) of
        None \<Rightarrow> ((Returned, http_Error ''forbidden: no claims'' 403 w), s)
      | Some claims \<Rightarrow>
          if 0 < length roles \<and> \<not> HasAnyRole claims roles
          then ((Returned, http_Error ''forbidden: insufficient role'' 403 w), s)
          else nxt r w s)"

section \<open>Who gets through\<close>

lemma HasAnyRole_iff: "HasAnyRole c roles \<longleftrightarrow> (\<exists>role \<in> set roles. role \<in> set (Roles c))"
  by (auto simp: HasAnyRole_def HasRole_def list_ex_iff)

text \<open>The claims that a request proves: those of the token in its header or cookie.\<close>

definition proven_claims :: "jwt \<Rightarrow> string \<Rightarrow> Claims request \<Rightarrow> Claims option" where
  "proven_claims lib secret r =
     (case bearerToken r of
        Inl e \<Rightarrow> None
      | Inr raw \<Rightarrow> (case ParseWithClaims lib raw (hmac_key secret) of Inl e \<Rightarrow> None | Inr c \<Rightarrow> Some c))"


definition demo_jwt :: jwt where
  "demo_jwt = \<lparr>ParseWithClaims = \<lambda>raw kf. if raw = ''tok'' then
       (case kf HMAC of Inl e \<Rightarrow> Inl e | Inr k \<Rightarrow> if k = ''key'' then
          Inr \<lparr>UserID = ''u'', Roles = [''admin''], IssuedAt = 0, NotBefore = 0, ExpiresAt = 9, Subject = ''u''\<rparr>
        else Inl (ErrNew ''bad signature'')) else Inl (ErrNew ''malformed''),
     SignedString = \<lambda>c k. Inr ''tok''\<rparr>"

definition demo_request :: "Claims request" where
  "demo_request = \<lparr>rmethod = ''GET'', rpath = ''/'', rpattern = [], rheader = \<lambda>_. [],
     rcookie = \<lambda>k. Some ''tok'', rcontext = \<lparr>ctx_id = None, ctx_claims = None, ctx_deadline = None\<rparr>\<rparr>"

definition empty_writer :: writer where
  "empty_writer = \<lparr>layers = [], base = \<lparr>header = Map.empty, sent = None, wbody = []\<rparr>\<rparr>"


end
