(* ===== verification/Sync.thy ===== *)
theory Sync
  imports GoStd
begin

text \<open>
  The semaphore, the throttle and the barrier of \<open>pkg/async/semaphore.go\<close>. Each is built on
  channels without contents, so a channel is its capacity and the number of its elements. (At
  capacity 0 a channel passes elements only between a sender and a receiver that wait for each
  other; the model has no such meeting.)
\<close>

section \<open>Semaphore\<close>

record semaphore =
  scap :: nat
  slen :: nat

definition NewSemaphore :: "int \<Rightarrow> semaphore option" where
  "NewSemaphore n = (if n < 0 then None else Some \<lparr>scap = nat n, slen = 0\<rparr>)"

text \<open>
  \<open>Acquire\<close> waits for a slot or for the context; \<open>done\<close> is the context's error if the call takes
  that branch. A call that takes neither is still waiting.
\<close>

datatype sem_res = Granted | Refused | Cancelled err | Waiting | Released | Panic string | Count int

definition sem_Acquire :: "err option \<Rightarrow> semaphore \<Rightarrow> sem_res \<times> semaphore" where
  "sem_Acquire ctxErr s =
     (case ctxErr of
        Some e \<Rightarrow> (Cancelled e, s)
      | None \<Rightarrow> if slen s < scap s then (Granted, s\<lparr>slen := slen s + 1\<rparr>) else (Waiting, s))"

definition sem_TryAcquire :: "semaphore \<Rightarrow> sem_res \<times> semaphore" where
  "sem_TryAcquire s = (if slen s < scap s then (Granted, s\<lparr>slen := slen s + 1\<rparr>) else (Refused, s))"

definition sem_Release :: "semaphore \<Rightarrow> sem_res \<times> semaphore" where
  "sem_Release s =
     (if 0 < slen s then (Released, s\<lparr>slen := slen s - 1\<rparr>)
      else (Panic ''async: semaphore released more times than acquired'', s))"

definition sem_Available :: "semaphore \<Rightarrow> int" where
  "sem_Available s = int (scap s) - int (slen s)"

definition sem_Capacity :: "semaphore \<Rightarrow> int" where
  "sem_Capacity s = int (scap s)"

datatype sem_op = Acquire "err option" | TryAcquire | Release | Available | Capacity

fun sem_do :: "sem_op \<Rightarrow> semaphore \<Rightarrow> sem_res \<times> semaphore" where
  "sem_do (Acquire e) s = sem_Acquire e s"
| "sem_do TryAcquire s = sem_TryAcquire s"
| "sem_do Release s = sem_Release s"
| "sem_do Available s = (Count (sem_Available s), s)"
| "sem_do Capacity s = (Count (sem_Capacity s), s)"

text \<open>The specification: a number of free permits out of a total.\<close>

fun permits_do :: "sem_op \<Rightarrow> nat \<times> nat \<Rightarrow> sem_res \<times> (nat \<times> nat)" where
  "permits_do (Acquire (Some e)) (free, tot) = (Cancelled e, (free, tot))"
| "permits_do (Acquire None) (0, tot) = (Waiting, (0, tot))"
| "permits_do (Acquire None) (Suc free, tot) = (Granted, (free, tot))"
| "permits_do TryAcquire (0, tot) = (Refused, (0, tot))"
| "permits_do TryAcquire (Suc free, tot) = (Granted, (free, tot))"
| "permits_do Release (free, tot) =
     (if free < tot then (Released, (free + 1, tot))
      else (Panic ''async: semaphore released more times than acquired'', (free, tot)))"
| "permits_do Available (free, tot) = (Count (int free), (free, tot))"
| "permits_do Capacity (free, tot) = (Count (int tot), (free, tot))"

definition sem_abs :: "semaphore \<Rightarrow> nat \<times> nat" where
  "sem_abs s = (scap s - slen s, scap s)"

definition sem_inv :: "semaphore \<Rightarrow> bool" where
  "sem_inv s \<longleftrightarrow> slen s \<le> scap s"

interpretation sref: refinement sem_do permits_do sem_abs sem_inv
proof
  fix s x
  assume s: "sem_inv s"
  show "sem_inv (snd (sem_do x s))"
    using s by (cases x)
      (auto simp: sem_inv_def sem_Acquire_def sem_TryAcquire_def sem_Release_def split: option.split)
  obtain f where f: "scap s = f + slen s" using s by (metis sem_inv_def le_add_diff_inverse2)
  show "permits_do x (sem_abs s) = (fst (sem_do x s), sem_abs (snd (sem_do x s)))"
  proof (cases x)
    case (Acquire e)
    then show ?thesis using f by (cases e; cases f) (simp_all add: sem_abs_def sem_Acquire_def)
  next
    case TryAcquire
    then show ?thesis using f by (cases f) (simp_all add: sem_abs_def sem_TryAcquire_def)
  next
    case Release
    then show ?thesis using f by (cases "slen s") (simp_all add: sem_abs_def sem_Release_def)
  qed (use f in \<open>simp_all add: sem_abs_def sem_Available_def sem_Capacity_def\<close>)
qed

text \<open>What a sequence of results took and gave back.\<close>

definition taken :: "sem_res list \<Rightarrow> nat" where
  "taken rs = length (filter (\<lambda>r. r = Granted) rs)"

definition given_back :: "sem_res list \<Rightarrow> nat" where
  "given_back rs = length (filter (\<lambda>r. r = Released) rs)"

lemma sem_run_count:
  assumes "sem_inv s"
  shows "slen (snd (run sem_do ops s)) + given_back (fst (run sem_do ops s)) =
    slen s + taken (fst (run sem_do ops s)) \<and> scap (snd (run sem_do ops s)) = scap s"
  using assms
proof (induction ops arbitrary: s)
  case (Cons x ops)
  have "sem_inv (snd (sem_do x s))" using Cons.prems by (rule sref.good_impl)
  moreover have "slen (snd (sem_do x s)) + given_back [fst (sem_do x s)] = slen s + taken [fst (sem_do x s)]"
    "scap (snd (sem_do x s)) = scap s"
    by (cases x; auto simp: sem_Acquire_def sem_TryAcquire_def sem_Release_def taken_def given_back_def
        split: option.split)+
  ultimately show ?case
    using Cons.IH [of "snd (sem_do x s)"] by (auto simp: taken_def given_back_def split: if_splits)
qed (simp add: taken_def given_back_def)



section \<open>Throttle\<close>

text \<open>The channel holds one permit at most; a tick puts it back, a call takes it and calls the function.\<close>

datatype throttle_event = Tick | Call

fun throttle_step :: "throttle_event \<Rightarrow> bool \<Rightarrow> bool \<times> bool" where
  "throttle_step Tick permit = (False, True)"
| "throttle_step Call permit = (permit, False)"

definition Throttle :: "throttle_event list \<Rightarrow> bool list" where
  "Throttle evs = fst (run throttle_step evs True)"

lemma throttle_bound:
  "length (filter id (fst (run throttle_step evs p))) + (if snd (run throttle_step evs p) then 1 else 0)
     \<le> (if p then 1 else 0) + length (filter (\<lambda>e. e = Tick) evs)"
proof (induction evs arbitrary: p)
  case (Cons e evs)
  then show ?case using Cons.IH [of "snd (throttle_step e p)"] by (cases e) auto
qed simp

text \<open>At most one call per tick and one more; but two calls around a tick both run, however close.\<close>

lemma throttle_calls:
  "length (filter id (Throttle evs)) \<le> 1 + length (filter (\<lambda>e. e = Tick) evs)"
  using throttle_bound [of evs True] by (simp add: Throttle_def split: if_splits)

lemma throttle_two_calls: "Throttle [Call, Tick, Call] = [True, False, True]"
  by (simp add: Throttle_def)

section \<open>Barrier\<close>

text \<open>
  \<open>Wait\<close> sends to the latch's channel, which holds up to \<open>n\<close> arrivals, and then waits for \<open>done\<close>; the
  goroutine of \<open>NewBarrier\<close> receives \<open>n\<close> arrivals and closes \<open>done\<close>. A waiter is outside, blocked
  in \<open>arrive\<close>, waiting, or has returned.
\<close>

datatype waiter = Outside | Arriving | AtBarrier | Through | Left err

record barrier =
  bn :: nat
  latch :: nat
  drained :: nat
  bdone :: bool
  waiters :: "waiter list"

definition NewBarrier :: "nat \<Rightarrow> nat \<Rightarrow> barrier" where
  "NewBarrier n threads =
     \<lparr>bn = n, latch = 0, drained = 0, bdone = False, waiters = replicate threads Outside\<rparr>"

inductive barrier_step :: "barrier \<Rightarrow> unit \<Rightarrow> barrier \<Rightarrow> bool" where
  wait: "i < length (waiters b) \<Longrightarrow> waiters b ! i = Outside \<Longrightarrow>
     barrier_step b () (b\<lparr>waiters := (waiters b)[i := Arriving]\<rparr>)"
| arrive: "i < length (waiters b) \<Longrightarrow> waiters b ! i = Arriving \<Longrightarrow> latch b < bn b \<Longrightarrow>
     barrier_step b () (b\<lparr>latch := latch b + 1, waiters := (waiters b)[i := AtBarrier]\<rparr>)"
| drain: "drained b < bn b \<Longrightarrow> 0 < latch b \<Longrightarrow>
     barrier_step b () (b\<lparr>latch := latch b - 1, drained := drained b + 1\<rparr>)"
| close: "drained b = bn b \<Longrightarrow> \<not> bdone b \<Longrightarrow> barrier_step b () (b\<lparr>bdone := True\<rparr>)"
| pass: "i < length (waiters b) \<Longrightarrow> waiters b ! i = AtBarrier \<Longrightarrow> bdone b \<Longrightarrow>
     barrier_step b () (b\<lparr>waiters := (waiters b)[i := Through]\<rparr>)"
| leave: "i < length (waiters b) \<Longrightarrow> waiters b ! i = AtBarrier \<Longrightarrow>
     barrier_step b () (b\<lparr>waiters := (waiters b)[i := Left e]\<rparr>)"

fun arrived :: "waiter \<Rightarrow> nat" where
  "arrived AtBarrier = 1"
| "arrived Through = 1"
| "arrived (Left e) = 1"
| "arrived _ = 0"

definition barrier_inv :: "barrier \<Rightarrow> bool" where
  "barrier_inv b \<longleftrightarrow> latch b + drained b = sum_list (map arrived (waiters b)) \<and>
     drained b \<le> bn b \<and> (bdone b \<longrightarrow> drained b = bn b) \<and> (Through \<in> set (waiters b) \<longrightarrow> bdone b)"

lemma arrived_upd:
  "i < length ws \<Longrightarrow> sum_list (map arrived (ws[i := x])) + arrived (ws ! i) = sum_list (map arrived ws) + arrived x"
  by (rule sum_list_update_eq)

lemma barrier_inv_step:
  assumes "barrier_step b ev b'" "barrier_inv b"
  shows "barrier_inv b'"
  using assms
proof (cases rule: barrier_step.cases)
  case (wait i)
  then show ?thesis using assms(2) arrived_upd [of i "waiters b" Arriving]
    by (auto simp: barrier_inv_def dest!: set_upd_mem)
next
  case (arrive i)
  then show ?thesis using assms(2) arrived_upd [of i "waiters b" AtBarrier]
    by (auto simp: barrier_inv_def dest!: set_upd_mem)
next
  case (pass i)
  then show ?thesis using assms(2) arrived_upd [of i "waiters b" Through]
    by (auto simp: barrier_inv_def dest!: set_upd_mem)
next
  case (leave i e)
  then show ?thesis using assms(2) arrived_upd [of i "waiters b" "Left e"]
    by (auto simp: barrier_inv_def dest!: set_upd_mem)
qed (auto simp: barrier_inv_def)

definition barrier_init :: "barrier \<Rightarrow> bool" where
  "barrier_init b \<longleftrightarrow> (\<exists>n k. b = NewBarrier n k)"

lemma barrier_inv_init: "barrier_inv (NewBarrier n k)"
  by (induction k) (simp_all add: barrier_inv_def NewBarrier_def)

interpretation barriers: step_invariant barrier_init barrier_step barrier_inv
  by unfold_locales (auto simp: barrier_init_def barrier_inv_init intro: barrier_inv_step)

text \<open>
  C40. The barrier: \<open>Wait\<close> returns nil to no caller before \<open>n\<close> callers have arrived; and once \<open>n\<close>
  have arrived (also when some of them gave up waiting) the barrier opens: as long as it is
  closed its own goroutine can take a step, which either counts one more of the \<open>n\<close> arrivals or
  opens it.
\<close>

theorem barrier_opens:
  assumes "reach barrier_init barrier_step b"
  shows "(Through \<in> set (waiters b) \<longrightarrow> bn b \<le> sum_list (map arrived (waiters b))) \<and> drained b \<le> bn b \<and>
    (bn b \<le> sum_list (map arrived (waiters b)) \<and> \<not> bdone b \<longrightarrow>
      (\<exists>b'. barrier_step b () b' \<and> waiters b' = waiters b \<and> (drained b' = drained b + 1 \<or> bdone b')))"
proof -
  have inv: "barrier_inv b" using assms by (rule barriers.reach_inv)
  have "\<exists>b'. barrier_step b () b' \<and> waiters b' = waiters b \<and> (drained b' = drained b + 1 \<or> bdone b')"
    if "bn b \<le> sum_list (map arrived (waiters b))" "\<not> bdone b"
  proof (cases "drained b = bn b")
    case True
    with that(2) have "barrier_step b () (b\<lparr>bdone := True\<rparr>)" by (intro barrier_step.close)
    then show ?thesis by (rule exI [of _ "b\<lparr>bdone := True\<rparr>", OF conjI]) simp
  next
    case False
    with inv that have "drained b < bn b" "0 < latch b" by (auto simp: barrier_inv_def)
    then have "barrier_step b () (b\<lparr>latch := latch b - 1, drained := drained b + 1\<rparr>)"
      by (rule barrier_step.drain)
    then show ?thesis
      by (rule exI [of _ "b\<lparr>latch := latch b - 1, drained := drained b + 1\<rparr>", OF conjI]) simp
  qed
  with inv show ?thesis by (auto simp: barrier_inv_def)
qed

theorem barrier_opens_witness:
  "\<exists>b'. barrier_step (NewBarrier 0 1) () b' \<and> (drained b' = 1 \<or> bdone b')"
proof -
  have "reach barrier_init barrier_step (NewBarrier 0 1)"
    by (rule reach_start) (auto simp: barrier_init_def)
  from barrier_opens [OF this] show ?thesis by (auto simp: NewBarrier_def)
qed

end
