(* ===== verification/Lock.thy ===== *)
theory Lock
  imports GoStd "HOL-Library.Signed_Division"
begin

text \<open>
  The distributed lock of \<open>pkg/lock/lock.go\<close>. The Redis server is a parameter: \<open>SET NX\<close>, the
  commands that the two scripts use, and running a script. So are the source of tokens and the
  waiting between attempts (it ends with the timer or with the context's error).
\<close>

section \<open>The server and the scripts\<close>

abbreviation ErrNotAcquired :: err where "ErrNotAcquired \<equiv> ErrNew ''lock: not acquired''"
abbreviation RedisNil :: err where "RedisNil \<equiv> ErrNew ''redis: nil''"

record 'w server =
  SetNX :: "string \<Rightarrow> string \<Rightarrow> duration \<Rightarrow> ('w, err option) action"
  rGET :: "string \<Rightarrow> 'w \<Rightarrow> string option"
  rDEL :: "string \<Rightarrow> ('w, int) action"
  rPEXPIRE :: "string \<Rightarrow> int \<Rightarrow> ('w, int) action"
  RunScript :: "('w, int) action \<Rightarrow> ('w, err + int) action"
  newToken :: "('w, string) action"

definition releaseScript :: "'w server \<Rightarrow> string \<Rightarrow> string \<Rightarrow> ('w, int) action" where
  "releaseScript red key token w = (if rGET red key w = Some token then rDEL red key w else (0, w))"

definition renewScript :: "'w server \<Rightarrow> string \<Rightarrow> string \<Rightarrow> int \<Rightarrow> ('w, int) action" where
  "renewScript red key token ms w = (if rGET red key w = Some token then rPEXPIRE red key ms w else (0, w))"

section \<open>Locker and Lock\<close>

record Locker =
  retryOk :: bool
  retryN :: int
  retryD :: duration

definition WithRetry :: "int \<Rightarrow> duration \<Rightarrow> Locker \<Rightarrow> Locker" where
  "WithRetry n interval l = l\<lparr>retryOk := True, retryN := n, retryD := interval\<rparr>"

definition locker_New :: "(Locker \<Rightarrow> Locker) list \<Rightarrow> Locker" where
  "locker_New opts = fold (\<lambda>f l. f l) opts \<lparr>retryOk = False, retryN = 0, retryD = 0\<rparr>"

record Lock =
  lkey :: string
  ltoken :: string
  lttl :: duration
  lstop :: bool

text \<open>
  \<open>TryAcquire\<close>. The goroutine it starts on success is \<open>keepalive\<close> below; \<open>lstop\<close> says that
  the channel \<open>stop\<close> is closed.
\<close>

definition lock_TryAcquire :: "'w server \<Rightarrow> string \<Rightarrow> duration \<Rightarrow> ('w, err + Lock) action" where
  "lock_TryAcquire red key ttl w =
     (let (token, w1) = newToken red w;
          (err, w2) = SetNX red key token ttl w1
      in case err of
           Some e \<Rightarrow>
             if errors_Is e RedisNil then (Inl ErrNotAcquired, w2)
             else (Inl (Errorf [Lit ''lock: acquire '', Quoted key, Lit '': '', Wrapped e]), w2)
         | None \<Rightarrow> (Inr \<lparr>lkey = key, ltoken = token, lttl = ttl, lstop = False\<rparr>, w2))"

text \<open>
  \<open>keepalive\<close>, over what its select receives: a tick of its ticker, or \<open>stop\<close>. \<open>Inl\<close> is the
  panic of \<open>NewTicker\<close> on an interval that is not positive; the boolean says that the goroutine
  has returned.
\<close>

datatype keepalive_event = Tick | StopClosed

definition keepalive_tick :: "'w server \<Rightarrow> Lock \<Rightarrow> 'w \<Rightarrow> 'w" where
  "keepalive_tick red lk w =
     snd (RunScript red (renewScript red (lkey lk) (ltoken lk) (lttl lk sdiv Millisecond)) w)"

fun keepalive_loop :: "'w server \<Rightarrow> Lock \<Rightarrow> keepalive_event list \<Rightarrow> 'w \<Rightarrow> bool \<times> 'w" where
  "keepalive_loop red lk [] w = (False, w)"
| "keepalive_loop red lk (StopClosed # evs) w = (True, w)"
| "keepalive_loop red lk (Tick # evs) w = keepalive_loop red lk evs (keepalive_tick red lk w)"

definition keepalive :: "'w server \<Rightarrow> Lock \<Rightarrow> keepalive_event list \<Rightarrow> 'w \<Rightarrow> string + bool \<times> 'w" where
  "keepalive red lk evs w =
     (if lttl lk sdiv 3 \<le> 0 then Inl ''non-positive interval for NewTicker''
      else Inr (keepalive_loop red lk evs w))"

text \<open>
  \<open>Release\<close>: it closes \<open>stop\<close> unless that is closed, waits for \<open>keepalive\<close> to end, and runs the
  script.
\<close>

definition lock_Release :: "'w server \<Rightarrow> Lock \<Rightarrow> ('w, err option \<times> Lock) action" where
  "lock_Release red lk w =
     (let lk' = (if lstop lk then lk else lk\<lparr>lstop := True\<rparr>);
          (r, w1) = RunScript red (releaseScript red (lkey lk) (ltoken lk)) w
      in case r of
           Inl e \<Rightarrow> ((Some (Errorf [Lit ''lock: release '', Quoted (lkey lk), Lit '': '', Wrapped e]), lk'), w1)
         | Inr n \<Rightarrow>
             if n = 0
             then ((Some (Errorf [Lit ''lock: release '', Quoted (lkey lk),
                      Lit '': token mismatch (lock expired?)'']), lk'), w1)
             else ((None, lk'), w1))"

text \<open>
  \<open>Acquire\<close>. Without \<open>WithRetry\<close> the loop has no bound of its own, so the number of attempts is
  bounded by fuel, and \<open>None\<close> is a call that is still trying.
\<close>

fun acquire_loop :: "nat \<Rightarrow> 'w server \<Rightarrow> (duration \<Rightarrow> ('w, err option) action) \<Rightarrow> Locker \<Rightarrow> string \<Rightarrow> duration
    \<Rightarrow> int \<Rightarrow> 'w \<Rightarrow> ((err + Lock) \<times> 'w) option" where
  "acquire_loop 0 red pause l key ttl attempt w = None"
| "acquire_loop (Suc n) red pause l key ttl attempt w =
     (case lock_TryAcquire red key ttl w of
        (Inr lk, w1) \<Rightarrow> Some (Inr lk, w1)
      | (Inl e, w1) \<Rightarrow>
          if \<not> errors_Is e ErrNotAcquired then Some (Inl e, w1)
          else if retryOk l \<and> retryN l \<le> attempt + 1 then Some (Inl ErrNotAcquired, w1)
          else
            (case pause (if retryOk l then retryD l else 100 * Millisecond) w1 of
               (Some ce, w2) \<Rightarrow>
                 Some (Inl (Errorf [Lit ''lock: acquire '', Quoted key, Lit '': '', Wrapped ce]), w2)
             | (None, w2) \<Rightarrow> acquire_loop n red pause l key ttl (attempt + 1) w2))"

definition lock_Acquire :: "nat \<Rightarrow> 'w server \<Rightarrow> (duration \<Rightarrow> ('w, err option) action) \<Rightarrow> Locker \<Rightarrow> string \<Rightarrow> duration
    \<Rightarrow> 'w \<Rightarrow> ((err + Lock) \<times> 'w) option" where
  "lock_Acquire fuel red pause l key ttl w = acquire_loop fuel red pause l key ttl 0 w"

text \<open>\<open>WithLock\<close>: the deferred \<open>Release\<close> runs whether the function returns or panics.\<close>

definition WithLock :: "nat \<Rightarrow> 'w server \<Rightarrow> (duration \<Rightarrow> ('w, err option) action) \<Rightarrow> Locker \<Rightarrow> string \<Rightarrow> duration
    \<Rightarrow> ('w, fn_outcome) action \<Rightarrow> 'w \<Rightarrow> (fn_outcome \<times> 'w) option" where
  "WithLock fuel red pause l key ttl fn w =
     (case lock_Acquire fuel red pause l key ttl w of
        None \<Rightarrow> None
      | Some (Inl e, w1) \<Rightarrow> Some (FnReturned (Some e), w1)
      | Some (Inr lk, w1) \<Rightarrow>
          let (r, w2) = fn w1; (_, w3) = lock_Release red lk w2 in Some (r, w3))"

section \<open>What the server promises\<close>

text \<open>
  \<open>held w k\<close> is the value that the server has for \<open>k\<close>, if it has not expired; \<open>used w\<close> the tokens
  that were ever made. A successful \<open>SET NX\<close> found the key absent and set it; one that reports
  an error, whose request may have been carried out, removes nothing. The commands of the
  scripts do what they say; a \<open>PEXPIRE\<close> with a time that is not positive deletes the key. A script runs as a whole or not at all, and if its result arrives it
  ran. Tokens are new.
\<close>

definition setnx_ok :: "'w server \<Rightarrow> ('w \<Rightarrow> string \<Rightarrow> string option) \<Rightarrow> ('w \<Rightarrow> string set) \<Rightarrow> bool" where
  "setnx_ok red held used \<longleftrightarrow>
     (\<forall>k t d w w'. SetNX red k t d w = (None, w') \<longrightarrow>
        held w k = None \<and> held w' = (held w)(k \<mapsto> t) \<and> used w' = used w) \<and>
     (\<forall>k t d w w' e. SetNX red k t d w = (Some e, w') \<longrightarrow> held w \<subseteq>\<^sub>m held w' \<and> used w' = used w)"

definition commands_ok :: "'w server \<Rightarrow> ('w \<Rightarrow> string \<Rightarrow> string option) \<Rightarrow> bool" where
  "commands_ok red held \<longleftrightarrow>
     (\<forall>k w. rGET red k w = held w k) \<and>
     (\<forall>k w. fst (rDEL red k w) = (if held w k = None then 0 else 1) \<and>
        held (snd (rDEL red k w)) = (held w)(k := None)) \<and>
     (\<forall>k ms w. held (snd (rPEXPIRE red k ms w)) = (if 0 < ms then held w else (held w)(k := None)))"

definition script_ok :: "'w server \<Rightarrow> ('w \<Rightarrow> string \<Rightarrow> string option) \<Rightarrow> ('w \<Rightarrow> string set) \<Rightarrow> bool" where
  "script_ok red held used \<longleftrightarrow>
     (\<forall>f w w' n. RunScript red f w = (Inr n, w') \<longrightarrow> n = fst (f w) \<and> held w' = held (snd (f w))) \<and>
     (\<forall>f w w' e. RunScript red f w = (Inl e, w') \<longrightarrow> held w' = held w \<or> held w' = held (snd (f w))) \<and>
     (\<forall>f w. used (snd (RunScript red f w)) = used w)"

definition token_ok :: "'w server \<Rightarrow> ('w \<Rightarrow> string \<Rightarrow> string option) \<Rightarrow> ('w \<Rightarrow> string set) \<Rightarrow> bool" where
  "token_ok red held used \<longleftrightarrow>
     (\<forall>w t w'. newToken red w = (t, w') \<longrightarrow>
        t \<notin> used w \<and> used w' = insert t (used w) \<and> held w' = held w)"

definition server_ok :: "'w server \<Rightarrow> ('w \<Rightarrow> string \<Rightarrow> string option) \<Rightarrow> ('w \<Rightarrow> string set) \<Rightarrow> bool" where
  "server_ok red held used \<longleftrightarrow>
     setnx_ok red held used \<and> commands_ok red held \<and> script_ok red held used \<and> token_ok red held used"

section \<open>The operations\<close>

lemma TryAcquire_ok:
  assumes "server_ok red held used" "lock_TryAcquire red k d w = (Inr lk, w')"
  shows "held w k = None \<and> held w' = (held w)(k \<mapsto> ltoken lk) \<and> lkey lk = k \<and> lttl lk = d \<and>
    ltoken lk \<notin> used w \<and> used w' = insert (ltoken lk) (used w)"
proof -
  obtain t w1 where t: "newToken red w = (t, w1)" by fastforce
  have w1: "t \<notin> used w" "used w1 = insert t (used w)" "held w1 = held w"
    using assms(1) t unfolding server_ok_def token_ok_def by blast+
  obtain err w2 where n: "SetNX red k t d w1 = (err, w2)" by fastforce
  have e: "err = None" "lk = \<lparr>lkey = k, ltoken = t, lttl = d, lstop = False\<rparr>" "w' = w2"
    using assms(2) by (auto simp: lock_TryAcquire_def t n split: option.splits if_splits)
  have "held w1 k = None \<and> held w2 = (held w1)(k \<mapsto> t) \<and> used w2 = used w1"
    using assms(1) n unfolding server_ok_def setnx_ok_def e(1) by blast
  with w1 e show ?thesis by simp
qed

lemma TryAcquire_err:
  assumes "server_ok red held used" "lock_TryAcquire red k d w = (Inl e, w')"
  shows "held w \<subseteq>\<^sub>m held w' \<and> used w \<subseteq> used w'"
proof -
  obtain t w1 where t: "newToken red w = (t, w1)" by fastforce
  have w1: "used w1 = insert t (used w)" "held w1 = held w"
    using assms(1) t unfolding server_ok_def token_ok_def by blast+
  obtain err w2 where n: "SetNX red k t d w1 = (err, w2)" by fastforce
  obtain e' where e: "err = Some e'" "w' = w2"
    using assms(2) by (auto simp: lock_TryAcquire_def t n split: option.splits if_splits)
  have "held w1 \<subseteq>\<^sub>m held w2 \<and> used w2 = used w1"
    using assms(1) n unfolding server_ok_def setnx_ok_def e(1) by blast
  with w1 e show ?thesis by auto
qed

lemma releaseScript_held:
  assumes "commands_ok red held"
  shows "held (snd (releaseScript red k t w)) = (if held w k = Some t then (held w)(k := None) else held w)"
    and "fst (releaseScript red k t w) = (if held w k = Some t then 1 else 0)"
  using assms by (auto simp: releaseScript_def commands_ok_def)

lemma renewScript_held:
  assumes "commands_ok red held"
  shows "held (snd (renewScript red k t ms w)) =
    (if held w k = Some t \<and> ms \<le> 0 then (held w)(k := None) else held w)"
  using assms by (auto simp: renewScript_def commands_ok_def)

text \<open>
  The renewal passes the TTL in whole milliseconds, and the ticker needs a TTL of three
  nanoseconds.
\<close>

lemma ttl_ms_pos: "Millisecond \<le> d \<Longrightarrow> 0 < d sdiv Millisecond"
  by (simp add: signed_divide_int_def pos_imp_zdiv_pos_iff)

lemma keepalive_panics: "(\<exists>p. keepalive red lk evs w = Inl p) \<longleftrightarrow> lttl lk < 3"
  by (auto simp: keepalive_def signed_divide_int_def sgn_if pos_imp_zdiv_pos_iff not_le[symmetric] split: if_splits)

lemma keepalive_tick_deletes:
  assumes "server_ok red held used" "0 \<le> lttl lk" "lttl lk < Millisecond" "held w (lkey lk) = Some (ltoken lk)"
    and "RunScript red (renewScript red (lkey lk) (ltoken lk) 0) w = (Inr n, w')"
  shows "held (keepalive_tick red lk w) = (held w)(lkey lk := None)"
proof -
  have "lttl lk sdiv Millisecond = 0" using assms(2,3) by (simp add: signed_divide_int_def sgn_if)
  moreover have "held w' = held (snd (renewScript red (lkey lk) (ltoken lk) 0 w))"
    using assms(1,5) unfolding server_ok_def script_ok_def by blast
  ultimately show ?thesis
    using assms(1,4,5) renewScript_held [of red held "lkey lk" "ltoken lk" 0 w]
    by (simp add: keepalive_tick_def server_ok_def)
qed

lemma keepalive_tick_ok:
  assumes "server_ok red held used" "Millisecond \<le> lttl lk"
  shows "held (keepalive_tick red lk w) = held w \<and> used (keepalive_tick red lk w) = used w"
proof -
  let ?f = "renewScript red (lkey lk) (ltoken lk) (lttl lk sdiv Millisecond)"
  obtain r w' where r: "RunScript red ?f w = (r, w')" by fastforce
  have f: "held (snd (?f w)) = held w"
    using assms renewScript_held [of red held] ttl_ms_pos [OF assms(2)] by (simp add: server_ok_def)
  have "used (snd (RunScript red ?f w)) = used w"
    using assms unfolding server_ok_def script_ok_def by blast
  moreover have "held w' = held w"
    using assms r f unfolding server_ok_def script_ok_def by (cases r) metis+
  ultimately show ?thesis by (simp add: keepalive_tick_def r)
qed

lemma keepalive_loop_ok:
  assumes "server_ok red held used" "Millisecond \<le> lttl lk"
  shows "held (snd (keepalive_loop red lk evs w)) = held w \<and> used (snd (keepalive_loop red lk evs w)) = used w"
proof (induction evs arbitrary: w)
  case (Cons ev evs)
  then show ?case using keepalive_tick_ok [OF assms, of w] by (cases ev) simp_all
qed simp

text \<open>
  \<open>Release\<close> takes the key away only from its own token, and reports success only if it did.
\<close>

lemma lock_Release_ok:
  assumes "server_ok red held used" "lock_Release red lk w = ((r, lk'), w')"
  shows "used w' = used w"
    and "held w' = held w \<or> held w (lkey lk) = Some (ltoken lk) \<and> held w' = (held w)(lkey lk := None)"
    and "r = None \<Longrightarrow> held w (lkey lk) = Some (ltoken lk) \<and> held w' = (held w)(lkey lk := None)"
    and "lkey lk' = lkey lk \<and> ltoken lk' = ltoken lk \<and> lttl lk' = lttl lk"
proof -
  let ?f = "releaseScript red (lkey lk) (ltoken lk)"
  obtain q w1 where q: "RunScript red ?f w = (q, w1)" by fastforce
  have w': "w' = w1" and lk': "lkey lk' = lkey lk \<and> ltoken lk' = ltoken lk \<and> lttl lk' = lttl lk"
    using assms(2) by (auto simp: lock_Release_def q Let_def split: sum.splits if_splits)
  have cmd: "commands_ok red held" using assms(1) by (simp add: server_ok_def)
  note rel = releaseScript_held [OF cmd, of "lkey lk" "ltoken lk" w]
  have "used (snd (RunScript red ?f w)) = used w"
    using assms(1) unfolding server_ok_def script_ok_def by blast
  then show "used w' = used w" by (simp add: q w')
  have inl: "held w1 = held w \<or> held w1 = held (snd (?f w))" if "q = Inl e" for e
    using assms(1) q unfolding that server_ok_def script_ok_def by blast
  have inr: "n = fst (?f w) \<and> held w1 = held (snd (?f w))" if "q = Inr n" for n
    using assms(1) q unfolding that server_ok_def script_ok_def by blast
  show "held w' = held w \<or> held w (lkey lk) = Some (ltoken lk) \<and> held w' = (held w)(lkey lk := None)"
    using inl inr rel by (cases q) (auto simp: w' split: if_splits)
  show "held w (lkey lk) = Some (ltoken lk) \<and> held w' = (held w)(lkey lk := None)" if "r = None"
  proof (cases q)
    case (Inl e)
    then show ?thesis using assms(2) that by (simp add: lock_Release_def q)
  next
    case (Inr n)
    then have "n \<noteq> 0" using assms(2) that by (auto simp: lock_Release_def q split: if_splits)
    then show ?thesis using inr [OF Inr] rel by (simp add: w' split: if_splits)
  qed
  show "lkey lk' = lkey lk \<and> ltoken lk' = ltoken lk \<and> lttl lk' = lttl lk" by (rule lk')
qed

text \<open>A second \<open>Release\<close> right after one that succeeded reports an error.\<close>

lemma lock_Release_twice:
  assumes "server_ok red held used" "lock_Release red lk w = ((None, lk'), w')"
  shows "fst (fst (lock_Release red lk' w')) \<noteq> None"
proof
  obtain r2 lk2 w2 where r2: "lock_Release red lk' w' = ((r2, lk2), w2)" by (metis prod.exhaust)
  assume "fst (fst (lock_Release red lk' w')) = None"
  then have "r2 = None" by (simp add: r2)
  then have "held w' (lkey lk') = Some (ltoken lk')" using lock_Release_ok(3) [OF assms(1) r2] by simp
  moreover have "held w' (lkey lk') = None"
    using lock_Release_ok(3,4) [OF assms(1,2)] by simp
  ultimately show False by simp
qed

section \<open>Mutual exclusion\<close>

text \<open>
  The system: the world, the locks that are held (acquired, not released, not expired), and the
  locks of the past, whose holders may still call \<open>Release\<close> or be renewing. An acquisition
  that fails may leave its token behind. The TTLs are at least a millisecond, the unit in which
  the server counts them.
\<close>

record 'w lock_sys =
  world :: 'w
  holders :: "Lock list"
  past :: "Lock list"

inductive lock_step :: "'w server \<Rightarrow> ('w \<Rightarrow> string \<Rightarrow> string option) \<Rightarrow> ('w \<Rightarrow> string set)
    \<Rightarrow> 'w lock_sys \<Rightarrow> unit \<Rightarrow> 'w lock_sys \<Rightarrow> bool" for red held used where
  acquired: "Millisecond \<le> d \<Longrightarrow> lock_TryAcquire red k d (world s) = (Inr lk, w') \<Longrightarrow>
     lock_step red held used s () (s\<lparr>world := w', holders := lk # holders s\<rparr>)"
| refused: "lock_TryAcquire red k d (world s) = (Inl e, w') \<Longrightarrow>
     lock_step red held used s () (s\<lparr>world := w'\<rparr>)"
| release: "lk \<in> set (holders s) \<union> set (past s) \<Longrightarrow> lock_Release red lk (world s) = ((r, lk'), w') \<Longrightarrow>
     lock_step red held used s ()
       (s\<lparr>world := w', holders := filter (\<lambda>l. ltoken l \<noteq> ltoken lk) (holders s), past := lk' # past s\<rparr>)"
| renew: "lk \<in> set (holders s) \<union> set (past s) \<Longrightarrow>
     lock_step red held used s () (s\<lparr>world := keepalive_tick red lk (world s)\<rparr>)"
| expire: "held w' = (held (world s))(k := None) \<Longrightarrow> used w' = used (world s) \<Longrightarrow>
     lock_step red held used s ()
       (s\<lparr>world := w', holders := filter (\<lambda>l. lkey l \<noteq> k) (holders s),
          past := filter (\<lambda>l. lkey l = k) (holders s) @ past s\<rparr>)"

definition lock_inv :: "('w \<Rightarrow> string \<Rightarrow> string option) \<Rightarrow> ('w \<Rightarrow> string set) \<Rightarrow> 'w lock_sys \<Rightarrow> bool" where
  "lock_inv held used s \<longleftrightarrow>
     (\<forall>lk \<in> set (holders s). held (world s) (lkey lk) = Some (ltoken lk)) \<and>
     distinct (map ltoken (holders s)) \<and>
     (\<forall>lk \<in> set (holders s). ltoken lk \<notin> ltoken ` set (past s)) \<and>
     (\<forall>lk \<in> set (holders s) \<union> set (past s). Millisecond \<le> lttl lk) \<and>
     ltoken ` (set (holders s) \<union> set (past s)) \<subseteq> used (world s)"

definition lock_init :: "'w lock_sys \<Rightarrow> bool" where
  "lock_init s \<longleftrightarrow> holders s = [] \<and> past s = []"

lemma distinct_map_filter': "distinct (map f xs) \<Longrightarrow> distinct (map f (filter P xs))"
  by (simp add: distinct_map_filter)

lemma lock_inv_release:
  assumes srv: "server_ok red held used" and inv: "lock_inv held used s"
    and lk: "lk \<in> set (holders s) \<union> set (past s)"
    and rel: "lock_Release red lk (world s) = ((r, lk'), w')"
  shows "lock_inv held used
    (s\<lparr>world := w', holders := filter (\<lambda>l. ltoken l \<noteq> ltoken lk) (holders s), past := lk' # past s\<rparr>)"
proof -
  note R = lock_Release_ok [OF srv rel]
  have keep: "held w' (lkey l) = Some (ltoken l)" if l: "l \<in> set (holders s)" "ltoken l \<noteq> ltoken lk" for l
  proof -
    have h: "held (world s) (lkey l) = Some (ltoken l)" using inv l(1) by (simp add: lock_inv_def)
    show ?thesis
    proof (cases "held w' = held (world s)")
      case False
      with R(2) h l(2) show ?thesis by (cases "lkey l = lkey lk") auto
    qed (simp add: h)
  qed
  have "ltoken lk' \<in> used w'" "\<forall>x \<in> set (holders s) \<union> set (past s). ltoken x \<in> used w'"
      "Millisecond \<le> lttl lk'"
    using inv lk R(1,4) by (auto simp: lock_inv_def)
  with keep show ?thesis
    using inv R(4) by (auto simp: lock_inv_def distinct_map_filter')
qed

lemma lock_inv_expire:
  assumes inv: "lock_inv held used s"
    and w': "held w' = (held (world s))(k := None)" "used w' = used (world s)"
  shows "lock_inv held used
    (s\<lparr>world := w', holders := filter (\<lambda>l. lkey l \<noteq> k) (holders s),
       past := filter (\<lambda>l. lkey l = k) (holders s) @ past s\<rparr>)"
proof -
  have "a = b" if "a \<in> set (holders s)" "b \<in> set (holders s)" "ltoken a = ltoken b" for a b
    using inv that by (auto simp: lock_inv_def distinct_map inj_on_def)
  then have "ltoken a \<notin> ltoken ` {b \<in> set (holders s). lkey b = k}" if "a \<in> set (holders s)" "lkey a \<noteq> k" for a
    using that by fastforce
  then show ?thesis
    using inv by (auto simp: lock_inv_def w' distinct_map_filter')
qed

lemma lock_inv_step:
  assumes srv: "server_ok red held used" and "lock_step red held used s e s'" and inv: "lock_inv held used s"
  shows "lock_inv held used s'"
  using assms(2)
proof (cases rule: lock_step.cases)
  case (acquired k d lk w')
  note A = TryAcquire_ok [OF srv acquired(4)]
  then show ?thesis using inv acquired(3) unfolding acquired by (auto simp: lock_inv_def)
next
  case (refused k d e w')
  then show ?thesis
    using inv TryAcquire_err [OF srv refused(3)] unfolding refused
    by (auto simp: lock_inv_def map_le_def dom_def)
next
  case (release lk r lk' w')
  then show ?thesis using lock_inv_release [OF srv inv] by blast
next
  case (renew lk)
  then show ?thesis
    using inv keepalive_tick_ok [OF srv, of lk "world s"] unfolding renew by (auto simp: lock_inv_def)
next
  case (expire w' k)
  then show ?thesis using lock_inv_expire [OF inv] by blast
qed

lemma lock_step_invariant:
  assumes "server_ok red held used"
  shows "step_invariant lock_init (lock_step red held used) (lock_inv held used)"
  using lock_inv_step [OF assms] by unfold_locales (auto simp: lock_init_def lock_inv_def)

lemma lock_inv_keys:
  assumes "lock_inv held used s"
  shows "distinct (map lkey (holders s))"
proof -
  have ls: "distinct (holders s)" "inj_on ltoken (set (holders s))"
    and h: "\<forall>lk \<in> set (holders s). held (world s) (lkey lk) = Some (ltoken lk)"
    using assms by (simp_all add: lock_inv_def distinct_map)
  have "inj_on lkey (set (holders s))"
  proof (rule inj_onI)
    fix a b
    assume ab: "a \<in> set (holders s)" "b \<in> set (holders s)" "lkey a = lkey b"
    then have "Some (ltoken a) = Some (ltoken b)" using h by metis
    then show "a = b" using inj_onD [OF ls(2) _ ab(1,2)] by simp
  qed
  with ls(1) show ?thesis by (simp add: distinct_map)
qed

text \<open>
  A server that keeps its keys in memory and never fails; its tokens count up.
\<close>

definition mem_held :: "(string \<Rightarrow> string option) \<times> nat \<Rightarrow> string \<Rightarrow> string option" where
  "mem_held w = fst w"

definition mem_used :: "(string \<Rightarrow> string option) \<times> nat \<Rightarrow> string set" where
  "mem_used w = (\<lambda>n. replicate n CHR ''a'') ` {..<snd w}"

definition mem_server :: "((string \<Rightarrow> string option) \<times> nat) server" where
  "mem_server = \<lparr>
     SetNX = (\<lambda>k t d w. if fst w k = None then (None, ((fst w)(k \<mapsto> t), snd w)) else (Some RedisNil, w)),
     rGET = (\<lambda>k w. fst w k),
     rDEL = (\<lambda>k w. (if fst w k = None then 0 else 1, ((fst w)(k := None), snd w))),
     rPEXPIRE = (\<lambda>k ms w. (1, if 0 < ms then w else ((fst w)(k := None), snd w))),
     RunScript = (\<lambda>f w. (Inr (fst (f w)), (fst (snd (f w)), snd w))),
     newToken = (\<lambda>w. (replicate (snd w) CHR ''a'', (fst w, Suc (snd w))))\<rparr>"

lemma mem_server_ok: "server_ok mem_server mem_held mem_used"
proof -
  have "setnx_ok mem_server mem_held mem_used"
    by (auto simp: setnx_ok_def mem_server_def mem_held_def mem_used_def split: if_splits)
  moreover have "commands_ok mem_server mem_held"
    by (auto simp: commands_ok_def mem_server_def mem_held_def)
  moreover have "script_ok mem_server mem_held mem_used"
    by (auto simp: script_ok_def mem_server_def mem_held_def mem_used_def)
  moreover have "token_ok mem_server mem_held mem_used"
    by (auto simp: token_ok_def mem_server_def mem_held_def mem_used_def lessThan_Suc replicate_eq_replicate)
  ultimately show ?thesis by (simp add: server_ok_def)
qed

text \<open>
  C1. Mutual exclusion: however acquisitions, releases (also late and repeated ones), renewals and
  expiries of any number of processes interleave, no two locks that are held, neither released
  nor expired, have the same key, and the server has each one's token under its key.
\<close>

theorem lock_mutual_exclusion:
  assumes "server_ok red held used" "reach lock_init (lock_step red held used) s"
  shows "distinct (map lkey (holders s)) \<and>
    (\<forall>lk \<in> set (holders s). held (world s) (lkey lk) = Some (ltoken lk))"
proof -
  have "lock_inv held used s"
    by (rule step_invariant.reach_inv [OF lock_step_invariant [OF assms(1)] assms(2)])
  then show ?thesis using lock_inv_keys by (auto simp: lock_inv_def)
qed

lemma mem_reach:
  "reach lock_init (lock_step mem_server mem_held mem_used)
     \<lparr>world = ([''k'' \<mapsto> []], 1), holders = [\<lparr>lkey = ''k'', ltoken = [], lttl = Millisecond, lstop = False\<rparr>], past = []\<rparr>"
proof -
  let ?s = "\<lparr>world = (Map.empty, 0), holders = [], past = []\<rparr> :: ((string \<Rightarrow> string option) \<times> nat) lock_sys"
  let ?l = "\<lparr>lkey = ''k'', ltoken = [], lttl = Millisecond, lstop = False\<rparr>"
  have "reach lock_init (lock_step mem_server mem_held mem_used) ?s"
    by (rule reach_start) (simp add: lock_init_def)
  moreover have "lock_TryAcquire mem_server ''k'' Millisecond (world ?s) = (Inr ?l, ([''k'' \<mapsto> []], 1))"
    by (simp add: lock_TryAcquire_def mem_server_def)
  from lock_step.acquired [OF _ this] have "lock_step mem_server mem_held mem_used ?s ()
      (?s\<lparr>world := ([''k'' \<mapsto> []], 1), holders := ?l # holders ?s\<rparr>)"
    by simp
  ultimately show ?thesis using reach_step by fastforce
qed

theorem lock_mutual_exclusion_witness:
  "mem_held ([''k'' \<mapsto> []], 1) ''k'' = Some []"
  using lock_mutual_exclusion [OF mem_server_ok mem_reach] by simp

section \<open>Acquire and WithLock\<close>

lemma acquire_loop_returns:
  assumes "retryOk l" "0 < n" "retryN l \<le> attempt + int n"
  shows "\<exists>r. acquire_loop n red pause l key ttl attempt w = Some r"
  using assms
proof (induction n arbitrary: attempt w)
  case (Suc n)
  show ?case
  proof (cases "retryN l \<le> attempt + 1")
    case False
    with Suc.prems have "0 < n" "retryN l \<le> attempt + 1 + int n" by auto
    then show ?thesis
      using Suc.IH [OF Suc.prems(1)] by (auto split: prod.split sum.split option.split)
  qed (use Suc.prems(1) in \<open>auto split: prod.split sum.split option.split\<close>)
qed simp

lemma acquire_loop_held:
  assumes "server_ok red held used" "acquire_loop n red pause l key ttl attempt w = Some (Inr lk, w1)"
  shows "lkey lk = key \<and> held w1 key = Some (ltoken lk)"
  using assms(2)
proof (induction n arbitrary: attempt w)
  case (Suc n)
  obtain r w' where r: "lock_TryAcquire red key ttl w = (r, w')" by fastforce
  show ?case
  proof (cases r)
    case (Inl e)
    then show ?thesis
      using Suc by (auto simp: r split: if_splits prod.splits option.splits)
  next
    case (Inr lk')
    then show ?thesis using Suc.prems TryAcquire_ok [OF assms(1), of key ttl w lk' w'] by (simp add: r)
  qed
qed simp



end
