(* ===== verification/Store.thy ===== *)
theory Store
  imports GoStd
begin

text \<open>
  The database layer of \<open>pkg/store\<close>: queries and \<open>WithTx\<close> with their tracing
  (\<open>store.go\<close>), the options and the migrations. The pgx pool, its transactions, the tracer, the
  logger and the migration library are parameters. A statement is of an arbitrary type \<open>'s\<close>; each
  package that uses the database has a datatype of its statements, with their arguments.
\<close>

section \<open>The libraries\<close>

datatype span_op =
    SpanStart string "(string \<times> string) list"
  | SpanError err
  | SpanStatus string
  | SpanEnd

record ('t, 's, 'q, 'r, 'w) pg =
  BeginTx :: "('w, err + 't) action"
  Commit :: "'t \<Rightarrow> ('w, err option) action"
  Rollback :: "'t \<Rightarrow> ('w, err option) action"
  tx_Exec :: "'t \<Rightarrow> 's \<Rightarrow> ('w, err option) action"
  tx_Query :: "'t \<Rightarrow> 's \<Rightarrow> ('w, err + 'q) action"
  tx_QueryRow :: "'t \<Rightarrow> 's \<Rightarrow> ('w, 'q) action"
  pool_Exec :: "'s \<Rightarrow> ('w, err option) action"
  pool_Query :: "'s \<Rightarrow> ('w, err + 'q) action"
  pool_QueryRow :: "'s \<Rightarrow> ('w, 'q) action"
  CollectRows :: "'q \<Rightarrow> ('w, err + 'r list) action"
  Scan :: "'q \<Rightarrow> ('w, err + 'r) action"
  pool_Ping :: "('w, err option) action"
  pool_Close :: "'w \<Rightarrow> 'w"
  span :: "span_op \<Rightarrow> 'w \<Rightarrow> 'w"
  log_error :: "string \<Rightarrow> err \<Rightarrow> 'w \<Rightarrow> 'w"
  sql_text :: "'s \<Rightarrow> string"

abbreviation ErrTxClosed :: err where "ErrTxClosed \<equiv> ErrNew ''tx is closed''"
abbreviation ErrNoRows :: err where "ErrNoRows \<equiv> ErrNew ''no rows in result set''"

section \<open>Tracing\<close>

definition startSpan :: "('t, 's, 'q, 'r, 'w) pg \<Rightarrow> string \<Rightarrow> 's \<Rightarrow> 'w \<Rightarrow> 'w" where
  "startSpan pg op sql w =
     span pg (SpanStart (''db.'' @ op) [(''db.system'', ''postgresql''), (''db.statement'', sql_text pg sql)]) w"

definition recordSpanError :: "('t, 's, 'q, 'r, 'w) pg \<Rightarrow> err option \<Rightarrow> 'w \<Rightarrow> 'w" where
  "recordSpanError pg err w =
     (case err of
        Some e \<Rightarrow> span pg (SpanStatus (err_Error e)) (span pg (SpanError e) w)
      | None \<Rightarrow> w)"

section \<open>Contexts\<close>

text \<open>What a context carries for this package: the transaction, and the span of a query.\<close>

record 't db_ctx =
  ctx_tx :: "'t option"
  ctx_span :: bool

definition contextWithTx :: "'t db_ctx \<Rightarrow> 't \<Rightarrow> 't db_ctx" where
  "contextWithTx ctx tx = ctx\<lparr>ctx_tx := Some tx\<rparr>"

definition txFromContext :: "'t db_ctx \<Rightarrow> 't option" where
  "txFromContext ctx = ctx_tx ctx"

definition TraceQueryStart :: "('t, 's, 'q, 'r, 'w) pg \<Rightarrow> 't db_ctx \<Rightarrow> 's \<Rightarrow> 'w \<Rightarrow> 't db_ctx \<times> 'w" where
  "TraceQueryStart pg ctx sql w =
     (let w1 = span pg (SpanStart ''db.query'' [(''db.system'', ''postgresql''), (''db.statement'', sql_text pg sql)]) w
      in (ctx\<lparr>ctx_span := True\<rparr>, w1))"

definition TraceQueryEnd :: "('t, 's, 'q, 'r, 'w) pg \<Rightarrow> 't db_ctx \<Rightarrow> err option \<Rightarrow> 'w \<Rightarrow> 'w" where
  "TraceQueryEnd pg ctx err w =
     (if \<not> ctx_span ctx then w
      else span pg SpanEnd
        (case err of
           Some e \<Rightarrow> span pg (SpanStatus (err_Error e)) (span pg (SpanError e) w)
         | None \<Rightarrow> w))"

section \<open>DB\<close>

definition db_Exec :: "('t, 's, 'q, 'r, 'w) pg \<Rightarrow> 's \<Rightarrow> ('w, err option) action" where
  "db_Exec pg sql w =
     (let w1 = startSpan pg ''exec'' sql w;
          (err, w2) = pool_Exec pg sql w1;
          w3 = recordSpanError pg err w2
      in (err, span pg SpanEnd w3))"

definition db_QueryRow :: "('t, 's, 'q, 'r, 'w) pg \<Rightarrow> 's \<Rightarrow> ('w, 'q) action" where
  "db_QueryRow pg sql w =
     (let w1 = startSpan pg ''query_row'' sql w;
          (row, w2) = pool_QueryRow pg sql w1
      in (row, span pg SpanEnd w2))"

definition db_Query :: "('t, 's, 'q, 'r, 'w) pg \<Rightarrow> 's \<Rightarrow> ('w, err + 'q) action" where
  "db_Query pg sql w =
     (let w1 = startSpan pg ''query'' sql w;
          (rows, w2) = pool_Query pg sql w1;
          w3 = recordSpanError pg (case rows of Inl e \<Rightarrow> Some e | Inr _ \<Rightarrow> None) w2
      in (rows, span pg SpanEnd w3))"

definition db_Ping :: "('t, 's, 'q, 'r, 'w) pg \<Rightarrow> ('w, err option) action" where
  "db_Ping pg w = pool_Ping pg w"

definition db_Check :: "('t, 's, 'q, 'r, 'w) pg \<Rightarrow> ('w, err option) action" where
  "db_Check pg w = db_Ping pg w"

definition db_Close :: "('t, 's, 'q, 'r, 'w) pg \<Rightarrow> 'w \<Rightarrow> 'w" where
  "db_Close pg w = pool_Close pg w"

text \<open>
  \<open>WithTx\<close>. The deferred functions run on every path: the span ends, and after a panic of the
  function the transaction is rolled back and the panic goes on.
\<close>

definition db_WithTx :: "('t, 's, 'q, 'r, 'w) pg \<Rightarrow> 't db_ctx
    \<Rightarrow> ('t db_ctx \<Rightarrow> 't \<Rightarrow> ('w, fn_outcome) action) \<Rightarrow> ('w, fn_outcome) action" where
  "db_WithTx pg ctx fn w =
     (case txFromContext ctx of
        Some tx \<Rightarrow> fn ctx tx w
      | None \<Rightarrow>
          (case BeginTx pg (span pg (SpanStart ''db.transaction'' []) w) of
             (Inl e, w1) \<Rightarrow>
               (FnReturned (Some (Errorf [Lit ''store: begin tx: '', Wrapped e])),
                span pg SpanEnd (recordSpanError pg (Some e) w1))
           | (Inr tx, w1) \<Rightarrow>
               (case fn (contextWithTx ctx tx) tx w1 of
                  (FnPanicked p, w2) \<Rightarrow>
                    let (_, w3) = Rollback pg tx w2;
                        w4 = span pg (SpanError (ErrNew (''panic: '' @ p))) w3;
                        w5 = span pg (SpanStatus ''panic in transaction'') w4
                    in (FnPanicked p, span pg SpanEnd w5)
                | (FnReturned (Some e), w2) \<Rightarrow>
                    let (rbErr, w3) = Rollback pg tx w2;
                        w4 = (case rbErr of
                                Some re \<Rightarrow>
                                  if \<not> errors_Is re ErrTxClosed then log_error pg ''store: rollback failed'' re w3
                                  else w3
                              | None \<Rightarrow> w3)
                    in (FnReturned (Some e), span pg SpanEnd (recordSpanError pg (Some e) w4))
                | (FnReturned None, w2) \<Rightarrow>
                    (case Commit pg tx w2 of
                       (Some e, w3) \<Rightarrow>
                         (FnReturned (Some (Errorf [Lit ''store: commit: '', Wrapped e])),
                          span pg SpanEnd (recordSpanError pg (Some e) w3))
                     | (None, w3) \<Rightarrow> (FnReturned None, span pg SpanEnd w3)))))"

section \<open>Open\<close>

record store_options =
  opt_maxConns :: int
  opt_minConns :: int
  opt_promReg :: bool

definition store_defaultOptions :: store_options where
  "store_defaultOptions = \<lparr>opt_maxConns = 0, opt_minConns = 0, opt_promReg = False\<rparr>"

definition WithMaxConns :: "int \<Rightarrow> store_options \<Rightarrow> store_options" where
  "WithMaxConns n o' = o'\<lparr>opt_maxConns := n\<rparr>"

definition WithMinConns :: "int \<Rightarrow> store_options \<Rightarrow> store_options" where
  "WithMinConns n o' = o'\<lparr>opt_minConns := n\<rparr>"

definition WithPrometheus :: "store_options \<Rightarrow> store_options" where
  "WithPrometheus o' = o'\<lparr>opt_promReg := True\<rparr>"

text \<open>The part of pgx's configuration that the code reads or writes.\<close>

record pg_config =
  MaxConns :: int
  MinConns :: int
  cfg_Host :: string
  cfg_Database :: string
  cfg_User :: string
  cfg_traced :: bool

record ('p, 'w) pgx_lib =
  ParseConfig :: "string \<Rightarrow> err + pg_config"
  NewWithConfig :: "pg_config \<Rightarrow> ('w, err + 'p) action"
  lib_Ping :: "'p \<Rightarrow> ('w, err option) action"
  lib_Close :: "'p \<Rightarrow> 'w \<Rightarrow> 'w"
  Register :: "'p \<Rightarrow> ('w, err option) action"
  log_info :: "string \<Rightarrow> string \<Rightarrow> 'w \<Rightarrow> 'w"

definition maskDSN :: "('p, 'w) pgx_lib \<Rightarrow> string \<Rightarrow> string" where
  "maskDSN lib dsn =
     (case ParseConfig lib dsn of
        Inl _ \<Rightarrow> ''<unparseable>''
      | Inr u \<Rightarrow> ''postgres://'' @ cfg_User u @ ''@'' @ cfg_Host u @ ''/'' @ cfg_Database u)"

definition open_config :: "store_options \<Rightarrow> pg_config \<Rightarrow> pg_config" where
  "open_config o' cfg =
     (let cfg1 = (if opt_maxConns o' > 0 then cfg\<lparr>MaxConns := opt_maxConns o'\<rparr> else cfg);
          cfg2 = (if opt_minConns o' > 0 then cfg1\<lparr>MinConns := opt_minConns o'\<rparr> else cfg1)
      in cfg2\<lparr>cfg_traced := True\<rparr>)"

definition store_Open :: "('p, 'w) pgx_lib \<Rightarrow> string \<Rightarrow> (store_options \<Rightarrow> store_options) list \<Rightarrow> ('w, err + 'p) action" where
  "store_Open lib dsn opts w =
     (case ParseConfig lib dsn of
        Inl e \<Rightarrow> (Inl (Errorf [Lit ''store: parse DSN: '', Wrapped e]), w)
      | Inr cfg \<Rightarrow>
          let o' = fold (\<lambda>f c. f c) opts store_defaultOptions in
          (case NewWithConfig lib (open_config o' cfg) w of
             (Inl e, w1) \<Rightarrow> (Inl (Errorf [Lit ''store: create pool: '', Wrapped e]), w1)
           | (Inr pool, w1) \<Rightarrow>
               (case lib_Ping lib pool w1 of
                  (Some e, w2) \<Rightarrow> (Inl (Errorf [Lit ''store: ping: '', Wrapped e]), lib_Close lib pool w2)
                | (None, w2) \<Rightarrow>
                    (case (if opt_promReg o' then Register lib pool w2 else (None, w2)) of
                       (Some e, w3) \<Rightarrow>
                         (Inl (Errorf [Lit ''store: register metrics: '', Wrapped e]), lib_Close lib pool w3)
                     | (None, w3) \<Rightarrow>
                         (Inr pool, log_info lib ''store: connected to postgres'' (maskDSN lib dsn) w3)))))"

text \<open>
  \<open>Open\<close> leaves no pool behind when it fails: with \<open>live\<close> the pools that are open, an error leaves
  the pools that were open before.
\<close>

lemma store_Open_no_leak:
  assumes new: "\<And>cfg w p w'. NewWithConfig lib cfg w = (Inr p, w') \<Longrightarrow> live w' = insert p (live w) \<and> p \<notin> live w"
    and new_err: "\<And>cfg w e w'. NewWithConfig lib cfg w = (Inl e, w') \<Longrightarrow> live w' = live w"
    and ping: "\<And>p w. live (snd (lib_Ping lib p w)) = live w"
    and reg: "\<And>p w. live (snd (Register lib p w)) = live w"
    and cls: "\<And>p w. live (lib_Close lib p w) = live w - {p}"
    and err: "store_Open lib dsn opts w = (Inl e, w')"
  shows "live w' = live w"
proof (cases "ParseConfig lib dsn")
  case (Inl pe)
  then show ?thesis using err by (simp add: store_Open_def)
next
  case (Inr cfg)
  let ?o = "fold (\<lambda>f c. f c) opts store_defaultOptions"
  obtain r w1 where r: "NewWithConfig lib (open_config ?o cfg) w = (r, w1)" by fastforce
  show ?thesis
  proof (cases r)
    case (Inl ne)
    then show ?thesis using err Inr r new_err by (simp add: store_Open_def)
  next
    case p: (Inr p)
    obtain pe w2 where pe: "lib_Ping lib p w1 = (pe, w2)" by fastforce
    obtain re w3 where re: "(if opt_promReg ?o then Register lib p w2 else (None, w2)) = (re, w3)" by fastforce
    have l1: "live w1 = insert p (live w)" "p \<notin> live w" using new r p by auto
    have l2: "live w2 = live w1" using ping [of p w1] pe by simp
    have l3: "live w3 = live w2" using reg [of p w2] re by (auto split: if_splits)
    have "w' = lib_Close lib p w2 \<or> w' = lib_Close lib p w3"
      using err Inr r p pe re by (auto simp: store_Open_def Let_def split: option.splits if_splits)
    then show ?thesis using cls l1 l2 l3 by auto
  qed
qed

section \<open>Migrations\<close>

abbreviation ErrNoChange :: err where "ErrNoChange \<equiv> ErrNew ''no change''"
abbreviation ErrNilVersion :: err where "ErrNilVersion \<equiv> ErrNew ''no migration''"

record ('m, 'w) migrate_lib =
  migrate_New :: "string \<Rightarrow> string \<Rightarrow> ('w, err + 'm) action"
  migrate_Up :: "'m \<Rightarrow> ('w, err option) action"
  migrate_Down :: "'m \<Rightarrow> ('w, err option) action"
  migrate_Steps :: "'m \<Rightarrow> int \<Rightarrow> ('w, err option) action"
  migrate_Version :: "'m \<Rightarrow> ('w, nat \<times> bool \<times> err option) action"

fun stripScheme_loop :: "string list \<Rightarrow> string \<Rightarrow> string" where
  "stripScheme_loop [] dsn = dsn"
| "stripScheme_loop (pre # ps) dsn =
     (if length dsn > length pre \<and> take (length pre) dsn = pre then drop (length pre) dsn
      else stripScheme_loop ps dsn)"

definition stripScheme :: "string \<Rightarrow> string" where
  "stripScheme dsn = stripScheme_loop [''postgres://'', ''postgresql://''] dsn"

definition newMigrate :: "('m, 'w) migrate_lib \<Rightarrow> string \<Rightarrow> string \<Rightarrow> ('w, err + 'm) action" where
  "newMigrate lib dsn source w =
     (case migrate_New lib source (''pgx5://'' @ stripScheme dsn) w of
        (Inl e, w1) \<Rightarrow> (Inl (Errorf [Lit ''store: create migrator: '', Wrapped e]), w1)
      | (Inr m, w1) \<Rightarrow> (Inr m, w1))"

definition MigrateUp :: "('m, 'w) migrate_lib \<Rightarrow> string \<Rightarrow> string \<Rightarrow> ('w, err option) action" where
  "MigrateUp lib dsn source w =
     (case newMigrate lib dsn source w of
        (Inl e, w1) \<Rightarrow> (Some e, w1)
      | (Inr m, w1) \<Rightarrow>
          (case migrate_Up lib m w1 of
             (Some e, w2) \<Rightarrow>
               if errors_Is e ErrNoChange then (None, w2)
               else (Some (Errorf [Lit ''store: migrate up: '', Wrapped e]), w2)
           | (None, w2) \<Rightarrow> (None, w2)))"

definition MigrateDown :: "('m, 'w) migrate_lib \<Rightarrow> string \<Rightarrow> string \<Rightarrow> ('w, err option) action" where
  "MigrateDown lib dsn source w =
     (case newMigrate lib dsn source w of
        (Inl e, w1) \<Rightarrow> (Some e, w1)
      | (Inr m, w1) \<Rightarrow>
          (case migrate_Down lib m w1 of
             (Some e, w2) \<Rightarrow>
               if errors_Is e ErrNoChange then (None, w2)
               else (Some (Errorf [Lit ''store: migrate down: '', Wrapped e]), w2)
           | (None, w2) \<Rightarrow> (None, w2)))"

definition MigrateSteps :: "('m, 'w) migrate_lib \<Rightarrow> string \<Rightarrow> string \<Rightarrow> int \<Rightarrow> ('w, err option) action" where
  "MigrateSteps lib dsn source n w =
     (case newMigrate lib dsn source w of
        (Inl e, w1) \<Rightarrow> (Some e, w1)
      | (Inr m, w1) \<Rightarrow>
          (case migrate_Steps lib m n w1 of
             (Some e, w2) \<Rightarrow>
               if errors_Is e ErrNoChange then (None, w2)
               else (Some (Errorf [Lit ''store: migrate steps '', Dec n, Lit '': '', Wrapped e]), w2)
           | (None, w2) \<Rightarrow> (None, w2)))"

definition MigrateVersion :: "('m, 'w) migrate_lib \<Rightarrow> string \<Rightarrow> string \<Rightarrow> ('w, nat \<times> bool \<times> err option) action" where
  "MigrateVersion lib dsn source w =
     (case newMigrate lib dsn source w of
        (Inl e, w1) \<Rightarrow> ((0, False, Some e), w1)
      | (Inr m, w1) \<Rightarrow>
          (case migrate_Version lib m w1 of
             ((v, d, Some e), w2) \<Rightarrow>
               if errors_Is e ErrNilVersion then ((0, False, None), w2) else ((v, d, Some e), w2)
           | ((v, d, None), w2) \<Rightarrow> ((v, d, None), w2)))"

text \<open>
  The scheme is replaced on a DSN that has one of the two and something after it; a bare scheme
  is kept.
\<close>

lemma stripScheme_postgres:
  "s \<noteq> [] \<Longrightarrow> stripScheme (''postgres://'' @ s) = s"
  "s \<noteq> [] \<Longrightarrow> stripScheme (''postgresql://'' @ s) = s"
  "stripScheme ''postgres://'' = ''postgres://''"
  by (simp_all add: stripScheme_def)

section \<open>What the database promises\<close>

text \<open>
  What is observed of the database by a session: the committed tables, the tables as a
  transaction sees them, whether the transaction has failed (PostgreSQL then refuses to commit
  it), and its time, which \<open>NOW()\<close> gives. The laws describe a database that no other session
  writes to meanwhile.
\<close>

record ('t, 'd, 'w) db_view =
  committed :: "'w \<Rightarrow> 'd"
  view :: "'w \<Rightarrow> 't \<Rightarrow> 'd"
  aborted :: "'w \<Rightarrow> 't \<Rightarrow> bool"
  txnow :: "'w \<Rightarrow> 't \<Rightarrow> gotime"

definition same_db :: "('t, 'd, 'w) db_view \<Rightarrow> 'w \<Rightarrow> 'w \<Rightarrow> bool" where
  "same_db v w w' \<longleftrightarrow>
     committed v w' = committed v w \<and> view v w' = view v w \<and> aborted v w' = aborted v w \<and> txnow v w' = txnow v w"

definition pg_tx_ok :: "('t, 's, 'q, 'r, 'w) pg \<Rightarrow> ('t, 'd, 'w) db_view \<Rightarrow> bool" where
  "pg_tx_ok pg v \<longleftrightarrow>
     (\<forall>w t w'. BeginTx pg w = (Inr t, w') \<longrightarrow>
        committed v w' = committed v w \<and> view v w' t = committed v w \<and> \<not> aborted v w' t) \<and>
     (\<forall>w e w'. BeginTx pg w = (Inl e, w') \<longrightarrow> committed v w' = committed v w) \<and>
     (\<forall>t w w'. Commit pg t w = (None, w') \<longrightarrow> \<not> aborted v w t \<and> committed v w' = view v w t) \<and>
     (\<forall>t w e w'. Commit pg t w = (Some e, w') \<longrightarrow>
        committed v w' = committed v w \<or> \<not> aborted v w t \<and> committed v w' = view v w t) \<and>
     (\<forall>t w. committed v (snd (Rollback pg t w)) = committed v w) \<and>
     (\<forall>x w. same_db v w (span pg x w)) \<and>
     (\<forall>m e w. same_db v w (log_error pg m e w))"

text \<open>
  A statement in a transaction: if it succeeds the transaction sees its effect, given by \<open>sem\<close>; if
  it fails the transaction has failed. It commits nothing.
\<close>

definition pg_exec_ok :: "('t, 's, 'q, 'r, 'w) pg \<Rightarrow> ('t, 'd, 'w) db_view \<Rightarrow> ('s \<Rightarrow> gotime \<Rightarrow> 'd \<Rightarrow> 'd \<Rightarrow> bool) \<Rightarrow> bool" where
  "pg_exec_ok pg v sem \<longleftrightarrow>
     (\<forall>t s w w'. tx_Exec pg t s w = (None, w') \<longrightarrow>
        sem s (txnow v w t) (view v w t) (view v w' t) \<and> aborted v w' t = aborted v w t) \<and>
     (\<forall>t s w e w'. tx_Exec pg t s w = (Some e, w') \<longrightarrow> aborted v w' t) \<and>
     (\<forall>t s w. committed v (snd (tx_Exec pg t s w)) = committed v w \<and>
        txnow v (snd (tx_Exec pg t s w)) t = txnow v w t)"

text \<open>
  A query in a transaction changes no table; its rows, once collected, are among those that
  \<open>qsem\<close> allows. A query that fails fails the transaction.
\<close>

definition pg_query_ok :: "('t, 's, 'q, 'r, 'w) pg \<Rightarrow> ('t, 'd, 'w) db_view \<Rightarrow> ('s \<Rightarrow> gotime \<Rightarrow> 'd \<Rightarrow> 'r list \<Rightarrow> bool) \<Rightarrow> bool" where
  "pg_query_ok pg v qsem \<longleftrightarrow>
     (\<forall>t s w q w1. tx_Query pg t s w = (Inr q, w1) \<longrightarrow> same_db v w w1 \<and>
        (\<forall>rs w2. CollectRows pg q w1 = (Inr rs, w2) \<longrightarrow> same_db v w1 w2 \<and> qsem s (txnow v w t) (view v w t) rs)) \<and>
     (\<forall>t s w q w1. tx_QueryRow pg t s w = (q, w1) \<longrightarrow> same_db v w w1 \<and>
        (\<forall>r w2. Scan pg q w1 = (Inr r, w2) \<longrightarrow> same_db v w1 w2 \<and>
           (\<exists>rs. qsem s (txnow v w t) (view v w t) (r # rs)))) \<and>
     (\<forall>t s w. committed v (snd (tx_Query pg t s w)) = committed v w) \<and>
     (\<forall>q w. committed v (snd (CollectRows pg q w)) = committed v w) \<and>
     (\<forall>q w. committed v (snd (Scan pg q w)) = committed v w)"

text \<open>
  Statements and queries outside of a transaction work on the committed tables. A statement that
  reports an error may have been carried out.
\<close>

definition pg_pool_ok :: "('t, 's, 'q, 'r, 'w) pg \<Rightarrow> ('t, 'd, 'w) db_view \<Rightarrow> ('s \<Rightarrow> gotime \<Rightarrow> 'd \<Rightarrow> 'd \<Rightarrow> bool)
    \<Rightarrow> ('s \<Rightarrow> gotime \<Rightarrow> 'd \<Rightarrow> 'r list \<Rightarrow> bool) \<Rightarrow> bool" where
  "pg_pool_ok pg v sem qsem \<longleftrightarrow>
     (\<forall>s w w'. pool_Exec pg s w = (None, w') \<longrightarrow> (\<exists>now. sem s now (committed v w) (committed v w'))) \<and>
     (\<forall>s w e w'. pool_Exec pg s w = (Some e, w') \<longrightarrow>
        committed v w' = committed v w \<or> (\<exists>now. sem s now (committed v w) (committed v w'))) \<and>
     (\<forall>s w q w1. pool_Query pg s w = (Inr q, w1) \<longrightarrow> committed v w1 = committed v w \<and>
        (\<forall>x rs w2. same_db v w1 x \<longrightarrow> CollectRows pg q x = (Inr rs, w2) \<longrightarrow> (\<exists>now. qsem s now (committed v w) rs))) \<and>
     (\<forall>s w q w1. pool_QueryRow pg s w = (q, w1) \<longrightarrow> committed v w1 = committed v w \<and>
        (\<forall>x r w2. same_db v w1 x \<longrightarrow> Scan pg q x = (Inr r, w2) \<longrightarrow> (\<exists>now rs. qsem s now (committed v w) (r # rs))) \<and>
        (\<forall>x e w2. same_db v w1 x \<longrightarrow> Scan pg q x = (Inl e, w2) \<longrightarrow> errors_Is e ErrNoRows \<longrightarrow>
           (\<exists>now. qsem s now (committed v w) []))) \<and>
     (\<forall>s w. committed v (snd (pool_Query pg s w)) = committed v w)"

text \<open>The database leaves alone what \<open>f\<close> observes of the world.\<close>

definition pg_frame :: "('t, 's, 'q, 'r, 'w) pg \<Rightarrow> ('w \<Rightarrow> 'a) \<Rightarrow> bool" where
  "pg_frame pg f \<longleftrightarrow>
     (\<forall>w. f (snd (BeginTx pg w)) = f w) \<and> (\<forall>t w. f (snd (Commit pg t w)) = f w) \<and>
     (\<forall>t w. f (snd (Rollback pg t w)) = f w) \<and> (\<forall>t s w. f (snd (tx_Exec pg t s w)) = f w) \<and>
     (\<forall>t s w. f (snd (tx_Query pg t s w)) = f w) \<and> (\<forall>q w. f (snd (CollectRows pg q w)) = f w) \<and>
     (\<forall>x w. f (span pg x w) = f w) \<and> (\<forall>m e w. f (log_error pg m e w) = f w)"

lemma same_dbD:
  assumes "same_db v w w'"
  shows "committed v w' = committed v w" "view v w' = view v w" "aborted v w' = aborted v w" "txnow v w' = txnow v w"
  using assms by (simp_all add: same_db_def)

lemma same_db_refl [simp]: "same_db v w w"
  by (simp add: same_db_def)

lemma same_db_trans: "same_db v w w1 \<Longrightarrow> same_db v w1 w2 \<Longrightarrow> same_db v w w2"
  by (simp add: same_db_def)

lemma span_same: "pg_tx_ok pg v \<Longrightarrow> same_db v w (span pg x w)"
  by (simp add: pg_tx_ok_def)

lemma recordSpanError_same: "pg_tx_ok pg v \<Longrightarrow> same_db v w (recordSpanError pg e w)"
  by (auto simp: recordSpanError_def split: option.split intro: same_db_trans span_same)

lemma span_end_same: "pg_tx_ok pg v \<Longrightarrow> committed v (span pg SpanEnd (recordSpanError pg e w)) = committed v w"
  by (metis same_dbD(1) span_same recordSpanError_same)

lemma span_committed [simp]: "pg_tx_ok pg v \<Longrightarrow> committed v (span pg x w) = committed v w"
  by (metis same_dbD(1) span_same)

lemma pg_frameD:
  assumes "pg_frame pg f"
  shows "f (snd (tx_Exec pg t s w)) = f w" "f (snd (tx_Query pg t s w)) = f w" "f (snd (CollectRows pg q w)) = f w"
  using assms by (simp_all add: pg_frame_def)

lemma exec_committed: "pg_exec_ok pg v sem \<Longrightarrow> committed v (snd (tx_Exec pg t s w)) = committed v w"
  by (simp add: pg_exec_ok_def)

lemma exec_sem:
  assumes "pg_exec_ok pg v sem" "tx_Exec pg t s w = (None, w')"
  shows "sem s (txnow v w t) (view v w t) (view v w' t) \<and> aborted v w' t = aborted v w t \<and> txnow v w' t = txnow v w t"
proof -
  have "txnow v (snd (tx_Exec pg t s w)) t = txnow v w t" using assms(1) by (simp add: pg_exec_ok_def)
  then show ?thesis
    using conjunct1 [OF assms(1) [unfolded pg_exec_ok_def], rule_format, OF assms(2)] by (simp add: assms(2))
qed

lemma query_committed:
  assumes "pg_query_ok pg v qsem"
  shows "committed v (snd (tx_Query pg t s w)) = committed v w" "committed v (snd (CollectRows pg q w)) = committed v w"
    "committed v (snd (Scan pg q w)) = committed v w"
  using assms by (simp_all add: pg_query_ok_def)

text \<open>A query whose rows have been collected.\<close>

lemma query_rows:
  assumes "pg_query_ok pg v qsem" "tx_Query pg t s w = (Inr q, w1)" "CollectRows pg q w1 = (Inr rs, w2)"
  shows "same_db v w w2 \<and> qsem s (txnow v w t) (view v w t) rs"
proof -
  note ok = conjunct1 [OF assms(1) [unfolded pg_query_ok_def], rule_format, OF assms(2)]
  then have s: "same_db v w w1" by (rule conjunct1)
  from ok have "same_db v w1 w2 \<and> qsem s (txnow v w t) (view v w t) rs" using assms(3) by simp
  then show ?thesis using same_db_trans [OF s] by simp
qed

lemma query_row:
  assumes "pg_query_ok pg v qsem" "tx_QueryRow pg t s w = (q, w1)"
  shows "same_db v w w1"
    and "Scan pg q w1 = (Inr r, w2) \<Longrightarrow> same_db v w w2 \<and> (\<exists>rs. qsem s (txnow v w t) (view v w t) (r # rs))"
proof -
  note ok = conjunct1 [OF conjunct2 [OF assms(1) [unfolded pg_query_ok_def]], rule_format, OF assms(2)]
  then show s: "same_db v w w1" by (rule conjunct1)
  assume "Scan pg q w1 = (Inr r, w2)"
  with ok have "same_db v w1 w2 \<and> (\<exists>rs. qsem s (txnow v w t) (view v w t) (r # rs))" by simp
  then show "same_db v w w2 \<and> (\<exists>rs. qsem s (txnow v w t) (view v w t) (r # rs))"
    using same_db_trans [OF s] by simp
qed

text \<open>The transaction that \<open>WithTx\<close> opens, and the four ways in which it ends.\<close>

lemma WithTx_begin:
  assumes ok: "pg_tx_ok pg v" and new: "txFromContext ctx = None"
  obtains (failed) e w' w1 where "db_WithTx pg ctx fn w = (FnReturned (Some (Errorf [Lit ''store: begin tx: '', Wrapped e])), w')"
      "committed v w' = committed v w" "BeginTx pg (span pg (SpanStart ''db.transaction'' []) w) = (Inl e, w1)"
  | (started) tx w1 where "BeginTx pg (span pg (SpanStart ''db.transaction'' []) w) = (Inr tx, w1)"
      "committed v w1 = committed v w" "view v w1 tx = committed v w" "\<not> aborted v w1 tx"
proof -
  obtain r w1 where r: "BeginTx pg (span pg (SpanStart ''db.transaction'' []) w) = (r, w1)" by fastforce
  show thesis
  proof (cases r)
    case (Inl e)
    have "committed v w1 = committed v (span pg (SpanStart ''db.transaction'' []) w)"
      using ok r unfolding Inl pg_tx_ok_def by blast
    moreover have "db_WithTx pg ctx fn w = (FnReturned (Some (Errorf [Lit ''store: begin tx: '', Wrapped e])),
        span pg SpanEnd (recordSpanError pg (Some e) w1))"
      using r Inl new by (simp add: db_WithTx_def)
    ultimately show thesis using failed span_end_same [OF ok] ok r Inl by simp
  next
    case (Inr tx)
    have "committed v w1 = committed v (span pg (SpanStart ''db.transaction'' []) w) \<and>
        view v w1 tx = committed v (span pg (SpanStart ''db.transaction'' []) w) \<and> \<not> aborted v w1 tx"
      using ok r unfolding Inr pg_tx_ok_def by blast
    with r Inr ok show thesis by (intro started [of tx w1]) simp_all
  qed
qed

lemma WithTx_frame:
  assumes fr: "pg_frame pg f" and new: "txFromContext ctx = None"
    and beg: "BeginTx pg (span pg (SpanStart ''db.transaction'' []) w) = (Inr tx, w1)"
    and fn: "fn (contextWithTx ctx tx) tx w1 = (r, w2)" and res: "db_WithTx pg ctx fn w = (q, w')"
  shows "f w1 = f w" "f w' = f w2"
proof -
  have sp: "f (span pg x u) = f u" and lg: "f (log_error pg m e u) = f u"
    and rb: "f (snd (Rollback pg tx w2)) = f w2" and cm: "f (snd (Commit pg tx w2)) = f w2" for x m e u
    using fr by (simp_all add: pg_frame_def)
  have rs: "f (recordSpanError pg e u) = f u" for e u
    by (simp add: recordSpanError_def sp split: option.split)
  have "f (snd (BeginTx pg (span pg (SpanStart ''db.transaction'' []) w))) = f w" using fr by (simp add: pg_frame_def)
  then show "f w1 = f w" by (simp add: beg)
  consider (panic) p where "r = FnPanicked p" | (err) e where "r = FnReturned (Some e)" | (nil) "r = FnReturned None"
    by (metis fn_outcome.exhaust option.exhaust)
  then show "f w' = f w2"
  proof cases
    case (panic p)
    then show ?thesis using res rb by (auto simp: db_WithTx_def new beg fn case_prod_beta Let_def sp)
  next
    case (err e)
    then show ?thesis
      using res rb by (auto simp: db_WithTx_def new beg fn case_prod_beta Let_def sp rs lg split: option.split)
  next
    case nil
    then show ?thesis
      using res cm by (auto simp: db_WithTx_def new beg fn sp rs case_prod_beta split: option.splits prod.splits)
  qed
qed

lemma WithTx_failed_frame:
  assumes fr: "pg_frame pg f" and new: "txFromContext ctx = None"
    and beg: "BeginTx pg (span pg (SpanStart ''db.transaction'' []) w) = (Inl e, w1)"
  shows "f (snd (db_WithTx pg ctx fn w)) = f w"
proof -
  have "f (snd (BeginTx pg (span pg (SpanStart ''db.transaction'' []) w))) = f w" using fr by (simp add: pg_frame_def)
  then have "f w1 = f w" by (simp add: beg)
  then show ?thesis using fr by (simp add: db_WithTx_def new beg recordSpanError_def pg_frame_def)
qed

lemma WithTx_ends:
  assumes ok: "pg_tx_ok pg v" and new: "txFromContext ctx = None"
    and beg: "BeginTx pg (span pg (SpanStart ''db.transaction'' []) w) = (Inr tx, w1)"
    and fn: "fn (contextWithTx ctx tx) tx w1 = (r, w2)" "committed v w2 = committed v w"
    and res: "db_WithTx pg ctx fn w = (q, w')"
  shows "(\<exists>p. r = FnPanicked p \<and> q = r \<and> committed v w' = committed v w) \<or>
    (\<exists>e. r = FnReturned (Some e) \<and> q = r \<and> committed v w' = committed v w) \<or>
    r = FnReturned None \<and> q = FnReturned None \<and> \<not> aborted v w2 tx \<and> committed v w' = view v w2 tx \<or>
    (\<exists>e. r = FnReturned None \<and> q = FnReturned (Some (Errorf [Lit ''store: commit: '', Wrapped e])) \<and>
       (committed v w' = committed v w \<or> \<not> aborted v w2 tx \<and> committed v w' = view v w2 tx))"
proof -
  have log: "committed v (log_error pg m e x) = committed v x" for m e x
    using ok by (simp add: pg_tx_ok_def same_db_def)
  have rb: "committed v (snd (Rollback pg tx w2)) = committed v w" using ok fn(2) by (simp add: pg_tx_ok_def)
  note simps = db_WithTx_def new beg fn(1) ok span_end_same [OF ok] log
  consider (panic) p where "r = FnPanicked p" | (err) e where "r = FnReturned (Some e)" | (nil) "r = FnReturned None"
    by (metis fn_outcome.exhaust option.exhaust)
  then show ?thesis
  proof cases
    case (panic p)
    then have "q = r \<and> committed v w' = committed v w"
      using res rb by (auto simp: simps case_prod_beta Let_def)
    with panic show ?thesis by simp
  next
    case (err e)
    then have "q = r \<and> committed v w' = committed v w"
      using res rb by (auto simp: simps case_prod_beta Let_def split: option.split)
    with err show ?thesis by simp
  next
    case nil
    obtain c w3 where c: "Commit pg tx w2 = (c, w3)" by fastforce
    show ?thesis
    proof (cases c)
      case None
      have "\<not> aborted v w2 tx \<and> committed v w3 = view v w2 tx"
        using ok c unfolding None pg_tx_ok_def by blast
      then show ?thesis using res nil c None by (auto simp: simps)
    next
      case (Some e)
      have "committed v w3 = committed v w2 \<or> \<not> aborted v w2 tx \<and> committed v w3 = view v w2 tx"
        using ok c unfolding Some pg_tx_ok_def by blast
      then show ?thesis using res nil c Some fn(2) by (auto simp: simps)
    qed
  qed
qed

section \<open>A database in memory\<close>

text \<open>
  A database with one transaction at a time; its world is the committed tables, those of the
  transaction, whether a statement in it failed (\<open>None\<close>), and something else. It shows that the laws can hold, for
  any statements.
\<close>

definition mem_pg :: "('s \<Rightarrow> 'd \<Rightarrow> 'd option) \<Rightarrow> ('s \<Rightarrow> 'd \<Rightarrow> 'r list)
    \<Rightarrow> (unit, 's, 'r list, 'r, 'd \<times> 'd \<times> bool \<times> 'u) pg" where
  "mem_pg ex qu = \<lparr>
     BeginTx = (\<lambda>(c, x, a, u). (Inr (), (c, c, False, u))),
     Commit = (\<lambda>t (c, x, a, u). if a then (Some (ErrNew ''commit unexpectedly resulted in rollback''), (c, c, a, u))
                              else (None, (x, x, a, u))),
     Rollback = (\<lambda>t (c, x, a, u). (None, (c, c, a, u))),
     tx_Exec = (\<lambda>t s (c, x, a, u). case ex s x of
        Some x' \<Rightarrow> (None, (c, x', a, u)) | None \<Rightarrow> (Some (ErrNew ''statement''), (c, x, True, u))),
     tx_Query = (\<lambda>t s (c, x, a, u). (Inr (qu s x), (c, x, a, u))),
     tx_QueryRow = (\<lambda>t s (c, x, a, u). (qu s x, (c, x, a, u))),
     pool_Exec = (\<lambda>s (c, x, a, u). case ex s c of
        Some c' \<Rightarrow> (None, (c', x, a, u)) | None \<Rightarrow> (Some (ErrNew ''statement''), (c, x, a, u))),
     pool_Query = (\<lambda>s (c, x, a, u). (Inr (qu s c), (c, x, a, u))),
     pool_QueryRow = (\<lambda>s (c, x, a, u). (qu s c, (c, x, a, u))),
     CollectRows = (\<lambda>q w. (Inr q, w)),
     Scan = (\<lambda>q w. (case q of [] \<Rightarrow> Inl ErrNoRows | r # _ \<Rightarrow> Inr r, w)),
     pool_Ping = (\<lambda>w. (None, w)),
     pool_Close = (\<lambda>w. w),
     span = (\<lambda>x w. w),
     log_error = (\<lambda>m e w. w),
     sql_text = (\<lambda>s. [])\<rparr>"

definition mem_view :: "(unit, 'd, 'd \<times> 'd \<times> bool \<times> 'u) db_view" where
  "mem_view = \<lparr>committed = fst, view = \<lambda>w t. fst (snd w), aborted = \<lambda>w t. fst (snd (snd w)), txnow = \<lambda>w t. 0\<rparr>"

lemmas mem_defs = mem_pg_def mem_view_def same_db_def

lemma mem_tx_ok: "pg_tx_ok (mem_pg ex qu) mem_view"
  by (auto simp: pg_tx_ok_def mem_defs split: prod.splits if_splits)

lemma mem_exec_ok:
  "(\<And>s d d'. ex s d = Some d' \<Longrightarrow> sem s 0 d d') \<Longrightarrow> pg_exec_ok (mem_pg ex qu) mem_view sem"
  by (auto simp: pg_exec_ok_def mem_defs split: prod.splits option.splits)

lemma mem_query_ok: "(\<And>s d. qsem s 0 d (qu s d)) \<Longrightarrow> pg_query_ok (mem_pg ex qu) mem_view qsem"
  unfolding pg_query_ok_def
proof (intro conjI allI impI)
  assume qu: "\<And>s d. qsem s 0 d (qu s d)"
  fix t s w q w1 r w2
  assume "tx_QueryRow (mem_pg ex qu) t s w = (q, w1)" "Scan (mem_pg ex qu) q w1 = (Inr r, w2)"
  then have "qu s (fst (snd w)) = r # tl q" by (auto simp: mem_pg_def split: prod.splits list.splits)
  then show "\<exists>rs. qsem s (txnow mem_view w t) (view mem_view w t) (r # rs)"
    using qu [of s "fst (snd w)"] by (auto simp: mem_view_def)
qed (auto simp: mem_defs split: prod.splits list.splits)

lemma mem_frame: "pg_frame (mem_pg ex qu) (\<lambda>w. snd (snd (snd w)))"
  by (auto simp: pg_frame_def mem_pg_def split: prod.splits option.splits)

lemma mem_pool_ok:
  assumes "\<And>s d d'. ex s d = Some d' \<Longrightarrow> sem s 0 d d'" "\<And>s d. qsem s 0 d (qu s d)"
  shows "pg_pool_ok (mem_pg ex qu) mem_view sem qsem"
  unfolding pg_pool_ok_def
proof (intro conjI allI impI)
  fix s w q w1 x r w2
  assume "pool_QueryRow (mem_pg ex qu) s w = (q, w1)" "Scan (mem_pg ex qu) q x = (Inr r, w2)"
  then have "qu s (fst w) = r # tl q" by (auto simp: mem_pg_def split: prod.splits list.splits)
  then show "\<exists>now rs. qsem s now (committed mem_view w) (r # rs)"
    using assms(2) [of s "fst w"] by (auto simp: mem_view_def)
next
  fix s w q w1 x e w2
  assume "pool_QueryRow (mem_pg ex qu) s w = (q, w1)" "Scan (mem_pg ex qu) q x = (Inl e, w2)"
  then have "qu s (fst w) = []" by (auto simp: mem_pg_def split: prod.splits list.splits)
  then show "\<exists>now. qsem s now (committed mem_view w) []"
    using assms(2) [of s "fst w"] by (auto simp: mem_view_def)
qed (use assms in \<open>auto simp: mem_defs split: prod.splits option.splits intro!: exI [of _ 0]\<close>)

section \<open>Atomicity\<close>

text \<open>
  C2. Transactions are atomic: if the function it is given works only in the transaction,
  \<open>WithTx\<close> that returns nil has committed exactly what the function left in the transaction, which
  began with the committed tables; if the function returns an error or panics, the committed tables
  are unchanged and the error or the panic is passed on; and a nested call runs the function in
  the transaction of its context, with no begin, commit or rollback of its own.
\<close>

theorem store_WithTx:
  assumes "pg_tx_ok pg v" "\<And>c t w. committed v (snd (fn c t w)) = committed v w"
  shows "(case (txFromContext ctx, db_WithTx pg ctx fn w) of
      (Some tx, q, w') \<Rightarrow> (q, w') = fn ctx tx w
    | (None, FnReturned None, w') \<Rightarrow>
        \<exists>tx w1 w2. view v w1 tx = committed v w \<and> fn (contextWithTx ctx tx) tx w1 = (FnReturned None, w2) \<and>
          \<not> aborted v w2 tx \<and> committed v w' = view v w2 tx
    | (None, FnPanicked p, w') \<Rightarrow> committed v w' = committed v w
    | (None, FnReturned (Some e), w') \<Rightarrow> committed v w' = committed v w \<or>
        (\<exists>c tx w1 w2. e = Errorf [Lit ''store: commit: '', Wrapped c] \<and>
           fn (contextWithTx ctx tx) tx w1 = (FnReturned None, w2) \<and> committed v w' = view v w2 tx))"
proof (cases "txFromContext ctx")
  case (Some tx)
  then show ?thesis by (simp add: db_WithTx_def)
next
  case None
  obtain q w' where q: "db_WithTx pg ctx fn w = (q, w')" by fastforce
  from assms(1) None show ?thesis
  proof (cases rule: WithTx_begin [where fn = fn and w = w])
    case (failed e w')
    then show ?thesis using None by simp
  next
    case (started tx w1)
    obtain r w2 where r: "fn (contextWithTx ctx tx) tx w1 = (r, w2)" by fastforce
    have "committed v w2 = committed v w" using assms(2) [of "contextWithTx ctx tx" tx w1] r started(2) by simp
    from WithTx_ends [OF assms(1) None started(1) r this q] show ?thesis
      using None q r started(3) by (auto split: fn_outcome.split option.split)
  qed
qed

theorem store_WithTx_witness:
  "fst (snd (db_WithTx (mem_pg (\<lambda>s d. Some (s + d)) (\<lambda>s d. [d])) \<lparr>ctx_tx = None, ctx_span = False\<rparr>
     (\<lambda>c t w. (FnReturned None, snd (tx_Exec (mem_pg (\<lambda>s d. Some (s + d)) (\<lambda>s d. [d])) t 5 w)))
     (1 :: nat, 0, False, ()))) = 6"
  using store_WithTx [OF mem_tx_ok [of "\<lambda>s d :: nat. Some (s + d)" "\<lambda>s d. [d]"],
      where fn = "\<lambda>c t w. (FnReturned None, snd (tx_Exec (mem_pg (\<lambda>s d. Some (s + d)) (\<lambda>s d. [d])) t 5 w))"
        and ctx = "\<lparr>ctx_tx = None, ctx_span = False\<rparr>" and w = "(1, 0, False, ())"]
  by (auto simp: mem_pg_def mem_view_def db_WithTx_def txFromContext_def)

end
