(* ===== verification/Queue.thy ===== *)
theory Queue
  imports Store
begin

text \<open>
  The job queue of \<open>pkg/queue/queue.go\<close> over the database of \<open>Store\<close>. The SQL statements are the
  constructors of \<open>jobs_sql\<close>, and \<open>jobs_sem\<close> and \<open>jobs_query\<close> are what they say about the table of
  the schema in the package comment. JSON encoding of payloads is a parameter. Log lines are left
  out.
\<close>

section \<open>Jobs\<close>

type_synonym json = string

record Job =
  jID :: string
  jType :: string
  jPayload :: json
  jStatus :: string
  jAttempts :: int
  jMaxAttempts :: int
  jRunAt :: gotime
  jLastError :: string
  jCreatedAt :: gotime

record enqueueOpts =
  eo_maxAttempts :: int
  eo_delay :: duration

definition enqueue_WithMaxAttempts :: "int \<Rightarrow> enqueueOpts \<Rightarrow> enqueueOpts" where
  "enqueue_WithMaxAttempts n o' = o'\<lparr>eo_maxAttempts := n\<rparr>"

definition WithDelay :: "duration \<Rightarrow> enqueueOpts \<Rightarrow> enqueueOpts" where
  "WithDelay d o' = o'\<lparr>eo_delay := d\<rparr>"

section \<open>The table\<close>

record jobrow =
  r_type :: string
  r_payload :: json
  r_status :: string
  r_attempts :: int
  r_max_attempts :: int
  r_run_at :: gotime
  r_last_error :: "string option"
  r_created_at :: gotime
  r_updated_at :: gotime

type_synonym jobs = "string \<Rightarrow> jobrow option"

datatype jobs_sql =
    InsertJob string json int gotime
  | SetFailed string string
  | SetDone int string
  | SetDead int string string
  | SetPending int string gotime string
  | SelectPending

definition alter :: "string \<Rightarrow> (jobrow \<Rightarrow> jobrow) \<Rightarrow> jobs \<Rightarrow> jobs" where
  "alter k f d = d(k := map_option f (d k))"

definition new_row :: "string \<Rightarrow> json \<Rightarrow> int \<Rightarrow> gotime \<Rightarrow> gotime \<Rightarrow> jobrow" where
  "new_row ty raw mx t now = \<lparr>r_type = ty, r_payload = raw, r_status = ''pending'', r_attempts = 0,
     r_max_attempts = mx, r_run_at = t, r_last_error = None, r_created_at = now, r_updated_at = now\<rparr>"

text \<open>What a statement changes; the id of a new row is made by the database.\<close>

fun jobs_exec :: "string \<Rightarrow> jobs_sql \<Rightarrow> gotime \<Rightarrow> jobs \<Rightarrow> jobs" where
  "jobs_exec k (InsertJob ty raw mx t) now d = d(k \<mapsto> new_row ty raw mx t now)"
| "jobs_exec k (SetFailed le i) now d =
     alter i (\<lambda>r. r\<lparr>r_status := ''failed'', r_last_error := Some le, r_updated_at := now\<rparr>) d"
| "jobs_exec k (SetDone a i) now d =
     alter i (\<lambda>r. r\<lparr>r_status := ''done'', r_attempts := a, r_updated_at := now\<rparr>) d"
| "jobs_exec k (SetDead a le i) now d =
     alter i (\<lambda>r. r\<lparr>r_status := ''dead'', r_attempts := a, r_last_error := Some le, r_updated_at := now\<rparr>) d"
| "jobs_exec k (SetPending a le t i) now d =
     alter i (\<lambda>r. r\<lparr>r_status := ''pending'', r_attempts := a, r_last_error := Some le, r_run_at := t,
       r_updated_at := now\<rparr>) d"
| "jobs_exec k SelectPending now d = d"

definition jobs_sem :: "jobs_sql \<Rightarrow> gotime \<Rightarrow> jobs \<Rightarrow> jobs \<Rightarrow> bool" where
  "jobs_sem s now d d' \<longleftrightarrow>
     (case s of
        InsertJob _ _ _ _ \<Rightarrow> \<exists>k. d k = None \<and> d' = jobs_exec k s now d
      | _ \<Rightarrow> d' = jobs_exec [] s now d)"

text \<open>The scan of a row: the columns that the query selects; the other fields stay zero.\<close>

definition scan_job :: "string \<Rightarrow> jobrow \<Rightarrow> Job" where
  "scan_job k r = \<lparr>jID = k, jType = r_type r, jPayload = r_payload r, jStatus = [], jAttempts = r_attempts r,
     jMaxAttempts = r_max_attempts r, jRunAt = 0, jLastError = [], jCreatedAt = 0\<rparr>"

definition due :: "gotime \<Rightarrow> jobs \<Rightarrow> Job \<Rightarrow> bool" where
  "due now d j \<longleftrightarrow>
     (case d (jID j) of
        Some r \<Rightarrow> r_status r = ''pending'' \<and> r_run_at r \<le> now \<and> j = scan_job (jID j) r
      | None \<Rightarrow> False)"

text \<open>
  The rows of the query: different due rows, by \<open>run_at\<close>, ten at most; rows that another
  transaction has locked are skipped.
\<close>

definition jobs_query :: "jobs_sql \<Rightarrow> gotime \<Rightarrow> jobs \<Rightarrow> Job list \<Rightarrow> bool" where
  "jobs_query s now d js \<longleftrightarrow>
     (if s = SelectPending
      then distinct (map jID js) \<and> list_all (due now d) js \<and>
        sorted (map (\<lambda>j. r_run_at (the (d (jID j)))) js) \<and> length js \<le> 10
      else js = [])"

section \<open>Queue\<close>

type_synonym 'w Handler = "json \<Rightarrow> ('w, fn_outcome) action"

record 'w Queue =
  handlers :: "string \<Rightarrow> 'w Handler option"
  poll :: duration

definition queue_New :: "('w Queue \<Rightarrow> 'w Queue) list \<Rightarrow> 'w Queue" where
  "queue_New opts = fold (\<lambda>f q. f q) opts \<lparr>handlers = Map.empty, poll = 2 * Second\<rparr>"

definition WithPollInterval :: "duration \<Rightarrow> 'w Queue \<Rightarrow> 'w Queue" where
  "WithPollInterval d q = q\<lparr>poll := d\<rparr>"

definition queue_Register :: "string \<Rightarrow> 'w Handler \<Rightarrow> 'w Queue \<Rightarrow> 'w Queue" where
  "queue_Register ty h q = q\<lparr>handlers := (handlers q)(ty \<mapsto> h)\<rparr>"

definition queue_Enqueue :: "('p \<Rightarrow> err + json) \<Rightarrow> ('w, gotime) action \<Rightarrow> ('t, jobs_sql, 'q, 'r, 'w) pg \<Rightarrow> 't option
    \<Rightarrow> string \<Rightarrow> 'p \<Rightarrow> (enqueueOpts \<Rightarrow> enqueueOpts) list \<Rightarrow> ('w, err option) action" where
  "queue_Enqueue marshal clk pg tx jobType payload opts w =
     (let o' = fold (\<lambda>f c. f c) opts \<lparr>eo_maxAttempts = 3, eo_delay = 0\<rparr> in
      case marshal payload of
        Inl e \<Rightarrow> (Some (Errorf [Lit ''queue: marshal payload: '', Wrapped e]), w)
      | Inr raw \<Rightarrow>
          let (now, w1) = clk w;
              runAt = (if eo_delay o' > 0 then time_Add now (eo_delay o') else now);
              sql = InsertJob jobType raw (eo_maxAttempts o') runAt;
              (err, w2) = (case tx of Some t \<Rightarrow> tx_Exec pg t sql w1 | None \<Rightarrow> db_Exec pg sql w1)
          in (case err of
                Some e \<Rightarrow> (Some (Errorf [Lit ''queue: enqueue '', Quoted jobType, Lit '': '', Wrapped e]), w2)
              | None \<Rightarrow> (None, w2)))"

definition queue_backoff :: "int \<Rightarrow> duration" where
  "queue_backoff attempts =
     (let b = wrap64 (wrap64 (wrap64 (2 ^ nat attempts) * 10) * Second)
      in if b > Hour then Hour else b)"

text \<open>\<open>executeJob\<close>; the result is the panic of the handler, if any.\<close>

definition executeJob :: "('w, gotime) action \<Rightarrow> ('t, jobs_sql, 'q, Job, 'w) pg \<Rightarrow> 'w Queue \<Rightarrow> 't \<Rightarrow> Job
    \<Rightarrow> ('w, string option) action" where
  "executeJob clk pg q tx job w =
     (case handlers q (jType job) of
        None \<Rightarrow>
          (None, snd (tx_Exec pg tx (SetFailed (''no handler for type '' @ Quote (jType job)) (jID job)) w))
      | Some h \<Rightarrow>
          (case h (jPayload job) w of
             (FnPanicked p, w1) \<Rightarrow> (Some p, w1)
           | (FnReturned err, w1) \<Rightarrow>
               let attempts = jAttempts job + 1 in
               (case err of
                  None \<Rightarrow> (None, snd (tx_Exec pg tx (SetDone attempts (jID job)) w1))
                | Some e \<Rightarrow>
                    if attempts \<ge> jMaxAttempts job
                    then (None, snd (tx_Exec pg tx (SetDead attempts (err_Error e) (jID job)) w1))
                    else
                      let backoff = queue_backoff attempts;
                          (now, w2) = clk w1;
                          runAt = time_Add now backoff
                      in (None, snd (tx_Exec pg tx (SetPending attempts (err_Error e) runAt (jID job)) w2)))))"

fun batch_loop :: "('w, gotime) action \<Rightarrow> ('t, jobs_sql, 'q, Job, 'w) pg \<Rightarrow> 'w Queue \<Rightarrow> 't \<Rightarrow> Job list
    \<Rightarrow> ('w, fn_outcome) action" where
  "batch_loop clk pg q tx [] w = (FnReturned None, w)"
| "batch_loop clk pg q tx (j # js) w =
     (case executeJob clk pg q tx j w of
        (Some p, w1) \<Rightarrow> (FnPanicked p, w1)
      | (None, w1) \<Rightarrow> batch_loop clk pg q tx js w1)"

definition processBatch_fn :: "('w, gotime) action \<Rightarrow> ('t, jobs_sql, 'q, Job, 'w) pg \<Rightarrow> 'w Queue
    \<Rightarrow> 't db_ctx \<Rightarrow> 't \<Rightarrow> ('w, fn_outcome) action" where
  "processBatch_fn clk pg q ctx tx w =
     (case tx_Query pg tx SelectPending w of
        (Inl e, w1) \<Rightarrow> (FnReturned (Some e), w1)
      | (Inr rows, w1) \<Rightarrow>
          (case CollectRows pg rows w1 of
             (Inl e, w2) \<Rightarrow> (FnReturned (Some e), w2)
           | (Inr js, w2) \<Rightarrow> batch_loop clk pg q tx js w2))"

definition processBatch :: "('w, gotime) action \<Rightarrow> ('t, jobs_sql, 'q, Job, 'w) pg \<Rightarrow> 'w Queue \<Rightarrow> 't db_ctx
    \<Rightarrow> ('w, fn_outcome) action" where
  "processBatch clk pg q ctx w = db_WithTx pg ctx (processBatch_fn clk pg q) w"

text \<open>
  \<open>workerLoop\<close> over what its select receives; \<open>Inl\<close> is a panic. \<open>Start\<close> runs it n times and closes
  \<open>done\<close> when all have returned.
\<close>

datatype worker_event = Stopped | CtxDone | Ticked

fun worker_events :: "('w, fn_outcome) action \<Rightarrow> worker_event list \<Rightarrow> 'w \<Rightarrow> string + bool \<times> 'w" where
  "worker_events batch [] w = Inr (False, w)"
| "worker_events batch (Stopped # evs) w = Inr (True, w)"
| "worker_events batch (CtxDone # evs) w = Inr (True, w)"
| "worker_events batch (Ticked # evs) w =
     (case batch w of
        (FnPanicked p, w1) \<Rightarrow> Inl p
      | (FnReturned _, w1) \<Rightarrow> worker_events batch evs w1)"

definition workerLoop :: "('w, gotime) action \<Rightarrow> ('t, jobs_sql, 'q, Job, 'w) pg \<Rightarrow> 'w Queue \<Rightarrow> 't db_ctx
    \<Rightarrow> worker_event list \<Rightarrow> 'w \<Rightarrow> string + bool \<times> 'w" where
  "workerLoop clk pg q ctx evs w =
     (if poll q \<le> 0 then Inl ''non-positive interval for NewTicker''
      else worker_events (processBatch clk pg q ctx) evs w)"

section \<open>The backoff\<close>

text \<open>
  The delay after an attempt is the documented one up to the 29th; after the 30th the
  multiplication wraps around to a time before now, so the job is due again at once.
\<close>

lemma queue_backoff_ok:
  assumes "0 \<le> n" "n < 30"
  shows "queue_backoff n = min (2 ^ nat n * (10 * Second)) Hour"
proof -
  define m where "m = (2::int) ^ nat n"
  have "m \<le> 2 ^ 29" unfolding m_def using assms by (intro power_increasing) auto
  moreover have "0 \<le> m" by (simp add: m_def)
  ultimately have "wrap64 m = m" "wrap64 (m * 10) = m * 10" "wrap64 (m * 10 * Second) = m * 10 * Second"
    by (intro wrap64_id; simp add: in_int64_def)+
  then show ?thesis unfolding queue_backoff_def m_def [symmetric] by (simp add: min_def)
qed

lemma queue_backoff_overflow: "queue_backoff 30 < - 200 * 365 * 24 * Hour"
  by (simp add: queue_backoff_def wrap64_def)

section \<open>The life of a job\<close>

text \<open>
  What one attempt at a job may do to its row: without a handler the job fails; a handler that
  returns nil completes it; one that returns an error kills it if that was the last attempt, and
  otherwise makes it pending again after the backoff.
\<close>

definition job_after :: "(string \<Rightarrow> 'w Handler option) \<Rightarrow> gotime \<Rightarrow> jobrow \<Rightarrow> jobrow \<Rightarrow> bool" where
  "job_after hs now r r' \<longleftrightarrow>
     (case hs (r_type r) of
        None \<Rightarrow> r' = r\<lparr>r_status := ''failed'', r_last_error := Some (''no handler for type '' @ Quote (r_type r)),
                   r_updated_at := now\<rparr>
      | Some h \<Rightarrow> \<exists>w.
          (case fst (h (r_payload r) w) of
             FnPanicked _ \<Rightarrow> False
           | FnReturned None \<Rightarrow>
               r' = r\<lparr>r_status := ''done'', r_attempts := r_attempts r + 1, r_updated_at := now\<rparr>
           | FnReturned (Some e) \<Rightarrow>
               if r_attempts r + 1 \<ge> r_max_attempts r
               then r' = r\<lparr>r_status := ''dead'', r_attempts := r_attempts r + 1,
                      r_last_error := Some (err_Error e), r_updated_at := now\<rparr>
               else \<exists>t. r' = r\<lparr>r_status := ''pending'', r_attempts := r_attempts r + 1,
                      r_last_error := Some (err_Error e), r_run_at := t + queue_backoff (r_attempts r + 1),
                      r_updated_at := now\<rparr>))"

text \<open>
  The environment of the queue: the laws of the database, for the statements of this package, and
  handlers and a clock that leave the database alone.
\<close>

definition queue_env :: "('w, gotime) action \<Rightarrow> ('t, jobs_sql, 'q, Job, 'w) pg \<Rightarrow> ('t, jobs, 'w) db_view \<Rightarrow> 'w Queue \<Rightarrow> bool" where
  "queue_env clk pg v q \<longleftrightarrow>
     pg_tx_ok pg v \<and> pg_exec_ok pg v jobs_sem \<and> pg_query_ok pg v jobs_query \<and>
     (\<forall>w. same_db v w (snd (clk w))) \<and>
     (\<forall>ty h p w. handlers q ty = Some h \<longrightarrow> same_db v w (snd (h p w)))"

text \<open>A statement on one row, in a transaction that has not failed after it.\<close>

lemma tx_Exec_row:
  assumes "pg_exec_ok pg v jobs_sem" "\<not> aborted v (snd (tx_Exec pg tx s w)) tx"
    and "jobs_exec [] s (txnow v w tx) (view v w tx) = alter k f (view v w tx)" "view v w tx k = Some r"
    and "\<nexists>a b c e. s = InsertJob a b c e"
  shows "view v (snd (tx_Exec pg tx s w)) tx = (view v w tx)(k \<mapsto> f r)"
    "\<not> aborted v w tx" "txnow v (snd (tx_Exec pg tx s w)) tx = txnow v w tx"
    "committed v (snd (tx_Exec pg tx s w)) = committed v w"
proof -
  obtain e w' where e: "tx_Exec pg tx s w = (e, w')" by fastforce
  have "e = None"
  proof (rule ccontr)
    assume "e \<noteq> None"
    then obtain x where "tx_Exec pg tx s w = (Some x, w')" using e by auto
    then have "aborted v w' tx" using assms(1) unfolding pg_exec_ok_def by blast
    then show False using assms(2) e by simp
  qed
  then have "tx_Exec pg tx s w = (None, w')" using e by simp
  note sem = exec_sem [OF assms(1) this]
  show "view v (snd (tx_Exec pg tx s w)) tx = (view v w tx)(k \<mapsto> f r)"
    using sem assms(3,4,5) e by (cases s) (auto simp: jobs_sem_def alter_def)
  show "\<not> aborted v w tx" using sem assms(2) e by simp
  show "txnow v (snd (tx_Exec pg tx s w)) tx = txnow v w tx" using sem e by simp
  show "committed v (snd (tx_Exec pg tx s w)) = committed v w" by (rule exec_committed [OF assms(1)])
qed

lemma executeJob_row:
  assumes env: "queue_env clk pg v q" and ex: "executeJob clk pg q tx (scan_job k r) w = (None, w')"
    and ab: "\<not> aborted v w' tx" and row: "view v w tx k = Some r"
  shows "\<exists>r'. job_after (handlers q) (txnow v w tx) r r' \<and> view v w' tx = (view v w tx)(k \<mapsto> r') \<and>
    \<not> aborted v w tx \<and> txnow v w' tx = txnow v w tx"
proof (cases "handlers q (r_type r)")
  case None
  let ?s = "SetFailed (''no handler for type '' @ Quote (r_type r)) k"
  have w': "w' = snd (tx_Exec pg tx ?s w)" using ex None by (simp add: executeJob_def scan_job_def)
  show ?thesis
    using tx_Exec_row [where s = ?s and k = k and w = w and pg = pg and v = v and tx = tx] env ab row None
    by (auto simp: w' queue_env_def job_after_def)
next
  case (Some h)
  obtain o1 w1 where h: "h (r_payload r) w = (o1, w1)" by fastforce
  have same: "same_db v w w1" using env Some h unfolding queue_env_def by (metis snd_conv)
  note w1 = same_dbD [OF same]
  obtain err where o1: "o1 = FnReturned err"
    using ex Some h by (cases o1) (auto simp: executeJob_def scan_job_def)
  have run: "\<exists>r'. job_after (handlers q) (txnow v w tx) r r' \<and> view v w' tx = (view v w tx)(k \<mapsto> r') \<and>
      \<not> aborted v w tx \<and> txnow v w' tx = txnow v w tx"
    if "same_db v w w2" "w' = snd (tx_Exec pg tx s w2)" "\<nexists>a b c e. s = InsertJob a b c e"
      "\<And>now d. jobs_exec [] s now d = alter k (f now) d" "job_after (handlers q) (txnow v w tx) r (f (txnow v w tx) r)"
    for w2 s f
    using tx_Exec_row [of pg v tx s w2 k "f (txnow v w tx)" r] env ab row that(5) same_dbD [OF that(1)]
    by (auto simp: that(2,3,4) queue_env_def)
  show ?thesis
  proof (cases err)
    case None
    show ?thesis
      by (rule run [OF same, of "SetDone (r_attempts r + 1) k"
            "\<lambda>now r'. r'\<lparr>r_status := ''done'', r_attempts := r_attempts r + 1, r_updated_at := now\<rparr>"])
        (use ex Some h o1 None in \<open>auto simp: executeJob_def scan_job_def job_after_def intro!: exI [of _ w]\<close>)
  next
    case e: (Some e)
    show ?thesis
    proof (cases "r_attempts r + 1 \<ge> r_max_attempts r")
      case True
      show ?thesis
        by (rule run [OF same, of "SetDead (r_attempts r + 1) (err_Error e) k"
              "\<lambda>now r'. r'\<lparr>r_status := ''dead'', r_attempts := r_attempts r + 1, r_last_error := Some (err_Error e),
                 r_updated_at := now\<rparr>"])
          (use ex Some h o1 e True in \<open>auto simp: executeJob_def scan_job_def job_after_def intro!: exI [of _ w]\<close>)
    next
      case False
      obtain t w2 where t: "clk w1 = (t, w2)" by fastforce
      have "same_db v w1 w2" using env t unfolding queue_env_def by (metis snd_conv)
      with same have same2: "same_db v w w2" by (rule same_db_trans)
      show ?thesis
        by (rule run [OF same2, of "SetPending (r_attempts r + 1) (err_Error e) (t + queue_backoff (r_attempts r + 1)) k"
              "\<lambda>now r'. r'\<lparr>r_status := ''pending'', r_attempts := r_attempts r + 1, r_last_error := Some (err_Error e),
                 r_run_at := t + queue_backoff (r_attempts r + 1), r_updated_at := now\<rparr>"])
          (use ex Some h o1 e False t in
            \<open>auto simp: executeJob_def scan_job_def job_after_def time_Add_def Let_def intro!: exI [of _ w]\<close>)
    qed
  qed
qed

text \<open>Whatever happens, \<open>executeJob\<close> runs at most one statement, after the handler.\<close>

lemma executeJob_world:
  assumes env: "queue_env clk pg v q"
  obtains w2 where "same_db v w w2" "snd (executeJob clk pg q tx j w) = w2"
  | w2 s where "same_db v w w2" "snd (executeJob clk pg q tx j w) = snd (tx_Exec pg tx s w2)"
proof (cases "handlers q (jType j)")
  case None
  show thesis by (rule that(2) [OF same_db_refl]) (simp add: executeJob_def None)
next
  case (Some h)
  obtain o1 w1 where h: "h (jPayload j) w = (o1, w1)" by fastforce
  have w1: "same_db v w w1" using env Some h unfolding queue_env_def by (metis snd_conv)
  obtain t w2 where t: "clk w1 = (t, w2)" by fastforce
  have "same_db v w1 w2" using env t unfolding queue_env_def by (metis snd_conv)
  with w1 have w2: "same_db v w w2" by (rule same_db_trans)
  show thesis
  proof (cases o1)
    case (FnPanicked p)
    then show thesis by (intro that(1) [OF w1]) (simp add: executeJob_def Some h)
  next
    case (FnReturned err)
    show thesis
    proof (cases err)
      case None
      show thesis by (rule that(2) [OF w1]) (simp add: executeJob_def Some h FnReturned None)
    next
      case e: (Some e)
      show thesis
      proof (cases "jAttempts j + 1 \<ge> jMaxAttempts j")
        case True
        show thesis by (rule that(2) [OF w1]) (simp add: executeJob_def Some h FnReturned e True)
      next
        case False
        show thesis by (rule that(2) [OF w2]) (simp add: executeJob_def Some h FnReturned e False t Let_def)
      qed
    qed
  qed
qed

lemma executeJob_committed:
  assumes env: "queue_env clk pg v q"
  shows "committed v (snd (executeJob clk pg q tx j w)) = committed v w"
proof -
  have ex: "committed v (snd (tx_Exec pg tx s x)) = committed v x" for s x
    by (rule exec_committed [of _ _ jobs_sem]) (use env in \<open>simp add: queue_env_def\<close>)
  show ?thesis
    by (rule executeJob_world [OF env, of w tx j]) (simp_all add: ex same_dbD)
qed

lemma executeJob_aborted:
  assumes env: "queue_env clk pg v q" and ab: "aborted v w tx"
  shows "aborted v (snd (executeJob clk pg q tx j w)) tx"
proof -
  have ex: "aborted v (snd (tx_Exec pg tx s x)) tx" if "aborted v x tx" for s x
  proof (cases "tx_Exec pg tx s x")
    case (Pair e x')
    then show ?thesis
      using env that unfolding queue_env_def pg_exec_ok_def by (cases e) (metis snd_conv)+
  qed
  show ?thesis
    by (rule executeJob_world [OF env, of w tx j]) (simp_all add: ex ab same_dbD)
qed

lemma batch_loop_aborted:
  assumes "queue_env clk pg v q"
  shows "aborted v w tx \<Longrightarrow> aborted v (snd (batch_loop clk pg q tx js w)) tx"
proof (induction js arbitrary: w)
  case (Cons j js)
  then show ?case
    using executeJob_aborted [OF assms, of w tx j] by (auto simp: case_prod_beta split: option.split)
qed simp

lemma batch_loop_committed:
  assumes "queue_env clk pg v q"
  shows "committed v (snd (batch_loop clk pg q tx js w)) = committed v w"
proof (induction js arbitrary: w)
  case (Cons j js)
  show ?case
    using Cons.IH executeJob_committed [OF assms, of tx j w]
    by (auto simp: case_prod_beta split: option.split)
qed simp

text \<open>
  A batch: each of its jobs has had one attempt, and the other rows are as they were.
\<close>

definition batch_result :: "(string \<Rightarrow> 'w Handler option) \<Rightarrow> gotime \<Rightarrow> Job list \<Rightarrow> jobs \<Rightarrow> jobs \<Rightarrow> bool" where
  "batch_result hs now js d d' \<longleftrightarrow>
     (\<forall>k. if k \<in> jID ` set js then \<exists>r r'. d k = Some r \<and> d' k = Some r' \<and> job_after hs now r r' else d' k = d k)"

lemma batch_result_Cons:
  assumes "batch_result hs now js (d(jID j \<mapsto> r')) d'" "d (jID j) = Some r" "job_after hs now r r'"
    "jID j \<notin> jID ` set js"
  shows "batch_result hs now (j # js) d d'"
  unfolding batch_result_def
proof
  fix k
  have k: "if k \<in> jID ` set js then \<exists>r1 r1'. (d(jID j \<mapsto> r')) k = Some r1 \<and> d' k = Some r1' \<and> job_after hs now r1 r1'
      else d' k = (d(jID j \<mapsto> r')) k"
    using assms(1) unfolding batch_result_def by blast
  show "if k \<in> jID ` set (j # js) then \<exists>r r'. d k = Some r \<and> d' k = Some r' \<and> job_after hs now r r' else d' k = d k"
    using k assms(2-4) by (cases "k = jID j") (auto split: if_splits)
qed

lemma batch_loop_rows:
  assumes env: "queue_env clk pg v q"
    and "batch_loop clk pg q tx js w = (FnReturned None, w')" "\<not> aborted v w' tx" "distinct (map jID js)"
    and "\<forall>j \<in> set js. \<exists>r. view v w tx (jID j) = Some r \<and> j = scan_job (jID j) r"
  shows "batch_result (handlers q) (txnow v w tx) js (view v w tx) (view v w' tx) \<and> \<not> aborted v w tx"
  using assms(2-5)
proof (induction js arbitrary: w)
  case Nil
  then show ?case by (simp add: batch_result_def)
next
  case (Cons j js)
  obtain r where r: "view v w tx (jID j) = Some r" "j = scan_job (jID j) r" using Cons.prems(4) by auto
  obtain p w1 where ex: "executeJob clk pg q tx j w = (p, w1)" by fastforce
  then have p: "p = None" and rest: "batch_loop clk pg q tx js w1 = (FnReturned None, w')"
    using Cons.prems(1) by (auto split: option.splits)
  have live: "\<not> aborted v w1 tx"
  proof (rule ccontr)
    assume "\<not> \<not> aborted v w1 tx"
    then have "aborted v w' tx" using rest batch_loop_aborted [OF env] by (metis snd_conv)
    then show False using Cons.prems(2) by simp
  qed
  obtain r' where r': "job_after (handlers q) (txnow v w tx) r r'" "view v w1 tx = (view v w tx)(jID j \<mapsto> r')"
      "\<not> aborted v w tx" "txnow v w1 tx = txnow v w tx"
    using executeJob_row [OF env, of tx "jID j" r w w1] ex p r live by auto
  have "\<forall>j' \<in> set js. \<exists>r. view v w1 tx (jID j') = Some r \<and> j' = scan_job (jID j') r"
    using Cons.prems(3,4) r'(2) by auto
  then have "batch_result (handlers q) (txnow v w1 tx) js (view v w1 tx) (view v w' tx)"
    using Cons.IH [OF rest Cons.prems(2)] Cons.prems(3) by simp
  then show ?case
    using batch_result_Cons [of "handlers q" "txnow v w tx" js "view v w tx" j r'] r r' Cons.prems(3) by auto
qed

lemma processBatch_fn_committed:
  assumes env: "queue_env clk pg v q"
  shows "committed v (snd (processBatch_fn clk pg q ctx tx w)) = committed v w"
proof -
  have "pg_query_ok pg v jobs_query" using env by (simp add: queue_env_def)
  note q = query_committed [OF this]
  obtain a w1 where a: "tx_Query pg tx SelectPending w = (a, w1)" by fastforce
  with q(1) [of tx SelectPending w] have w1: "committed v w1 = committed v w" by simp
  show ?thesis
  proof (cases a)
    case (Inl e)
    then show ?thesis using a w1 by (simp add: processBatch_fn_def)
  next
    case (Inr rows)
    obtain b w2 where b: "CollectRows pg rows w1 = (b, w2)" by fastforce
    with q(2) [of rows w1] w1 have w2: "committed v w2 = committed v w" by simp
    then show ?thesis
      using a b Inr batch_loop_committed [OF env] by (cases b) (simp_all add: processBatch_fn_def)
  qed
qed

lemma processBatch_fn_ok:
  assumes env: "queue_env clk pg v q"
    and res: "processBatch_fn clk pg q ctx tx w = (FnReturned None, w')" "\<not> aborted v w' tx"
  shows "\<exists>js. jobs_query SelectPending (txnow v w tx) (view v w tx) js \<and>
    batch_result (handlers q) (txnow v w tx) js (view v w tx) (view v w' tx)"
proof -
  obtain rows w1 where a: "tx_Query pg tx SelectPending w = (Inr rows, w1)"
    using res(1) by (cases "tx_Query pg tx SelectPending w") (auto simp: processBatch_fn_def split: sum.splits)
  obtain js w2 where b: "CollectRows pg rows w1 = (Inr js, w2)"
    using res(1) a by (cases "CollectRows pg rows w1") (auto simp: processBatch_fn_def split: sum.splits)
  have "pg_query_ok pg v jobs_query" using env by (simp add: queue_env_def)
  from query_rows [OF this a b]
  have s: "same_db v w w2" and js: "jobs_query SelectPending (txnow v w tx) (view v w tx) js" by simp_all
  note eq = same_dbD [OF s]
  have "\<forall>j \<in> set js. \<exists>r. view v w2 tx (jID j) = Some r \<and> j = scan_job (jID j) r"
    using js by (auto simp: jobs_query_def list_all_iff due_def eq split: option.splits)
  moreover have "batch_loop clk pg q tx js w2 = (FnReturned None, w')" using res(1) a b by (simp add: processBatch_fn_def)
  ultimately have "batch_result (handlers q) (txnow v w2 tx) js (view v w2 tx) (view v w' tx)"
    using batch_loop_rows [OF env] res(2) js by (simp add: jobs_query_def)
  with js show ?thesis by (auto simp: eq)
qed

lemma processBatch_cases:
  assumes env: "queue_env clk pg v q" and new: "txFromContext ctx = None"
    and res: "processBatch clk pg q ctx w = (r, w')"
  shows "(\<exists>now js. jobs_query SelectPending now (committed v w) js \<and>
      batch_result (handlers q) now js (committed v w) (committed v w')) \<or>
    r \<noteq> FnReturned None \<and> committed v w' = committed v w"
proof -
  let ?fn = "processBatch_fn clk pg q"
  have ok: "pg_tx_ok pg v" using env by (simp add: queue_env_def)
  note res = res [unfolded processBatch_def]
  from ok new show ?thesis
  proof (cases rule: WithTx_begin [where fn = ?fn and w = w])
    case (failed e w'')
    with res show ?thesis by auto
  next
    case (started tx w1)
    obtain o1 w2 where o1: "?fn (contextWithTx ctx tx) tx w1 = (o1, w2)" by fastforce
    have "committed v w2 = committed v w"
      using processBatch_fn_committed [OF env, of "contextWithTx ctx tx" tx w1] o1 started(2) by simp
    from WithTx_ends [OF ok new started(1) o1 this res] show ?thesis
      using processBatch_fn_ok [OF env, of "contextWithTx ctx tx" tx w1 w2] o1 started(3) by auto
  qed
qed

text \<open>A queue over a database in memory, with one handler, which fails.\<close>

fun demo_exec :: "jobs_sql \<Rightarrow> jobs \<Rightarrow> jobs option" where
  "demo_exec (InsertJob ty raw mx t) d =
     (if d ''job'' = None then Some (jobs_exec ''job'' (InsertJob ty raw mx t) 0 d) else None)"
| "demo_exec s d = Some (jobs_exec [] s 0 d)"

definition demo_query :: "jobs_sql \<Rightarrow> jobs \<Rightarrow> Job list" where
  "demo_query s d =
     (case d ''job'' of
        Some r \<Rightarrow> if s = SelectPending \<and> due 0 d (scan_job ''job'' r) then [scan_job ''job'' r] else []
      | None \<Rightarrow> [])"

definition demo_queue :: "(jobs \<times> jobs \<times> bool \<times> unit) Queue" where
  "demo_queue = queue_Register ''mail'' (\<lambda>p w. (FnReturned (Some (ErrNew p)), w)) (queue_New [])"

definition demo_jobs :: jobs where
  "demo_jobs = [''job'' \<mapsto> new_row ''mail'' ''down'' 3 0 0]"

abbreviation demo_db :: "(unit, jobs_sql, Job list, Job, jobs \<times> jobs \<times> bool \<times> unit) pg" where
  "demo_db \<equiv> mem_pg demo_exec demo_query"

abbreviation demo_clock :: "(jobs \<times> jobs \<times> bool \<times> unit, gotime) action" where
  "demo_clock \<equiv> \<lambda>w. (0, w)"

lemma demo_env: "queue_env demo_clock demo_db mem_view demo_queue"
  unfolding queue_env_def
proof (intro conjI)
  have "jobs_sem s 0 d d'" if "demo_exec s d = Some d'" for s d d'
    using that by (cases s) (auto simp: jobs_sem_def split: if_splits)
  then show "pg_exec_ok demo_db mem_view jobs_sem" by (rule mem_exec_ok)
  have "jobs_query s 0 d (demo_query s d)" for s d
    by (auto simp: jobs_query_def demo_query_def split: option.split)
  then show "pg_query_ok demo_db mem_view jobs_query" by (rule mem_query_ok)
qed (auto simp: mem_tx_ok demo_queue_def queue_Register_def queue_New_def split: if_splits)



section \<open>Well-formed tables\<close>

definition row_wf :: "jobrow \<Rightarrow> bool" where
  "row_wf r \<longleftrightarrow> r_status r \<in> {''pending'', ''done'', ''failed'', ''dead''} \<and> 0 \<le> r_attempts r \<and>
     r_attempts r \<le> max 1 (r_max_attempts r) \<and>
     (r_status r = ''pending'' \<longrightarrow> r_attempts r < max 1 (r_max_attempts r))"

definition jobs_wf :: "jobs \<Rightarrow> bool" where
  "jobs_wf d \<longleftrightarrow> (\<forall>k. pred_option row_wf (d k))"

lemma job_after_wf:
  assumes "job_after hs now r r'" "row_wf r" "r_status r = ''pending''"
  shows "row_wf r'"
proof (cases "hs (r_type r)")
  case None
  then show ?thesis using assms by (simp add: job_after_def row_wf_def)
next
  case (Some h)
  show ?thesis
    using assms(1) unfolding job_after_def Some option.case
  proof (elim exE)
    fix w
    show "row_wf r'" if "case fst (h (r_payload r) w) of FnPanicked _ \<Rightarrow> False
        | FnReturned None \<Rightarrow> r' = r\<lparr>r_status := ''done'', r_attempts := r_attempts r + 1, r_updated_at := now\<rparr>
        | FnReturned (Some e) \<Rightarrow>
            if r_attempts r + 1 \<ge> r_max_attempts r
            then r' = r\<lparr>r_status := ''dead'', r_attempts := r_attempts r + 1,
                   r_last_error := Some (err_Error e), r_updated_at := now\<rparr>
            else \<exists>t. r' = r\<lparr>r_status := ''pending'', r_attempts := r_attempts r + 1,
                   r_last_error := Some (err_Error e), r_run_at := t + queue_backoff (r_attempts r + 1),
                   r_updated_at := now\<rparr>"
      using that assms(2,3)
      by (auto simp: row_wf_def split: fn_outcome.split_asm option.split_asm if_split_asm)
  qed
qed

lemma batch_result_wf:
  assumes "jobs_query SelectPending now d js" "batch_result hs now' js d d'" "jobs_wf d"
  shows "jobs_wf d' \<and> (\<forall>k r. d k = Some r \<longrightarrow> r_status r \<noteq> ''pending'' \<longrightarrow> d' k = Some r)"
proof
  have pending: "\<exists>r. d k = Some r \<and> r_status r = ''pending''" if "k \<in> jID ` set js" for k
    using assms(1) that by (auto simp: jobs_query_def list_all_iff due_def split: option.splits)
  have k: "if k \<in> jID ` set js then \<exists>r r'. d k = Some r \<and> d' k = Some r' \<and> job_after hs now' r r' else d' k = d k" for k
    using assms(2) unfolding batch_result_def by blast
  show "jobs_wf d'"
    unfolding jobs_wf_def
  proof
    fix i
    have di: "pred_option row_wf (d i)" using assms(3) by (simp add: jobs_wf_def)
    show "pred_option row_wf (d' i)"
    proof (cases "i \<in> jID ` set js")
      case True
      then obtain r r' where "d i = Some r" "d' i = Some r'" "job_after hs now' r r'" "r_status r = ''pending''"
        using k [of i] pending [OF True] by auto
      then show ?thesis using di job_after_wf [of hs now' r r'] by simp
    next
      case False
      then show ?thesis using k [of i] di by simp
    qed
  qed
  show "\<forall>k r. d k = Some r \<longrightarrow> r_status r \<noteq> ''pending'' \<longrightarrow> d' k = Some r"
    using k pending by (metis option.inject)
qed

lemma insert_wf:
  assumes "jobs_sem (InsertJob ty raw mx t) now d d'" "jobs_wf d"
  shows "jobs_wf d'"
proof -
  have "row_wf (new_row ty raw mx t now)" by (simp add: new_row_def row_wf_def max_def)
  with assms show ?thesis by (auto simp: jobs_sem_def jobs_wf_def)
qed

text \<open>
  C26. The jobs table stays well-formed: every status is one of the four, the attempts are
  between 0 and the maximum (1 if the maximum is lower), and a pending job has an attempt left, so
  no job is run more often. Both \<open>Enqueue\<close> in a transaction and \<open>processBatch\<close>, however it ends, keep
  this; and a job that is done, failed or dead is never changed again.
\<close>

theorem queue_jobs_wf:
  assumes "queue_env clk pg v q" "txFromContext ctx = None"
  shows "(jobs_wf (committed v w) \<longrightarrow> jobs_wf (committed v (snd (processBatch clk pg q ctx w)))) \<and>
    (jobs_wf (committed v w) \<longrightarrow> committed v w k = Some r \<longrightarrow> r_status r \<noteq> ''pending'' \<longrightarrow>
      committed v (snd (processBatch clk pg q ctx w)) k = Some r) \<and>
    (jobs_wf (view v w tx) \<longrightarrow> queue_Enqueue marshal clk pg (Some tx) ty p opts w = (None, w') \<longrightarrow>
      jobs_wf (view v w' tx))"
proof (intro conjI impI)
  obtain r1 w1 where res: "processBatch clk pg q ctx w = (r1, w1)" by fastforce
  note cs = processBatch_cases [OF assms res]
  show "jobs_wf (committed v (snd (processBatch clk pg q ctx w)))" if "jobs_wf (committed v w)"
    using cs that batch_result_wf res by fastforce
  show "committed v (snd (processBatch clk pg q ctx w)) k = Some r"
    if "jobs_wf (committed v w)" "committed v w k = Some r" "r_status r \<noteq> ''pending''"
    using cs that batch_result_wf res by fastforce
  assume wf: "jobs_wf (view v w tx)" and enq: "queue_Enqueue marshal clk pg (Some tx) ty p opts w = (None, w')"
  obtain now w2 where clk: "clk w = (now, w2)" by fastforce
  have "same_db v w w2" using assms(1) clk unfolding queue_env_def by (metis snd_conv)
  note eq = same_dbD [OF this]
  obtain raw where raw: "marshal p = Inr raw" using enq by (auto simp: queue_Enqueue_def Let_def split: sum.splits)
  obtain mx t where ex: "tx_Exec pg tx (InsertJob ty raw mx t) w2 = (None, w')"
    using enq raw clk by (auto simp: queue_Enqueue_def Let_def case_prod_beta split: option.splits) (metis prod.collapse)+
  have "pg_exec_ok pg v jobs_sem" using assms(1) by (simp add: queue_env_def)
  from exec_sem [OF this ex]
  have "jobs_sem (InsertJob ty raw mx t) (txnow v w2 tx) (view v w2 tx) (view v w' tx)" by simp
  then show "jobs_wf (view v w' tx)" using insert_wf wf eq by metis
qed

theorem queue_jobs_wf_witness:
  "jobs_wf (fst (snd (processBatch demo_clock demo_db demo_queue \<lparr>ctx_tx = None, ctx_span = False\<rparr>
     (demo_jobs, demo_jobs, False, ()))))"
proof -
  have "jobs_wf demo_jobs" by (simp add: jobs_wf_def demo_jobs_def row_wf_def new_row_def)
  then show ?thesis
    using queue_jobs_wf [OF demo_env, where ctx = "\<lparr>ctx_tx = None, ctx_span = False\<rparr>"
        and w = "(demo_jobs, demo_jobs, False, ())" and marshal = "\<lambda>x :: unit. Inr []" and tx = "()", THEN conjunct1]
    by (simp add: txFromContext_def mem_view_def)
qed

section \<open>Start and Stop\<close>

text \<open>
  The goroutines of a queue: the workers that are still in \<open>workerLoop\<close>, the one that waits for
  them, and the calls of \<open>Stop\<close> that have closed \<open>stop\<close> and wait for \<open>done\<close>. \<open>batches\<close> counts the
  batches run so far.
\<close>

record qsys =
  qstop :: bool
  qworking :: nat
  qdone :: bool
  qstopping :: nat
  qstopped :: nat
  batches :: nat

definition queue_Start :: "nat \<Rightarrow> qsys" where
  "queue_Start n = \<lparr>qstop = False, qworking = n, qdone = False, qstopping = 0, qstopped = 0, batches = 0\<rparr>"

inductive queue_step :: "qsys \<Rightarrow> unit \<Rightarrow> qsys \<Rightarrow> bool" where
  batch: "0 < qworking s \<Longrightarrow> queue_step s () (s\<lparr>batches := batches s + 1\<rparr>)"
| worker_stop: "0 < qworking s \<Longrightarrow> qstop s \<Longrightarrow> queue_step s () (s\<lparr>qworking := qworking s - 1\<rparr>)"
| worker_ctx: "0 < qworking s \<Longrightarrow> queue_step s () (s\<lparr>qworking := qworking s - 1\<rparr>)"
| close_done: "qworking s = 0 \<Longrightarrow> \<not> qdone s \<Longrightarrow> queue_step s () (s\<lparr>qdone := True\<rparr>)"
| stop: "queue_step s () (s\<lparr>qstop := True, qstopping := qstopping s + 1\<rparr>)"
| stop_return: "0 < qstopping s \<Longrightarrow> qdone s \<Longrightarrow>
     queue_step s () (s\<lparr>qstopping := qstopping s - 1, qstopped := qstopped s + 1\<rparr>)"

definition qsys_inv :: "qsys \<Rightarrow> bool" where
  "qsys_inv s \<longleftrightarrow> (qdone s \<longrightarrow> qworking s = 0) \<and> (0 < qstopped s \<longrightarrow> qdone s) \<and> (0 < qstopping s \<longrightarrow> qstop s)"

interpretation qs: step_invariant "\<lambda>s. \<exists>n. s = queue_Start n" queue_step qsys_inv
proof
  show "qsys_inv s" if "\<exists>n. s = queue_Start n" for s
    using that by (auto simp: qsys_inv_def queue_Start_def)
  show "qsys_inv s'" if "queue_step s e s'" "qsys_inv s" for s e s'
    using that by cases (auto simp: qsys_inv_def)
qed

text \<open>Once \<open>Stop\<close> has returned no worker is left, so no batch is run after it.\<close>

lemma queue_Stop_waits:
  assumes "reach (\<lambda>s. \<exists>n. s = queue_Start n) queue_step s" "0 < qstopped s" "queue_step s () s'"
  shows "batches s' = batches s"
  using assms(3) qs.reach_inv [OF assms(1)] assms(2) by cases (auto simp: qsys_inv_def)

end
