(* ===== verification/Outbox.thy ===== *)
theory Outbox
  imports Store
begin

text \<open>
  The transactional outbox of \<open>pkg/outbox/outbox.go\<close> over the database of \<open>Store\<close>: \<open>Store\<close>, which
  adds an event in the caller's transaction, and the relay, which publishes the events. The
  publisher and JSON encoding are parameters; log lines are left out.
\<close>

section \<open>The table\<close>

record outbox_row =
  ob_topic :: string
  ob_payload :: string
  ob_created :: gotime
  ob_published :: "gotime option"

type_synonym outbox = "string \<Rightarrow> outbox_row option"

datatype outbox_sql =
    InsertEvent string string
  | FetchBatch int
  | MarkPublished "string list"

record event =
  e_id :: string
  e_topic :: string
  e_payload :: string

fun outbox_exec :: "string \<Rightarrow> outbox_sql \<Rightarrow> gotime \<Rightarrow> outbox \<Rightarrow> outbox" where
  "outbox_exec k (InsertEvent topic raw) now d =
     d(k \<mapsto> \<lparr>ob_topic = topic, ob_payload = raw, ob_created = now, ob_published = None\<rparr>)"
| "outbox_exec k (MarkPublished ids) now d =
     (\<lambda>i. if i \<in> set ids then map_option (\<lambda>r. r\<lparr>ob_published := Some now\<rparr>) (d i) else d i)"
| "outbox_exec k (FetchBatch n) now d = d"

definition outbox_sem :: "outbox_sql \<Rightarrow> gotime \<Rightarrow> outbox \<Rightarrow> outbox \<Rightarrow> bool" where
  "outbox_sem s now d d' \<longleftrightarrow>
     (case s of
        InsertEvent _ _ \<Rightarrow> \<exists>k. d k = None \<and> d' = outbox_exec k s now d
      | _ \<Rightarrow> d' = outbox_exec [] s now d)"

definition unpublished :: "outbox \<Rightarrow> event \<Rightarrow> bool" where
  "unpublished d e \<longleftrightarrow>
     (case d (e_id e) of
        Some r \<Rightarrow> ob_published r = None \<and> e = \<lparr>e_id = e_id e, e_topic = ob_topic r, e_payload = ob_payload r\<rparr>
      | None \<Rightarrow> False)"

text \<open>
  The rows of the query: different unpublished events, by \<open>created_at\<close>, n at most; rows that
  another transaction has locked are skipped.
\<close>

definition outbox_query :: "outbox_sql \<Rightarrow> gotime \<Rightarrow> outbox \<Rightarrow> event list \<Rightarrow> bool" where
  "outbox_query s now d es \<longleftrightarrow>
     (case s of
        FetchBatch n \<Rightarrow> distinct (map e_id es) \<and> list_all (unpublished d) es \<and>
          sorted (map (\<lambda>e. ob_created (the (d (e_id e)))) es) \<and> int (length es) \<le> max 0 n
      | _ \<Rightarrow> es = [])"

section \<open>Store\<close>

definition outbox_Store :: "('p \<Rightarrow> err + string) \<Rightarrow> ('t, outbox_sql, 'q, 'r, 'w) pg \<Rightarrow> 't \<Rightarrow> string \<Rightarrow> 'p
    \<Rightarrow> ('w, err option) action" where
  "outbox_Store marshal pg tx topic payload w =
     (case marshal payload of
        Inl e \<Rightarrow> (Some (Errorf [Lit ''outbox: marshal payload: '', Wrapped e]), w)
      | Inr raw \<Rightarrow>
          (case tx_Exec pg tx (InsertEvent topic raw) w of
             (Some e, w1) \<Rightarrow> (Some (Errorf [Lit ''outbox: insert event: '', Wrapped e]), w1)
           | (None, w1) \<Rightarrow> (None, w1)))"

section \<open>Relay\<close>

record 'w relayOptions =
  relay_interval :: duration
  batchSize :: int
  onError :: "(err \<Rightarrow> 'w \<Rightarrow> 'w) option"

definition defaultRelayOptions :: "'w relayOptions" where
  "defaultRelayOptions = \<lparr>relay_interval = 5 * Second, batchSize = 100, onError = None\<rparr>"

definition WithRelayInterval :: "duration \<Rightarrow> 'w relayOptions \<Rightarrow> 'w relayOptions" where
  "WithRelayInterval d o' = o'\<lparr>relay_interval := d\<rparr>"

definition WithBatchSize :: "int \<Rightarrow> 'w relayOptions \<Rightarrow> 'w relayOptions" where
  "WithBatchSize n o' = o'\<lparr>batchSize := n\<rparr>"

definition relay_WithOnError :: "(err \<Rightarrow> 'w \<Rightarrow> 'w) \<Rightarrow> 'w relayOptions \<Rightarrow> 'w relayOptions" where
  "relay_WithOnError fn o' = o'\<lparr>onError := Some fn\<rparr>"

type_synonym 'w Publisher = "string \<Rightarrow> string \<Rightarrow> ('w, fn_outcome) action"

record 'w Relay =
  publisher :: "'w Publisher"
  relay_opts :: "'w relayOptions"

definition NewRelay :: "'w Publisher \<Rightarrow> ('w relayOptions \<Rightarrow> 'w relayOptions) list \<Rightarrow> 'w Relay" where
  "NewRelay pub opts = \<lparr>publisher = pub, relay_opts = fold (\<lambda>f c. f c) opts defaultRelayOptions\<rparr>"

fun publish_loop :: "'w Publisher \<Rightarrow> event list \<Rightarrow> ('w, fn_outcome) action" where
  "publish_loop pub [] w = (FnReturned None, w)"
| "publish_loop pub (e # es) w =
     (case pub (e_topic e) (e_payload e) w of
        (FnPanicked p, w1) \<Rightarrow> (FnPanicked p, w1)
      | (FnReturned (Some err), w1) \<Rightarrow>
          (FnReturned (Some (Errorf [Lit ''publish topic '', Quoted (e_topic e), Lit '' id '', Lit (e_id e),
             Lit '': '', Wrapped err])), w1)
      | (FnReturned None, w1) \<Rightarrow> publish_loop pub es w1)"

definition relay_fn :: "('t, outbox_sql, 'q, event, 'w) pg \<Rightarrow> 'w Relay \<Rightarrow> 't db_ctx \<Rightarrow> 't \<Rightarrow> ('w, fn_outcome) action" where
  "relay_fn pg r ctx tx w =
     (case tx_Query pg tx (FetchBatch (batchSize (relay_opts r))) w of
        (Inl e, w1) \<Rightarrow> (FnReturned (Some (Errorf [Lit ''fetch: '', Wrapped e])), w1)
      | (Inr rows, w1) \<Rightarrow>
          (case CollectRows pg rows w1 of
             (Inl e, w2) \<Rightarrow> (FnReturned (Some (Errorf [Lit ''scan: '', Wrapped e])), w2)
           | (Inr es, w2) \<Rightarrow>
               if es = [] then (FnReturned None, w2)
               else
                 (case publish_loop (publisher r) es w2 of
                    (FnReturned None, w3) \<Rightarrow>
                      (case tx_Exec pg tx (MarkPublished (map e_id es)) w3 of
                         (Some e, w4) \<Rightarrow> (FnReturned (Some (Errorf [Lit ''mark published: '', Wrapped e])), w4)
                       | (None, w4) \<Rightarrow> (FnReturned None, w4))
                  | (res, w3) \<Rightarrow> (res, w3))))"

definition relay :: "('t, outbox_sql, 'q, event, 'w) pg \<Rightarrow> 'w Relay \<Rightarrow> 't db_ctx \<Rightarrow> ('w, fn_outcome) action" where
  "relay pg r ctx w = db_WithTx pg ctx (relay_fn pg r) w"

text \<open>
  \<open>run\<close> over what its select receives; \<open>Inl\<close> is a panic. \<open>done\<close> is closed when it has returned, and
  \<open>Stop\<close> waits for that.
\<close>

datatype relay_event = RelayStop | RelayCtxDone | RelayTick

fun relay_events :: "('w, fn_outcome) action \<Rightarrow> (err \<Rightarrow> 'w \<Rightarrow> 'w) option \<Rightarrow> relay_event list \<Rightarrow> 'w \<Rightarrow> string + bool \<times> 'w" where
  "relay_events rl oe [] w = Inr (False, w)"
| "relay_events rl oe (RelayStop # evs) w = Inr (True, w)"
| "relay_events rl oe (RelayCtxDone # evs) w = Inr (True, w)"
| "relay_events rl oe (RelayTick # evs) w =
     (case rl w of
        (FnPanicked p, w1) \<Rightarrow> Inl p
      | (FnReturned None, w1) \<Rightarrow> relay_events rl oe evs w1
      | (FnReturned (Some e), w1) \<Rightarrow>
          relay_events rl oe evs (case oe of Some f \<Rightarrow> f e w1 | None \<Rightarrow> w1))"

definition relay_run :: "('t, outbox_sql, 'q, event, 'w) pg \<Rightarrow> 'w Relay \<Rightarrow> 't db_ctx \<Rightarrow> relay_event list \<Rightarrow> 'w
    \<Rightarrow> string + bool \<times> 'w" where
  "relay_run pg r ctx evs w =
     (if relay_interval (relay_opts r) \<le> 0 then Inl ''non-positive interval for NewTicker''
      else relay_events (relay pg r ctx) (onError (relay_opts r)) evs w)"

section \<open>Delivery\<close>

text \<open>
  The environment of the relay: the laws of the database, and a publisher that leaves the database
  alone. \<open>delivered\<close> is what the publisher has accepted: a call that returns nil adds its message,
  one that returns an error or panics may have added it.
\<close>

definition relay_env :: "('t, outbox_sql, 'q, event, 'w) pg \<Rightarrow> ('t, outbox, 'w) db_view \<Rightarrow> 'w Publisher
    \<Rightarrow> ('w \<Rightarrow> (string \<times> string) list) \<Rightarrow> bool" where
  "relay_env pg v pub delivered \<longleftrightarrow>
     pg_tx_ok pg v \<and> pg_exec_ok pg v outbox_sem \<and> pg_query_ok pg v outbox_query \<and> pg_frame pg delivered \<and>
     (\<forall>t p w. same_db v w (snd (pub t p w))) \<and>
     (\<forall>t p w w'. pub t p w = (FnReturned None, w') \<longrightarrow> delivered w' = delivered w @ [(t, p)]) \<and>
     (\<forall>t p w. delivered (snd (pub t p w)) \<in> {delivered w, delivered w @ [(t, p)]})"

definition message :: "event \<Rightarrow> string \<times> string" where
  "message e = (e_topic e, e_payload e)"

lemma publish_loop_same:
  assumes "relay_env pg v pub delivered"
  shows "same_db v w (snd (publish_loop pub es w))"
proof (induction es arbitrary: w)
  case (Cons e es)
  obtain o1 w1 where p: "pub (e_topic e) (e_payload e) w = (o1, w1)" by fastforce
  have s: "same_db v w w1" using assms p unfolding relay_env_def by (metis snd_conv)
  have "same_db v w (snd (publish_loop pub es w1))" using s Cons.IH by (rule same_db_trans)
  with s p show ?case by (simp split: fn_outcome.split option.split)
qed simp

lemma publish_loop_ok:
  assumes "relay_env pg v pub delivered" "publish_loop pub es w = (FnReturned None, w')"
  shows "delivered w' = delivered w @ map message es"
  using assms(2)
proof (induction es arbitrary: w)
  case (Cons e es)
  obtain o1 w1 where p: "pub (e_topic e) (e_payload e) w = (o1, w1)" by fastforce
  then have "o1 = FnReturned None" "publish_loop pub es w1 = (FnReturned None, w')"
    using Cons.prems by (auto split: fn_outcome.splits option.splits)
  moreover have "delivered w1 = delivered w @ [message e]" if "o1 = FnReturned None"
    using assms(1) p that unfolding relay_env_def message_def by blast
  ultimately show ?case using Cons.IH by simp
qed simp

text \<open>However the loop ends, a prefix of the events has been delivered.\<close>

lemma publish_loop_prefix:
  assumes env: "relay_env pg v pub delivered"
  shows "\<exists>k. delivered (snd (publish_loop pub es w)) = delivered w @ map message (take k es)"
proof (induction es arbitrary: w)
  case (Cons e es)
  obtain o1 w1 where p: "pub (e_topic e) (e_payload e) w = (o1, w1)" by fastforce
  have "delivered w1 \<in> {delivered w, delivered w @ [message e]}"
    using env p unfolding relay_env_def message_def by (metis snd_conv)
  then have one: "\<exists>k. delivered w1 = delivered w @ map message (take k (e # es))"
    by (auto intro: exI [of _ 0] exI [of _ 1])
  show ?case
  proof (cases "o1 = FnReturned None")
    case True
    then have "delivered w1 = delivered w @ [message e]"
      using env p unfolding relay_env_def message_def by blast
    moreover obtain k where "delivered (snd (publish_loop pub es w1)) = delivered w1 @ map message (take k es)"
      using Cons.IH by blast
    ultimately have "delivered (snd (publish_loop pub (e # es) w)) = delivered w @ map message (take (Suc k) (e # es))"
      using p True by simp
    then show ?thesis by blast
  next
    case False
    then have "snd (publish_loop pub (e # es) w) = w1"
      using p by (auto split: fn_outcome.split option.split)
    with one show ?thesis by simp
  qed
qed simp

lemma relay_fn_committed:
  assumes env: "relay_env pg v (publisher r) delivered"
  shows "committed v (snd (relay_fn pg r ctx tx w)) = committed v w"
proof -
  have ok: "pg_exec_ok pg v outbox_sem" "pg_query_ok pg v outbox_query" using env by (simp_all add: relay_env_def)
  note q = query_committed [OF ok(2)] exec_committed [OF ok(1)]
  obtain a w1 where a: "tx_Query pg tx (FetchBatch (batchSize (relay_opts r))) w = (a, w1)" by fastforce
  from q(1) [of tx "FetchBatch (batchSize (relay_opts r))" w] have w1: "committed v w1 = committed v w" by (simp add: a)
  show ?thesis
  proof (cases a)
    case (Inl e)
    then show ?thesis using a w1 by (simp add: relay_fn_def)
  next
    case aa: (Inr rows)
    obtain b w2 where b: "CollectRows pg rows w1 = (b, w2)" by fastforce
    from q(2) [of rows w1] w1 have w2: "committed v w2 = committed v w" by (simp add: b)
    show ?thesis
    proof (cases b)
      case (Inl e)
      then show ?thesis using a b aa w2 by (simp add: relay_fn_def)
    next
      case bb: (Inr es)
      obtain o3 w3 where p: "publish_loop (publisher r) es w2 = (o3, w3)" by fastforce
      from same_dbD(1) [OF publish_loop_same [OF env, of w2 es]] w2 have w3: "committed v w3 = committed v w"
        by (simp add: p)
      obtain e4 w4 where x: "tx_Exec pg tx (MarkPublished (map e_id es)) w3 = (e4, w4)" by fastforce
      from q(4) [of tx "MarkPublished (map e_id es)" w3] w3 have w4: "committed v w4 = committed v w" by (simp add: x)
      show ?thesis
        using w2 w3 w4
        by (simp add: relay_fn_def a b aa bb p x split: fn_outcome.split option.split)
    qed
  qed
qed

text \<open>The second half of the transaction: the events are published and marked.\<close>

lemma relay_fn_publish:
  assumes env: "relay_env pg v (publisher r) delivered" and s: "same_db v w w2" and d2: "delivered w2 = delivered w"
    and es: "outbox_query q (txnow v w tx) (view v w tx) es"
    and res: "(if es = [] then (FnReturned None, w2)
       else case publish_loop (publisher r) es w2 of
           (FnReturned None, w3) \<Rightarrow>
             (case tx_Exec pg tx (MarkPublished (map e_id es)) w3 of
                (Some e, w4) \<Rightarrow> (FnReturned (Some (Errorf [Lit ''mark published: '', Wrapped e])), w4)
              | (None, w4) \<Rightarrow> (FnReturned None, w4))
         | (x, w3) \<Rightarrow> (x, w3)) = (o1, w')"
  shows "\<exists>es k. outbox_query q (txnow v w tx) (view v w tx) es \<and>
    delivered w' = delivered w @ map message (take k es) \<and>
    (o1 = FnReturned None \<longrightarrow> length es \<le> k \<and>
      view v w' tx = outbox_exec [] (MarkPublished (map e_id es)) (txnow v w tx) (view v w tx))"
proof (cases "es = []")
  case True
  then have "view v w' tx = view v w tx" "delivered w' = delivered w" using res d2 same_dbD(2) [OF s] by auto
  then show ?thesis using True es by (intro exI [of _ "[]"]) simp
next
  case False
  obtain o3 w3 where p: "publish_loop (publisher r) es w2 = (o3, w3)" by fastforce
  obtain e4 w4 where x: "tx_Exec pg tx (MarkPublished (map e_id es)) w3 = (e4, w4)" by fastforce
  have "pg_frame pg delivered" using env by (simp add: relay_env_def)
  from pg_frameD(1) [OF this, of tx "MarkPublished (map e_id es)" w3] have d4: "delivered w4 = delivered w3"
    by (simp add: x)
  show ?thesis
  proof (cases "o3 = FnReturned None")
    case True
    then have w': "w' = w4" and o1: "o1 = FnReturned None \<longleftrightarrow> e4 = None"
      using res False p x by (auto split: option.splits)
    have d: "delivered w' = delivered w @ map message es"
      using publish_loop_ok [OF env, of es w2 w3] p True d2 d4 w' by simp
    have "same_db v w2 w3" using publish_loop_same [OF env, of w2 es] p by simp
    with s have s3: "same_db v w w3" by (rule same_db_trans)
    have "view v w4 tx = outbox_exec [] (MarkPublished (map e_id es)) (txnow v w tx) (view v w tx)" if "e4 = None"
    proof -
      have "pg_exec_ok pg v outbox_sem" using env by (simp add: relay_env_def)
      from exec_sem [OF this x [unfolded that]]
      have "outbox_sem (MarkPublished (map e_id es)) (txnow v w3 tx) (view v w3 tx) (view v w4 tx)" by simp
      then show ?thesis by (simp add: outbox_sem_def same_dbD [OF s3])
    qed
    with d o1 w' es show ?thesis by (intro exI [of _ es] exI [of _ "length es"]) simp
  next
    case False
    then have "w' = w3" "o1 \<noteq> FnReturned None"
      using res \<open>es \<noteq> []\<close> p by (auto split: fn_outcome.splits option.splits)
    moreover obtain k where "delivered w3 = delivered w2 @ map message (take k es)"
      using publish_loop_prefix [OF env, of es w2] p by auto
    ultimately show ?thesis using es d2 by auto
  qed
qed

lemma relay_fn_ok:
  assumes env: "relay_env pg v (publisher r) delivered" and res: "relay_fn pg r ctx tx w = (o1, w')"
  shows "\<exists>es k. outbox_query (FetchBatch (batchSize (relay_opts r))) (txnow v w tx) (view v w tx) es \<and>
    delivered w' = delivered w @ map message (take k es) \<and>
    (o1 = FnReturned None \<longrightarrow> length es \<le> k \<and>
      view v w' tx = outbox_exec [] (MarkPublished (map e_id es)) (txnow v w tx) (view v w tx))"
proof -
  let ?q = "FetchBatch (batchSize (relay_opts r))"
  have "pg_frame pg delivered" using env by (simp add: relay_env_def)
  note fr = pg_frameD [OF this]
  have none: "\<exists>es k. outbox_query ?q (txnow v w tx) (view v w tx) es \<and> delivered x = delivered w @ map message (take k es)"
    if "delivered x = delivered w" for x
    using that by (intro exI [of _ "[]"]) (simp add: outbox_query_def)
  obtain a w1 where a: "tx_Query pg tx ?q w = (a, w1)" by fastforce
  with fr(2) [of tx ?q w] have d1: "delivered w1 = delivered w" by simp
  show ?thesis
  proof (cases a)
    case (Inl e)
    then show ?thesis using a res none [OF d1] by (auto simp: relay_fn_def)
  next
    case aa: (Inr rows)
    obtain b w2 where b: "CollectRows pg rows w1 = (b, w2)" by fastforce
    with fr(3) [of rows w1] d1 have d2: "delivered w2 = delivered w" by simp
    show ?thesis
    proof (cases b)
      case (Inl e)
      then show ?thesis using a aa b res none [OF d2] by (auto simp: relay_fn_def)
    next
      case bb: (Inr es)
      have "pg_query_ok pg v outbox_query" using env by (simp add: relay_env_def)
      from query_rows [OF this a [unfolded aa] b [unfolded bb]]
      have s: "same_db v w w2" and es: "outbox_query ?q (txnow v w tx) (view v w tx) es" by simp_all
      show ?thesis
        by (rule relay_fn_publish [OF env s d2 es]) (use res a b aa bb in \<open>simp add: relay_fn_def\<close>)
    qed
  qed
qed

lemma relay_cases:
  assumes env: "relay_env pg v (publisher r) delivered" and new: "txFromContext ctx = None"
    and res: "relay pg r ctx w = (q, w')"
  shows "\<exists>now es k. outbox_query (FetchBatch (batchSize (relay_opts r))) now (committed v w) es \<and>
    delivered w' = delivered w @ map message (take k es) \<and>
    (q \<noteq> FnReturned None \<and> committed v w' = committed v w \<or>
     length es \<le> k \<and> committed v w' = outbox_exec [] (MarkPublished (map e_id es)) now (committed v w))"
proof -
  have ok: "pg_tx_ok pg v" and fr: "pg_frame pg delivered" using env by (simp_all add: relay_env_def)
  note res = res [unfolded relay_def]
  from ok new show ?thesis
  proof (cases rule: WithTx_begin [where fn = "relay_fn pg r" and w = w])
    case (failed e w'')
    have "delivered w' = delivered w" using WithTx_failed_frame [OF fr new failed(3)] res by (metis snd_conv)
    moreover have "q \<noteq> FnReturned None" "committed v w' = committed v w" using failed res by auto
    ultimately show ?thesis by (intro exI [of _ 0] exI [of _ "[]"]) (simp add: outbox_query_def)
  next
    case (started tx w1)
    obtain o1 w2 where o1: "relay_fn pg r (contextWithTx ctx tx) tx w1 = (o1, w2)" by fastforce
    have c2: "committed v w2 = committed v w"
      using relay_fn_committed [OF env, of "contextWithTx ctx tx" tx w1] o1 started(2) by simp
    note d = WithTx_frame [OF fr new started(1) o1 res]
    obtain es k where es: "outbox_query (FetchBatch (batchSize (relay_opts r))) (txnow v w1 tx) (committed v w) es"
        "delivered w2 = delivered w1 @ map message (take k es)"
        "o1 = FnReturned None \<longrightarrow> length es \<le> k \<and>
           view v w2 tx = outbox_exec [] (MarkPublished (map e_id es)) (txnow v w1 tx) (committed v w)"
      using relay_fn_ok [OF env o1] started(3) by auto
    from WithTx_ends [OF ok new started(1) o1 c2 res]
    have "q \<noteq> FnReturned None \<and> committed v w' = committed v w \<or>
      length es \<le> k \<and> committed v w' = outbox_exec [] (MarkPublished (map e_id es)) (txnow v w1 tx) (committed v w)"
      using es(3) by auto
    then show ?thesis using es(1,2) d by (intro exI [of _ "txnow v w1 tx"] exI [of _ es] exI [of _ k]) simp
  qed
qed

text \<open>A relay over a database in memory, whose publisher keeps what it gets.\<close>

fun ob_exec :: "outbox_sql \<Rightarrow> outbox \<Rightarrow> outbox option" where
  "ob_exec (InsertEvent topic raw) d =
     (if d ''e'' = None then Some (outbox_exec ''e'' (InsertEvent topic raw) 0 d) else None)"
| "ob_exec s d = Some (outbox_exec [] s 0 d)"

definition ob_event :: "outbox_row \<Rightarrow> event" where
  "ob_event r = \<lparr>e_id = ''e'', e_topic = ob_topic r, e_payload = ob_payload r\<rparr>"

fun ob_query :: "outbox_sql \<Rightarrow> outbox \<Rightarrow> event list" where
  "ob_query (FetchBatch n) d =
     (case d ''e'' of
        Some r \<Rightarrow> if 1 \<le> n \<and> ob_published r = None then [ob_event r] else []
      | None \<Rightarrow> [])"
| "ob_query s d = []"

type_synonym ob_world = "outbox \<times> outbox \<times> bool \<times> (string \<times> string) list"

definition ob_publish :: "ob_world Publisher" where
  "ob_publish t p w = (FnReturned None, (fst w, fst (snd w), fst (snd (snd w)), snd (snd (snd w)) @ [(t, p)]))"

lemma ob_env: "relay_env (mem_pg ob_exec ob_query) mem_view ob_publish (\<lambda>w. snd (snd (snd w)))"
  unfolding relay_env_def
proof (intro conjI)
  have "outbox_sem s 0 d d'" if "ob_exec s d = Some d'" for s d d'
    using that by (cases s) (auto simp: outbox_sem_def split: if_splits)
  then show "pg_exec_ok (mem_pg ob_exec ob_query) mem_view outbox_sem" by (rule mem_exec_ok)
  have "outbox_query s 0 d (ob_query s d)" for s d
    by (cases s) (auto simp: outbox_query_def unpublished_def ob_event_def split: option.split)
  then show "pg_query_ok (mem_pg ob_exec ob_query) mem_view outbox_query" by (rule mem_query_ok)
  show "pg_tx_ok (mem_pg ob_exec ob_query) mem_view" by (rule mem_tx_ok)
qed (auto simp: mem_frame ob_publish_def mem_view_def same_db_def)

text \<open>
  C10. At-least-once delivery in order: a run of the relay takes different unpublished events, in
  the order of their creation and no more than the batch size, and delivers a prefix of them.
  Events are marked as published only if all of the batch was delivered, and exactly those; if the
  marking is not committed nothing is changed, so the events are delivered again, and \<open>relay\<close> does
  not return nil.
\<close>

theorem outbox_relay:
  assumes "relay_env pg v (publisher r) delivered" "txFromContext ctx = None"
  shows "case relay pg r ctx w of (q, w') \<Rightarrow>
    \<exists>now es k. outbox_query (FetchBatch (batchSize (relay_opts r))) now (committed v w) es \<and>
      delivered w' = delivered w @ map message (take k es) \<and>
      (q \<noteq> FnReturned None \<and> committed v w' = committed v w \<or>
       length es \<le> k \<and> committed v w' = outbox_exec [] (MarkPublished (map e_id es)) now (committed v w))"
  using relay_cases [OF assms] by (cases "relay pg r ctx w") simp

theorem outbox_relay_witness:
  "\<exists>es k now. snd (snd (snd (snd (relay (mem_pg ob_exec ob_query) (NewRelay ob_publish [])
      \<lparr>ctx_tx = None, ctx_span = False\<rparr>
      ([''e'' \<mapsto> \<lparr>ob_topic = ''t'', ob_payload = ''p'', ob_created = 0, ob_published = None\<rparr>], Map.empty, False, [])))))
     = map message (take k es) \<and>
   outbox_query (FetchBatch 100) now
     [''e'' \<mapsto> \<lparr>ob_topic = ''t'', ob_payload = ''p'', ob_created = 0, ob_published = None\<rparr>] es"
  using outbox_relay [OF _ , of "mem_pg ob_exec ob_query" mem_view "NewRelay ob_publish []"
      "\<lambda>w. snd (snd (snd w))" "\<lparr>ctx_tx = None, ctx_span = False\<rparr>"
      "([''e'' \<mapsto> \<lparr>ob_topic = ''t'', ob_payload = ''p'', ob_created = 0, ob_published = None\<rparr>], Map.empty, False, [])"]
    ob_env
  by (auto simp: NewRelay_def defaultRelayOptions_def txFromContext_def mem_view_def split: prod.splits)

section \<open>Start and Stop\<close>

text \<open>
  The goroutines that calls of \<open>Start\<close> begin, and calls of \<open>Stop\<close>. A goroutine is at its select, in
  \<open>relay\<close>, at the deferred \<open>close(r.done)\<close>, or has ended; closing a closed channel panics.
  \<open>rl_batches\<close> counts the runs of \<open>relay\<close>, \<open>rl_waiting\<close> and \<open>rl_stopped\<close> the calls of \<open>Stop\<close>.
\<close>

datatype relay_pc = RlLoop | RlBatch | RlClose | RlExit | RlPanic

record relay_sys =
  rl_stop :: bool
  rl_done :: bool
  rl_ctx :: bool
  rl_runs :: "relay_pc list"
  rl_waiting :: nat
  rl_stopped :: nat
  rl_batches :: nat

definition relay_idle :: relay_sys where
  "relay_idle = \<lparr>rl_stop = False, rl_done = False, rl_ctx = False, rl_runs = [], rl_waiting = 0, rl_stopped = 0, rl_batches = 0\<rparr>"

definition relay_Start :: "relay_sys \<Rightarrow> relay_sys" where
  "relay_Start s = s\<lparr>rl_runs := rl_runs s @ [RlLoop]\<rparr>"

definition relay_Stop :: "relay_sys \<Rightarrow> relay_sys" where
  "relay_Stop s = s\<lparr>rl_stop := True, rl_waiting := rl_waiting s + 1\<rparr>"

abbreviation rl_at :: "nat \<Rightarrow> relay_pc \<Rightarrow> relay_sys \<Rightarrow> bool" where
  "rl_at i pc s \<equiv> i < length (rl_runs s) \<and> rl_runs s ! i = pc"

abbreviation rl_goto :: "nat \<Rightarrow> relay_pc \<Rightarrow> relay_sys \<Rightarrow> relay_sys" where
  "rl_goto i pc s \<equiv> s\<lparr>rl_runs := (rl_runs s)[i := pc]\<rparr>"

inductive relay_step :: "relay_sys \<Rightarrow> unit \<Rightarrow> relay_sys \<Rightarrow> bool" where
  start: "relay_step s () (relay_Start s)"
| cancel: "relay_step s () (s\<lparr>rl_ctx := True\<rparr>)"
| tick: "rl_at i RlLoop s \<Longrightarrow> relay_step s () (rl_goto i RlBatch s)"
| batch: "rl_at i RlBatch s \<Longrightarrow> relay_step s () (rl_goto i RlLoop (s\<lparr>rl_batches := rl_batches s + 1\<rparr>))"
| see_stop: "rl_at i RlLoop s \<Longrightarrow> rl_stop s \<Longrightarrow> relay_step s () (rl_goto i RlClose s)"
| see_ctx: "rl_at i RlLoop s \<Longrightarrow> rl_ctx s \<Longrightarrow> relay_step s () (rl_goto i RlClose s)"
| close: "rl_at i RlClose s \<Longrightarrow> \<not> rl_done s \<Longrightarrow> relay_step s () (rl_goto i RlExit (s\<lparr>rl_done := True\<rparr>))"
| close_twice: "rl_at i RlClose s \<Longrightarrow> rl_done s \<Longrightarrow> relay_step s () (rl_goto i RlPanic s)"
| stop: "relay_step s () (relay_Stop s)"
| stop_return: "0 < rl_waiting s \<Longrightarrow> rl_done s \<Longrightarrow>
     relay_step s () (s\<lparr>rl_waiting := rl_waiting s - 1, rl_stopped := rl_stopped s + 1\<rparr>)"

definition relay_sys_inv :: "relay_sys \<Rightarrow> bool" where
  "relay_sys_inv s \<longleftrightarrow> (rl_done s \<longleftrightarrow> RlExit \<in> set (rl_runs s)) \<and> (RlPanic \<in> set (rl_runs s) \<longrightarrow> rl_done s) \<and>
     (0 < rl_stopped s \<longrightarrow> rl_done s) \<and> (0 < rl_waiting s \<longrightarrow> rl_stop s)"

lemma rl_exit_stays:
  assumes "i < length rs" "rs ! i \<noteq> RlExit" "pc \<noteq> RlExit"
  shows "RlExit \<in> set (rs[i := pc]) \<longleftrightarrow> RlExit \<in> set rs"
  using assms by (auto simp: in_set_conv_nth nth_list_update)

lemma rl_exit_set: "i < length rs \<Longrightarrow> RlExit \<in> set (rs[i := RlExit])"
  by (simp add: set_update_memI)

interpretation relays: step_invariant "\<lambda>s. s = relay_idle" relay_step relay_sys_inv
proof
  show "relay_sys_inv s" if "s = relay_idle" for s using that by (simp add: relay_idle_def relay_sys_inv_def)
  show "relay_sys_inv s'" if "relay_step s e s'" "relay_sys_inv s" for s e s'
    using that
    by cases (auto simp: relay_sys_inv_def relay_Start_def relay_Stop_def rl_exit_stays rl_exit_set
        dest!: subsetD [OF set_update_subset_insert])
qed

text \<open>
  After one \<open>Start\<close> a \<open>Stop\<close> that has returned leaves no goroutine, so no batch is run after it, and
  nothing panics; and a \<open>Stop\<close> that waits can return.
\<close>

lemma relay_Stop_waits:
  assumes "reach (\<lambda>s. s = relay_idle) relay_step s" "length (rl_runs s) = 1"
  shows "RlPanic \<notin> set (rl_runs s)" "0 < rl_stopped s \<Longrightarrow> rl_runs s = [RlExit]"
  using relays.reach_inv [OF assms(1)] assms(2) by (auto simp: relay_sys_inv_def length_Suc_conv)

definition relay_load :: "relay_sys \<Rightarrow> nat" where
  "relay_load s = (if 0 < rl_stopped s then 0 else if rl_done s then 1 else case rl_runs s ! 0 of RlBatch \<Rightarrow> 4 | RlLoop \<Rightarrow> 3 | RlClose \<Rightarrow> 2 | _ \<Rightarrow> 0)"

interpretation stopping: step_progress relay_step
  "\<lambda>s. relay_sys_inv s \<and> length (rl_runs s) = 1 \<and> (0 < rl_waiting s \<or> 0 < rl_stopped s)" "\<lambda>s. 0 < rl_stopped s" relay_load
proof
  fix s assume s: "relay_sys_inv s \<and> length (rl_runs s) = 1 \<and> (0 < rl_waiting s \<or> 0 < rl_stopped s)" "\<not> 0 < rl_stopped s"
  then obtain pc where pc: "rl_runs s = [pc]" by (auto simp: length_Suc_conv)
  have w: "0 < rl_waiting s" "rl_stop s" "rl_done s \<longleftrightarrow> pc = RlExit" "pc \<noteq> RlPanic"
    using s pc by (auto simp: relay_sys_inv_def)
  show "\<exists>e s'. relay_step s e s' \<and> (relay_sys_inv s' \<and> length (rl_runs s') = 1 \<and> (0 < rl_waiting s' \<or> 0 < rl_stopped s')) \<and>
    relay_load s' < relay_load s"
  proof (cases pc)
    case RlLoop
    then show ?thesis using w pc relay_step.see_stop [of 0 s] s
      by (intro exI [of _ "()"] exI [of _ "rl_goto 0 RlClose s"]) (auto simp: relay_load_def relay_sys_inv_def)
  next
    case RlBatch
    then show ?thesis using w pc relay_step.batch [of 0 s] s
      by (intro exI [of _ "()"] exI [of _ "rl_goto 0 RlLoop (s\<lparr>rl_batches := rl_batches s + 1\<rparr>)"])
        (auto simp: relay_load_def relay_sys_inv_def)
  next
    case RlClose
    then show ?thesis using w pc relay_step.close [of 0 s] s
      by (intro exI [of _ "()"] exI [of _ "rl_goto 0 RlExit (s\<lparr>rl_done := True\<rparr>)"])
        (auto simp: relay_load_def relay_sys_inv_def)
  next
    case RlExit
    then show ?thesis using w pc relay_step.stop_return [of s] s
      by (intro exI [of _ "()"] exI [of _ "s\<lparr>rl_waiting := rl_waiting s - 1, rl_stopped := rl_stopped s + 1\<rparr>"])
        (auto simp: relay_load_def relay_sys_inv_def)
  qed (use w in simp)
qed

lemma relay_Stop_returns:
  assumes "reach (\<lambda>s. s = relay_idle) relay_step s" "length (rl_runs s) = 1" "0 < rl_waiting s"
  shows "\<exists>s'. runs_to relay_step s s' \<and> 0 < rl_stopped s'"
  using stopping.reaches_goal [of s] relays.reach_inv [OF assms(1)] assms(2,3) by blast

text \<open>\<open>Stop\<close> of a relay that was not started waits for ever; a second \<open>Start\<close> leads to a panic.\<close>

lemma relay_Stop_not_started:
  assumes "reach (\<lambda>s. s = relay_idle) relay_step s" "rl_runs s = []"
  shows "rl_stopped s = 0" "\<not> rl_done s"
  using relays.reach_inv [OF assms(1)] assms(2) by (auto simp: relay_sys_inv_def)

lemma relay_Start_twice:
  "\<exists>s. reach (\<lambda>s. s = relay_idle) relay_step s \<and> rl_runs s = [RlExit, RlPanic]"
proof -
  let ?R = "reach (\<lambda>s. s = relay_idle) relay_step" and ?s = "\<lambda>pc pc'. relay_idle\<lparr>rl_runs := [pc, pc'], rl_ctx := True\<rparr>"
  have "?R relay_idle" by (rule reach_start) simp
  from reach_step [OF this, OF relay_step.start] have "?R (relay_Start relay_idle)" .
  from reach_step [OF this, OF relay_step.start] have "?R (relay_Start (relay_Start relay_idle))" .
  from reach_step [OF this, OF relay_step.cancel] have a: "?R (?s RlLoop RlLoop)" by (simp add: relay_Start_def relay_idle_def)
  have b: "?R (?s RlClose RlLoop)" using reach_step [OF a, OF relay_step.see_ctx [of 0]] by (simp add: relay_idle_def)
  have c: "?R (?s RlClose RlClose)" using reach_step [OF b, OF relay_step.see_ctx [of 1]] by (simp add: relay_idle_def)
  have d: "?R ((?s RlExit RlClose)\<lparr>rl_done := True\<rparr>)" using reach_step [OF c, OF relay_step.close [of 0]] by (simp add: relay_idle_def)
  have "?R ((?s RlExit RlPanic)\<lparr>rl_done := True\<rparr>)" using reach_step [OF d, OF relay_step.close_twice [of 1]] by (simp add: relay_idle_def)
  then show ?thesis by (intro exI [of _ "(?s RlExit RlPanic)\<lparr>rl_done := True\<rparr>"]) simp
qed

end
