(* ===== verification/EventStore.thy ===== *)
theory EventStore
  imports Store
begin

text \<open>
  The event store of \<open>pkg/eventstore/eventstore.go\<close> over the database of \<open>Store\<close>. The tables of the
  schema in the package comment are lists of rows; a statement that violates a primary key
  fails. JSON encoding is a parameter. Versions are unbounded integers: no stream has \<open>2^63\<close> events.
\<close>

section \<open>Types\<close>

abbreviation ExpectedVersionNew :: int where "ExpectedVersionNew \<equiv> - 1"
abbreviation ExpectedVersionAny :: int where "ExpectedVersionAny \<equiv> - 2"
abbreviation ErrVersionConflict :: err where "ErrVersionConflict \<equiv> ErrNew ''eventstore: version conflict''"
abbreviation ErrStreamNotFound :: err where "ErrStreamNotFound \<equiv> ErrNew ''eventstore: stream not found''"

record Event =
  evStreamID :: string
  evVersion :: int
  evType :: string
  evData :: string
  evMetadata :: string
  evCreatedAt :: gotime

record 'p EventData =
  edType :: string
  edData :: 'p
  edMetadata :: "'p option"

record Snapshot =
  snStreamID :: string
  snVersion :: int
  snData :: string
  snCreatedAt :: gotime

section \<open>The tables\<close>

record es_db =
  es_events :: "Event list"
  es_snapshots :: "Snapshot list"

datatype es_sql =
    InsertEv string int string string string
  | SelectVersion string
  | SelectEvents string int
  | UpsertSnapshot string int string
  | SelectSnapshot string

datatype es_row = RVersion int | REvent Event | RSnapshot Snapshot

fun es_exec :: "es_sql \<Rightarrow> gotime \<Rightarrow> es_db \<Rightarrow> es_db option" where
  "es_exec (InsertEv sid ver ty da me) now d =
     (if list_ex (\<lambda>e. evStreamID e = sid \<and> evVersion e = ver) (es_events d) then None
      else Some (d\<lparr>es_events := es_events d @
        [\<lparr>evStreamID = sid, evVersion = ver, evType = ty, evData = da, evMetadata = me, evCreatedAt = now\<rparr>]\<rparr>))"
| "es_exec (UpsertSnapshot sid ver da) now d =
     (let s = \<lparr>snStreamID = sid, snVersion = ver, snData = da, snCreatedAt = now\<rparr> in
      Some (d\<lparr>es_snapshots :=
        (if list_ex (\<lambda>x. snStreamID x = sid) (es_snapshots d)
         then map (\<lambda>x. if snStreamID x = sid then s else x) (es_snapshots d)
         else es_snapshots d @ [s])\<rparr>))"
| "es_exec (SelectVersion sid) now d = Some d"
| "es_exec (SelectEvents sid from) now d = Some d"
| "es_exec (SelectSnapshot sid) now d = Some d"

definition es_sem :: "es_sql \<Rightarrow> gotime \<Rightarrow> es_db \<Rightarrow> es_db \<Rightarrow> bool" where
  "es_sem s now d d' \<longleftrightarrow> es_exec s now d = Some d'"

definition stream_of :: "es_db \<Rightarrow> string \<Rightarrow> Event list" where
  "stream_of d sid = filter (\<lambda>e. evStreamID e = sid) (es_events d)"

definition max_version :: "es_db \<Rightarrow> string \<Rightarrow> int" where
  "max_version d sid =
     (case map evVersion (stream_of d sid) of
        [] \<Rightarrow> - 1
      | x # xs \<Rightarrow> fold max xs x)"

fun es_rows :: "es_sql \<Rightarrow> es_db \<Rightarrow> es_row list" where
  "es_rows (SelectVersion sid) d = [RVersion (max_version d sid)]"
| "es_rows (SelectEvents sid from) d =
     map REvent (sort_key evVersion (filter (\<lambda>e. from \<le> evVersion e) (stream_of d sid)))"
| "es_rows (SelectSnapshot sid) d = map RSnapshot (filter (\<lambda>x. snStreamID x = sid) (es_snapshots d))"
| "es_rows (InsertEv sid ver ty da me) d = []"
| "es_rows (UpsertSnapshot sid ver da) d = []"

definition es_query :: "es_sql \<Rightarrow> gotime \<Rightarrow> es_db \<Rightarrow> es_row list \<Rightarrow> bool" where
  "es_query s now d rs \<longleftrightarrow> rs = es_rows s d"

text \<open>Scanning the columns of a row into Go values; a row of another form is an error.\<close>

abbreviation ErrScan :: err where "ErrScan \<equiv> ErrNew ''cannot scan''"

fun scan_version :: "es_row \<Rightarrow> err + int" where
  "scan_version (RVersion n) = Inr n"
| "scan_version r = Inl ErrScan"

fun scan_snapshot :: "es_row \<Rightarrow> err + Snapshot" where
  "scan_snapshot (RSnapshot s) = Inr s"
| "scan_snapshot r = Inl ErrScan"

fun scan_events :: "es_row list \<Rightarrow> err + Event list" where
  "scan_events [] = Inr []"
| "scan_events (REvent e # rs) = (case scan_events rs of Inr es \<Rightarrow> Inr (e # es) | Inl x \<Rightarrow> Inl x)"
| "scan_events (r # rs) = Inl ErrScan"

section \<open>Operations\<close>

definition es_currentVersion :: "('t, es_sql, 'q, es_row, 'w) pg \<Rightarrow> 't \<Rightarrow> string \<Rightarrow> ('w, err + int) action" where
  "es_currentVersion pg tx sid w =
     (let (row, w1) = tx_QueryRow pg tx (SelectVersion sid) w;
          (r, w2) = Scan pg row w1
      in (case (case r of Inl e \<Rightarrow> Inl e | Inr x \<Rightarrow> scan_version x) of
            Inl e \<Rightarrow> (Inl (Errorf [Lit ''eventstore: read version '', Quoted sid, Lit '': '', Wrapped e]), w2)
          | Inr n \<Rightarrow> (Inr n, w2)))"

fun append_loop :: "('p \<Rightarrow> err + string) \<Rightarrow> 'p \<Rightarrow> ('t, es_sql, 'q, es_row, 'w) pg \<Rightarrow> 't \<Rightarrow> string \<Rightarrow> int \<Rightarrow> 'p EventData list
    \<Rightarrow> ('w, fn_outcome) action" where
  "append_loop marshal emp pg tx sid nextVersion [] w = (FnReturned None, w)"
| "append_loop marshal emp pg tx sid nextVersion (ed # eds) w =
     (case marshal (edData ed) of
        Inl e \<Rightarrow>
          (FnReturned (Some (Errorf [Lit ''eventstore: marshal data for '', Quoted (edType ed), Lit '': '', Wrapped e])), w)
      | Inr data \<Rightarrow>
          (case marshal (case edMetadata ed of None \<Rightarrow> emp | Some m \<Rightarrow> m) of
             Inl e \<Rightarrow>
               (FnReturned (Some (Errorf [Lit ''eventstore: marshal metadata for '', Quoted (edType ed), Lit '': '',
                  Wrapped e])), w)
           | Inr metaJSON \<Rightarrow>
               (case tx_Exec pg tx (InsertEv sid nextVersion (edType ed) data metaJSON) w of
                  (Some e, w1) \<Rightarrow>
                    (FnReturned (Some (Errorf [Lit ''eventstore: insert event '', Quoted (edType ed), Lit '' v'',
                       Dec nextVersion, Lit '': '', Wrapped e])), w1)
                | (None, w1) \<Rightarrow> append_loop marshal emp pg tx sid (nextVersion + 1) eds w1)))"

definition version_conflict :: "string \<Rightarrow> int \<Rightarrow> int \<Rightarrow> err option" where
  "version_conflict sid expectedVersion currentVersion =
     (if expectedVersion = ExpectedVersionNew then
        (if currentVersion \<ge> 0
         then Some (Errorf [Wrapped ErrVersionConflict, Lit '': stream '', Quoted sid, Lit '' already exists at version '',
                Dec currentVersion])
         else None)
      else if expectedVersion = ExpectedVersionAny then None
      else if currentVersion \<noteq> expectedVersion
      then Some (Errorf [Wrapped ErrVersionConflict, Lit '': stream '', Quoted sid, Lit '' at version '', Dec currentVersion,
             Lit '', expected '', Dec expectedVersion])
      else None)"

definition append_fn :: "('p \<Rightarrow> err + string) \<Rightarrow> 'p \<Rightarrow> ('t, es_sql, 'q, es_row, 'w) pg \<Rightarrow> string \<Rightarrow> 'p EventData list \<Rightarrow> int
    \<Rightarrow> 't db_ctx \<Rightarrow> 't \<Rightarrow> ('w, fn_outcome) action" where
  "append_fn marshal emp pg sid events expectedVersion ctx tx w =
     (case es_currentVersion pg tx sid w of
        (Inl e, w1) \<Rightarrow> (FnReturned (Some e), w1)
      | (Inr currentVersion, w1) \<Rightarrow>
          (case version_conflict sid expectedVersion currentVersion of
             Some e \<Rightarrow> (FnReturned (Some e), w1)
           | None \<Rightarrow> append_loop marshal emp pg tx sid (currentVersion + 1) events w1))"

definition es_Append :: "('p \<Rightarrow> err + string) \<Rightarrow> 'p \<Rightarrow> ('t, es_sql, 'q, es_row, 'w) pg \<Rightarrow> 't db_ctx \<Rightarrow> string
    \<Rightarrow> 'p EventData list \<Rightarrow> int \<Rightarrow> ('w, fn_outcome) action" where
  "es_Append marshal emp pg ctx sid events expectedVersion w =
     (if events = [] then (FnReturned None, w)
      else db_WithTx pg ctx (append_fn marshal emp pg sid events expectedVersion) w)"

definition es_Load :: "('t, es_sql, 'q, es_row, 'w) pg \<Rightarrow> string \<Rightarrow> int \<Rightarrow> ('w, err + Event list) action" where
  "es_Load pg sid fromVersion w =
     (case db_Query pg (SelectEvents sid fromVersion) w of
        (Inl e, w1) \<Rightarrow> (Inl (Errorf [Lit ''eventstore: load '', Quoted sid, Lit '': '', Wrapped e]), w1)
      | (Inr rows, w1) \<Rightarrow>
          (let (r, w2) = CollectRows pg rows w1 in
           case (case r of Inl e \<Rightarrow> Inl e | Inr rs \<Rightarrow> scan_events rs) of
             Inl e \<Rightarrow> (Inl (Errorf [Lit ''eventstore: scan '', Quoted sid, Lit '': '', Wrapped e]), w2)
           | Inr es \<Rightarrow>
               if length es = 0 \<and> fromVersion = 0
               then (Inl (Errorf [Wrapped ErrStreamNotFound, Lit '': '', Quoted sid]), w2)
               else (Inr es, w2)))"

definition es_CurrentVersion :: "('t, es_sql, 'q, es_row, 'w) pg \<Rightarrow> string \<Rightarrow> ('w, err + int) action" where
  "es_CurrentVersion pg sid w =
     (let (row, w1) = db_QueryRow pg (SelectVersion sid) w;
          (r, w2) = Scan pg row w1
      in (case (case r of Inl e \<Rightarrow> Inl e | Inr x \<Rightarrow> scan_version x) of
            Inl e \<Rightarrow> (Inl (Errorf [Lit ''eventstore: current version '', Quoted sid, Lit '': '', Wrapped e]), w2)
          | Inr n \<Rightarrow> (Inr n, w2)))"

definition SaveSnapshot :: "('p \<Rightarrow> err + string) \<Rightarrow> ('t, es_sql, 'q, es_row, 'w) pg \<Rightarrow> string \<Rightarrow> int \<Rightarrow> 'p
    \<Rightarrow> ('w, err option) action" where
  "SaveSnapshot marshal pg sid ver st w =
     (case marshal st of
        Inl e \<Rightarrow> (Some (Errorf [Lit ''eventstore: marshal snapshot: '', Wrapped e]), w)
      | Inr data \<Rightarrow>
          (case db_Exec pg (UpsertSnapshot sid ver data) w of
             (Some e, w1) \<Rightarrow> (Some (Errorf [Lit ''eventstore: save snapshot '', Quoted sid, Lit '': '', Wrapped e]), w1)
           | (None, w1) \<Rightarrow> (None, w1)))"

text \<open>\<open>LoadSnapshot\<close>: \<open>Inr None\<close> is the nil snapshot without an error.\<close>

definition LoadSnapshot :: "('t, es_sql, 'q, es_row, 'w) pg \<Rightarrow> string \<Rightarrow> ('w, err + Snapshot option) action" where
  "LoadSnapshot pg sid w =
     (let (row, w1) = db_QueryRow pg (SelectSnapshot sid) w;
          (r, w2) = Scan pg row w1
      in (case (case r of Inl e \<Rightarrow> Inl e | Inr x \<Rightarrow> scan_snapshot x) of
            Inl e \<Rightarrow>
              if errors_Is e ErrNoRows then (Inr None, w2)
              else (Inl (Errorf [Lit ''eventstore: load snapshot '', Quoted sid, Lit '': '', Wrapped e]), w2)
          | Inr s \<Rightarrow> (Inr (Some s), w2)))"

section \<open>Streams\<close>

text \<open>
  A table is well-formed if the versions of each stream count from 0 in the order of
  insertion. The contents of a stream are the types, data and metadata of its events.
\<close>

definition es_wf :: "es_db \<Rightarrow> bool" where
  "es_wf d \<longleftrightarrow> (\<forall>sid. map evVersion (stream_of d sid) = map int [0..<length (stream_of d sid)])"

definition contents :: "es_db \<Rightarrow> string \<Rightarrow> (string \<times> string \<times> string) list" where
  "contents d sid = map (\<lambda>e. (evType e, evData e, evMetadata e)) (stream_of d sid)"

text \<open>What \<open>Append\<close> should do: the encoded events, and the versions it accepts at a length.\<close>

fun encode_events :: "('p \<Rightarrow> err + string) \<Rightarrow> 'p \<Rightarrow> 'p EventData list \<Rightarrow> (string \<times> string \<times> string) list option" where
  "encode_events marshal emp [] = Some []"
| "encode_events marshal emp (ed # eds) =
     (case (marshal (edData ed), marshal (case edMetadata ed of None \<Rightarrow> emp | Some m \<Rightarrow> m), encode_events marshal emp eds) of
        (Inr da, Inr me, Some xs) \<Rightarrow> Some ((edType ed, da, me) # xs)
      | _ \<Rightarrow> None)"

definition version_ok :: "int \<Rightarrow> nat \<Rightarrow> bool" where
  "version_ok expected n \<longleftrightarrow>
     (if expected = ExpectedVersionNew then n = 0
      else expected = ExpectedVersionAny \<or> expected = int n - 1)"

fun new_events :: "string \<Rightarrow> int \<Rightarrow> gotime \<Rightarrow> (string \<times> string \<times> string) list \<Rightarrow> Event list" where
  "new_events sid n now [] = []"
| "new_events sid n now ((ty, da, me) # xs) =
     \<lparr>evStreamID = sid, evVersion = n, evType = ty, evData = da, evMetadata = me, evCreatedAt = now\<rparr>
       # new_events sid (n + 1) now xs"

lemma new_events_stream [simp]:
  "filter (\<lambda>e. evStreamID e = s) (new_events sid n now xs) = (if s = sid then new_events sid n now xs else [])"
  by (induction sid n now xs rule: new_events.induct) auto

lemma new_events_versions: "map evVersion (new_events sid (int n) now xs) = map int [n..<n + length xs]"
proof (induction xs arbitrary: n)
  case (Cons x xs)
  obtain ty da me where x: "x = (ty, da, me)" by (cases x)
  have "new_events sid (int n + 1) now xs = new_events sid (int (Suc n)) now xs" by (simp add: add.commute)
  moreover have "[n..<n + length (x # xs)] = n # [Suc n..<Suc n + length xs]"
    by (simp add: upt_conv_Cons del: upt_Suc)
  ultimately show ?case using Cons.IH [of "Suc n"] by (simp add: x del: upt_Suc)
qed simp

lemma new_events_contents: "map (\<lambda>e. (evType e, evData e, evMetadata e)) (new_events sid n now xs) = xs"
  by (induction sid n now xs rule: new_events.induct) auto

lemma stream_append:
  "stream_of (d\<lparr>es_events := es_events d @ new_events sid n now xs\<rparr>) s =
     stream_of d s @ (if s = sid then new_events sid n now xs else [])"
  by (simp add: stream_of_def)

lemma append_wf:
  assumes "es_wf d"
  shows "es_wf (d\<lparr>es_events := es_events d @ new_events sid (int (length (stream_of d sid))) now xs\<rparr>)"
  unfolding es_wf_def stream_append
proof
  fix s
  have len: "length (new_events sid k now xs) = length xs" for k
    using arg_cong [OF new_events_contents [of sid k now xs], of length] by simp
  have s: "map evVersion (stream_of d s) = map int [0..<length (stream_of d s)]" using assms by (simp add: es_wf_def)
  let ?ys = "stream_of d s @ (if s = sid then new_events sid (int (length (stream_of d sid))) now xs else [])"
  show "map evVersion ?ys = map int [0..<length ?ys]"
    using s new_events_versions [of sid "length (stream_of d sid)" now xs]
    by (simp add: len upt_add_eq_append [of 0, simplified])
qed

lemma append_contents:
  "contents (d\<lparr>es_events := es_events d @ new_events sid n now xs\<rparr>) = (contents d)(sid := contents d sid @ xs)"
  by (rule ext) (simp add: contents_def stream_append new_events_contents)

lemma fold_max_upt: "fold max (map int [1..<Suc n]) (0::int) = int n"
proof (induction n)
  case (Suc n)
  then show ?case by (simp add: upt_Suc_append)
qed simp

lemma max_version_wf:
  assumes "es_wf d"
  shows "max_version d sid = int (length (stream_of d sid)) - 1"
proof (cases "length (stream_of d sid)")
  case 0
  then show ?thesis by (simp add: max_version_def)
next
  case (Suc n)
  have "map evVersion (stream_of d sid) = map int [0..<Suc n]" using assms Suc by (simp add: es_wf_def)
  then have "map evVersion (stream_of d sid) = 0 # map int [1..<Suc n]" by (simp add: upt_conv_Cons)
  then show ?thesis using fold_max_upt [of n] Suc by (simp add: max_version_def)
qed

section \<open>Append\<close>

definition es_env :: "('t, es_sql, 'q, es_row, 'w) pg \<Rightarrow> ('t, es_db, 'w) db_view \<Rightarrow> bool" where
  "es_env pg v \<longleftrightarrow> pg_tx_ok pg v \<and> pg_exec_ok pg v es_sem \<and> pg_query_ok pg v es_query \<and> pg_pool_ok pg v es_sem es_query"

lemma append_loop_committed:
  assumes "es_env pg v"
  shows "committed v (snd (append_loop marshal emp pg tx sid n evs w)) = committed v w"
proof (induction evs arbitrary: n w)
  case (Cons ed eds)
  have "pg_exec_ok pg v es_sem" using assms by (simp add: es_env_def)
  note ex = exec_committed [OF this]
  show ?case
  proof (cases "marshal (edData ed)")
    case (Inr da)
    show ?thesis
    proof (cases "marshal (case edMetadata ed of None \<Rightarrow> emp | Some m \<Rightarrow> m)")
      case me: (Inr me)
      obtain e w1 where x: "tx_Exec pg tx (InsertEv sid n (edType ed) da me) w = (e, w1)" by fastforce
      from ex [of tx "InsertEv sid n (edType ed) da me" w] have "committed v w1 = committed v w" by (simp add: x)
      then show ?thesis using Cons.IH [of "n + 1" w1] by (simp add: Inr me x split: option.split)
    qed (simp add: Inr)
  qed simp
qed simp

lemma append_loop_ok:
  assumes env: "es_env pg v"
    and "append_loop marshal emp pg tx sid n evs w = (FnReturned None, w')"
  shows "\<exists>xs. encode_events marshal emp evs = Some xs \<and>
    view v w' tx = (view v w tx)\<lparr>es_events := es_events (view v w tx) @ new_events sid n (txnow v w tx) xs\<rparr>"
  using assms(2)
proof (induction evs arbitrary: n w)
  case (Cons ed eds)
  obtain da where da: "marshal (edData ed) = Inr da" using Cons.prems by (auto split: sum.splits)
  obtain me where me: "marshal (case edMetadata ed of None \<Rightarrow> emp | Some m \<Rightarrow> m) = Inr me"
    using Cons.prems da by (simp split: sum.splits)
  obtain e w1 where x: "tx_Exec pg tx (InsertEv sid n (edType ed) da me) w = (e, w1)" by fastforce
  have e: "e = None" and rest: "append_loop marshal emp pg tx sid (n + 1) eds w1 = (FnReturned None, w')"
    using Cons.prems da me x by (auto split: option.splits)
  have "pg_exec_ok pg v es_sem" using env by (simp add: es_env_def)
  note s = exec_sem [OF this x [unfolded e]]
  have v1: "view v w1 tx = (view v w tx)\<lparr>es_events := es_events (view v w tx) @
      [\<lparr>evStreamID = sid, evVersion = n, evType = edType ed, evData = da, evMetadata = me, evCreatedAt = txnow v w tx\<rparr>]\<rparr>"
    using s by (auto simp: es_sem_def split: if_splits)
  obtain xs where "encode_events marshal emp eds = Some xs"
      "view v w' tx = (view v w1 tx)\<lparr>es_events := es_events (view v w1 tx) @ new_events sid (n + 1) (txnow v w1 tx) xs\<rparr>"
    using Cons.IH [OF rest] by blast
  then show ?case using da me v1 s by simp
qed simp

lemma currentVersion_ok:
  assumes env: "es_env pg v" and res: "es_currentVersion pg tx sid w = (r, w1)"
  shows "committed v w1 = committed v w"
    and "r = Inr n \<Longrightarrow> same_db v w w1 \<and> n = max_version (view v w tx) sid"
proof -
  obtain q w2 where q: "tx_QueryRow pg tx (SelectVersion sid) w = (q, w2)" by fastforce
  obtain y w3 where y: "Scan pg q w2 = (y, w3)" by fastforce
  have w1: "w1 = w3" using res q y by (auto simp: es_currentVersion_def split: sum.splits)
  have ok: "pg_query_ok pg v es_query" using env by (simp add: es_env_def)
  have "committed v (snd (Scan pg q w2)) = committed v w2" by (rule query_committed [OF ok])
  then show "committed v w1 = committed v w"
    using same_dbD(1) [OF query_row(1) [OF ok q]] by (simp add: w1 y)
  assume "r = Inr n"
  then obtain x where x: "y = Inr x" "scan_version x = Inr n"
    using res q y by (auto simp: es_currentVersion_def split: sum.splits)
  from query_row(2) [OF ok q y [unfolded x(1)]] have "same_db v w w3" "x = RVersion (max_version (view v w tx) sid)"
    by (auto simp: es_query_def)
  with x(2) w1 show "same_db v w w1 \<and> n = max_version (view v w tx) sid" by simp
qed

lemma version_conflict_iff: "version_conflict sid ex (int n - 1) = None \<longleftrightarrow> version_ok ex n"
  by (auto simp: version_conflict_def version_ok_def)

lemma errors_Is_first: "errors_Is (Errorf (Wrapped e # ps)) e"
  by (rule errors_Is_wrap [of e]) simp_all

lemma version_conflict_Is: "version_conflict sid ex cur = Some e \<Longrightarrow> errors_Is e ErrVersionConflict"
  by (auto simp: version_conflict_def errors_Is_first split: if_splits)

lemma append_fn_committed:
  assumes env: "es_env pg v"
  shows "committed v (snd (append_fn marshal emp pg sid evs ex ctx tx w)) = committed v w"
proof -
  obtain r w1 where r: "es_currentVersion pg tx sid w = (r, w1)" by fastforce
  have "committed v w1 = committed v w" by (rule currentVersion_ok(1) [OF env r])
  then show ?thesis
    by (simp add: append_fn_def r append_loop_committed [OF env] split: sum.split option.split)
qed

lemma append_fn_ok:
  assumes env: "es_env pg v" and wf: "es_wf (view v w tx)"
    and res: "append_fn marshal emp pg sid evs ex ctx tx w = (FnReturned None, w')"
  shows "\<exists>xs. encode_events marshal emp evs = Some xs \<and> version_ok ex (length (stream_of (view v w tx) sid)) \<and>
    view v w' tx = (view v w tx)\<lparr>es_events := es_events (view v w tx) @
      new_events sid (int (length (stream_of (view v w tx) sid))) (txnow v w tx) xs\<rparr>"
proof -
  obtain r w1 where r: "es_currentVersion pg tx sid w = (r, w1)" by fastforce
  obtain n where n: "r = Inr n" using res r by (auto simp: append_fn_def split: sum.splits)
  from currentVersion_ok(2) [OF env r n] wf
  have s: "same_db v w w1" and len: "n = int (length (stream_of (view v w tx) sid)) - 1"
    by (simp_all add: max_version_wf)
  have vc: "version_conflict sid ex n = None"
    and lp: "append_loop marshal emp pg tx sid (n + 1) evs w1 = (FnReturned None, w')"
    using res r n by (auto simp: append_fn_def split: option.splits)
  show ?thesis
    using append_loop_ok [OF env lp] vc version_conflict_iff [of sid ex "length (stream_of (view v w tx) sid)"]
    by (simp add: len same_dbD [OF s])
qed

text \<open>A conflict is reported as \<open>ErrVersionConflict\<close>, unless the version could not be read.\<close>

lemma append_fn_conflict:
  assumes env: "es_env pg v" and wf: "es_wf (view v w tx)"
    and "es_currentVersion pg tx sid w = (Inr n, w1)" "\<not> version_ok ex (length (stream_of (view v w tx) sid))"
  shows "\<exists>e. append_fn marshal emp pg sid evs ex ctx tx w = (FnReturned (Some e), w1) \<and> errors_Is e ErrVersionConflict"
proof -
  have n: "n = int (length (stream_of (view v w tx) sid)) - 1"
    using currentVersion_ok(2) [OF env assms(3)] wf by (simp add: max_version_wf)
  then obtain e where e: "version_conflict sid ex n = Some e"
    using assms(4) version_conflict_iff [of sid ex "length (stream_of (view v w tx) sid)"] by auto
  then have "append_fn marshal emp pg sid evs ex ctx tx w = (FnReturned (Some e), w1)"
    using assms(3) by (simp add: append_fn_def)
  with version_conflict_Is [OF e] show ?thesis by blast
qed

text \<open>
  A writer that loses a race on the primary key gets the database's error, which is not
  \<open>ErrVersionConflict\<close>.
\<close>

lemma append_race_error:
  assumes "marshal (edData ed) = Inr da" "marshal (case edMetadata ed of None \<Rightarrow> emp | Some m \<Rightarrow> m) = Inr me"
    and "tx_Exec pg tx (InsertEv sid n (edType ed) da me) w = (Some (ErrNew m), w1)"
    and "m \<noteq> ''eventstore: version conflict''"
  shows "\<exists>e. append_loop marshal emp pg tx sid n (ed # eds) w = (FnReturned (Some e), w1) \<and>
    \<not> errors_Is e ErrVersionConflict"
proof -
  let ?e = "Errorf [Lit ''eventstore: insert event '', Quoted (edType ed), Lit '' v'', Dec n, Lit '': '', Wrapped (ErrNew m)]"
  have "\<not> errors_Is ?e ErrVersionConflict"
    using assms(4) errors_Is.simps [of ?e ErrVersionConflict] by simp
  with assms(1-3) show ?thesis by simp
qed

lemma Append_cases:
  assumes env: "es_env pg v" and new: "txFromContext ctx = None" and wf: "es_wf (committed v w)"
    and ne: "evs \<noteq> []" and res: "es_Append marshal emp pg ctx sid evs ex w = (r, w')"
  shows "(\<exists>xs now. encode_events marshal emp evs = Some xs \<and> version_ok ex (length (stream_of (committed v w) sid)) \<and>
      committed v w' = (committed v w)\<lparr>es_events := es_events (committed v w) @
        new_events sid (int (length (stream_of (committed v w) sid))) now xs\<rparr>) \<or>
    r \<noteq> FnReturned None \<and> committed v w' = committed v w"
proof -
  let ?fn = "append_fn marshal emp pg sid evs ex"
  have ok: "pg_tx_ok pg v" using env by (simp add: es_env_def)
  have res: "db_WithTx pg ctx ?fn w = (r, w')" using res ne by (simp add: es_Append_def)
  from ok new show ?thesis
  proof (cases rule: WithTx_begin [where fn = ?fn and w = w])
    case (failed e w'')
    with res show ?thesis by auto
  next
    case (started tx w1)
    obtain o1 w2 where o1: "?fn (contextWithTx ctx tx) tx w1 = (o1, w2)" by fastforce
    have "committed v w2 = committed v w"
      using append_fn_committed [OF env, of marshal emp sid evs ex "contextWithTx ctx tx" tx w1] o1 started(2) by simp
    note ends = WithTx_ends [OF ok new started(1) o1 this res]
    show ?thesis
    proof (cases "o1 = FnReturned None")
      case True
      from append_fn_ok [OF env, of w1 tx marshal emp sid evs ex "contextWithTx ctx tx" w2] wf started(3) o1 True
      have "\<exists>xs. encode_events marshal emp evs = Some xs \<and> version_ok ex (length (stream_of (committed v w) sid)) \<and>
          view v w2 tx = (committed v w)\<lparr>es_events := es_events (committed v w) @
            new_events sid (int (length (stream_of (committed v w) sid))) (txnow v w1 tx) xs\<rparr>"
        by simp
      with ends show ?thesis by auto
    next
      case False
      with ends show ?thesis by auto
    qed
  qed
qed

section \<open>Load\<close>

lemma filter_from:
  "map f xs = map int [a..<a + length xs] \<Longrightarrow> filter (\<lambda>x. int k \<le> f x) xs = drop (k - a) xs"
proof (induction xs arbitrary: a)
  case (Cons x xs)
  have "[a..<a + length (x # xs)] = a # [Suc a..<Suc a + length xs]" by (simp add: upt_conv_Cons del: upt_Suc)
  with Cons.prems have x: "f x = int a" "map f xs = map int [Suc a..<Suc a + length xs]" by (simp_all del: upt_Suc)
  show ?case using Cons.IH [OF x(2)] x(1) by (cases "k \<le> a") (auto simp: drop_Cons' not_le)
qed simp

lemma scan_events_REvent [simp]: "scan_events (map REvent es) = Inr es"
  by (induction es) auto

lemma load_rows:
  assumes "es_wf d" "0 \<le> from"
  shows "es_rows (SelectEvents sid from) d = map REvent (drop (nat from) (stream_of d sid))"
proof -
  have vs: "map evVersion (stream_of d sid) = map int [0..<0 + length (stream_of d sid)]" using assms(1) by (simp add: es_wf_def)
  have "filter (\<lambda>e. from \<le> evVersion e) (stream_of d sid) = drop (nat from) (stream_of d sid)"
    using filter_from [OF vs, of "nat from"] assms(2) by simp
  moreover have "sorted (map evVersion (drop (nat from) (stream_of d sid)))"
    using arg_cong [OF vs, of "drop (nat from)"] by (simp add: drop_map sorted_map)
  ultimately show ?thesis by (simp add: sort_key_id_if_sorted)
qed

lemma Load_ok:
  assumes env: "es_env pg v" and wf: "es_wf (committed v w)" "0 \<le> from" and res: "es_Load pg sid from w = (r, w')"
  shows "r = Inr es \<Longrightarrow> es = drop (nat from) (stream_of (committed v w) sid)"
    and "r = Inl (Errorf [Wrapped ErrStreamNotFound, Lit '': '', Quoted sid]) \<Longrightarrow>
      from = 0 \<and> stream_of (committed v w) sid = []"
proof -
  have tx: "pg_tx_ok pg v" and pool: "pg_pool_ok pg v es_sem es_query" using env by (simp_all add: es_env_def)
  let ?q = "SelectEvents sid from"
  let ?w0 = "startSpan pg ''query'' ?q w"
  obtain a w1 where a: "pool_Query pg ?q ?w0 = (a, w1)" by fastforce
  have w0: "committed v ?w0 = committed v w" using tx by (simp add: startSpan_def)
  have rows: "rs = map REvent (drop (nat from) (stream_of (committed v w) sid))"
    if "a = Inr rows" "CollectRows pg rows (span pg SpanEnd w1) = (Inr rs, w2)" for rows rs w2
  proof -
    have "\<exists>now. es_query ?q now (committed v ?w0) rs"
      using conjunct1 [OF conjunct2 [OF conjunct2 [OF pool [unfolded pg_pool_ok_def]]], rule_format, OF a [unfolded that(1)]]
        span_same [OF tx, of w1 SpanEnd] that(2) by blast
    then show ?thesis using load_rows [OF wf] by (simp add: es_query_def w0)
  qed
  show "es = drop (nat from) (stream_of (committed v w) sid)" if "r = Inr es"
  proof (cases a)
    case (Inl e)
    then show ?thesis using res that a by (simp add: es_Load_def db_Query_def)
  next
    case (Inr q)
    obtain b w2 where b: "CollectRows pg q (span pg SpanEnd w1) = (b, w2)" by fastforce
    show ?thesis
      using res that a b Inr rows [OF Inr]
      by (cases b) (auto simp: es_Load_def db_Query_def recordSpanError_def split: if_splits)
  qed
  assume nf: "r = Inl (Errorf [Wrapped ErrStreamNotFound, Lit '': '', Quoted sid])"
  show "from = 0 \<and> stream_of (committed v w) sid = []"
  proof (cases a)
    case (Inl e)
    then show ?thesis using res nf a by (simp add: es_Load_def db_Query_def)
  next
    case (Inr q)
    obtain b w2 where b: "CollectRows pg q (span pg SpanEnd w1) = (b, w2)" by fastforce
    show ?thesis
      using res nf a b Inr rows [OF Inr]
      by (cases b) (auto simp: es_Load_def db_Query_def recordSpanError_def split: if_splits)
  qed
qed

section \<open>Snapshots\<close>

text \<open>A saved snapshot replaces the stream's former one and is what the query for it returns.\<close>

lemma filter_key_unique:
  "distinct (map f xs) \<Longrightarrow> \<exists>x \<in> set xs. f x = k \<Longrightarrow> f s = k \<Longrightarrow>
     filter (\<lambda>x. f x = k) (map (\<lambda>x. if f x = k then s else x) xs) = [s]"
proof (induction xs)
  case (Cons x xs)
  show ?case
  proof (cases "f x = k")
    case True
    then have "\<forall>y \<in> set xs. f y \<noteq> k" using Cons.prems(1) by (metis distinct.simps(2) image_eqI list.simps(9) set_map)
    then have "filter (\<lambda>x. f x = k) (map (\<lambda>x. if f x = k then s else x) xs) = []" by (auto simp: filter_empty_conv)
    then show ?thesis using True Cons.prems(3) by simp
  next
    case False
    then show ?thesis using Cons by simp
  qed
qed simp

lemma snapshot_roundtrip:
  assumes "distinct (map snStreamID (es_snapshots d))" "es_exec (UpsertSnapshot sid ver da) now d = Some d'"
  shows "es_rows (SelectSnapshot sid) d' = [RSnapshot \<lparr>snStreamID = sid, snVersion = ver, snData = da, snCreatedAt = now\<rparr>] \<and>
    distinct (map snStreamID (es_snapshots d'))"
proof (cases "list_ex (\<lambda>x. snStreamID x = sid) (es_snapshots d)")
  case True
  let ?s = "\<lparr>snStreamID = sid, snVersion = ver, snData = da, snCreatedAt = now\<rparr>"
  have d': "es_snapshots d' = map (\<lambda>x. if snStreamID x = sid then ?s else x) (es_snapshots d)"
    using assms(2) True by (auto simp: Let_def)
  have ids: "map snStreamID (es_snapshots d') = map snStreamID (es_snapshots d)" by (simp add: d')
  have "filter (\<lambda>x. snStreamID x = sid) (es_snapshots d') = [?s]"
    unfolding d' by (rule filter_key_unique [OF assms(1)]) (use True in \<open>simp_all add: list_ex_iff\<close>)
  then show ?thesis unfolding ids using assms(1) by simp
next
  case False
  then have "es_snapshots d' = es_snapshots d @ [\<lparr>snStreamID = sid, snVersion = ver, snData = da, snCreatedAt = now\<rparr>]"
    using assms(2) by (auto simp: Let_def)
  moreover have "filter (\<lambda>x. snStreamID x = sid) (es_snapshots d) = []"
    using False by (auto simp: list_ex_iff filter_empty_conv)
  ultimately show ?thesis using assms(1) False by (auto simp: list_ex_iff)
qed

section \<open>A store in memory\<close>

abbreviation es_mem :: "(unit, es_sql, es_row list, es_row, es_db \<times> es_db \<times> bool \<times> unit) pg" where
  "es_mem \<equiv> mem_pg (\<lambda>s d. es_exec s 0 d) es_rows"

lemma es_mem_env: "es_env es_mem mem_view"
  unfolding es_env_def
proof (intro conjI)
  show "pg_tx_ok es_mem mem_view" by (rule mem_tx_ok)
  show "pg_exec_ok es_mem mem_view es_sem" by (rule mem_exec_ok) (simp add: es_sem_def)
  show "pg_query_ok es_mem mem_view es_query" by (rule mem_query_ok) (simp add: es_query_def)
  show "pg_pool_ok es_mem mem_view es_sem es_query" by (rule mem_pool_ok) (simp_all add: es_sem_def es_query_def)
qed

definition es_demo :: "string EventData list" where
  "es_demo = [\<lparr>edType = ''Placed'', edData = ''1'', edMetadata = None\<rparr>, \<lparr>edType = ''Paid'', edData = ''2'', edMetadata = Some ''m''\<rparr>]"

abbreviation es_empty :: es_db where "es_empty \<equiv> \<lparr>es_events = [], es_snapshots = []\<rparr>"

section \<open>Properties\<close>

text \<open>
  C5. \<open>Append\<close> refines appending to a list: on a well-formed table, in which the versions of each
  stream count from 0, it either appends exactly the encoded events, in order, to the one stream, if the
  expected version fits the length of the stream, or it changes nothing and returns an error; and
  the table stays well-formed.
\<close>

theorem eventstore_Append:
  assumes "es_env pg v" "txFromContext ctx = None" "es_wf (committed v w)" "evs \<noteq> []"
  shows "case es_Append marshal emp pg ctx sid evs ex w of (r, w') \<Rightarrow>
    es_wf (committed v w') \<and>
    ((\<exists>xs. encode_events marshal emp evs = Some xs \<and> version_ok ex (length (contents (committed v w) sid)) \<and>
        contents (committed v w') = (contents (committed v w))(sid := contents (committed v w) sid @ xs)) \<or>
     r \<noteq> FnReturned None \<and> committed v w' = committed v w)"
proof (cases "es_Append marshal emp pg ctx sid evs ex w")
  case (Pair r w')
  have len: "length (contents d sid) = length (stream_of d sid)" for d by (simp add: contents_def)
  from Append_cases [OF assms Pair] show ?thesis
  proof
    assume "\<exists>xs now. encode_events marshal emp evs = Some xs \<and> version_ok ex (length (stream_of (committed v w) sid)) \<and>
      committed v w' = (committed v w)\<lparr>es_events := es_events (committed v w) @
        new_events sid (int (length (stream_of (committed v w) sid))) now xs\<rparr>"
    then show ?thesis using append_wf [OF assms(3)] by (auto simp: Pair append_contents len)
  next
    assume "r \<noteq> FnReturned None \<and> committed v w' = committed v w"
    then show ?thesis using assms(3) by (simp add: Pair)
  qed
qed

theorem eventstore_Append_witness:
  "es_wf (fst (snd (es_Append Inr ''{}'' es_mem \<lparr>ctx_tx = None, ctx_span = False\<rparr> ''order'' es_demo (- 1)
     (es_empty, es_empty, False, ()))))"
proof -
  have "es_wf es_empty" by (simp add: es_wf_def stream_of_def)
  then show ?thesis
    using eventstore_Append [OF es_mem_env, where ctx = "\<lparr>ctx_tx = None, ctx_span = False\<rparr>"
        and w = "(es_empty, es_empty, False, ())" and evs = es_demo and marshal = Inr and emp = "''{}''"
        and sid = "''order''" and ex = "- 1"]
    by (auto simp: txFromContext_def mem_view_def es_demo_def split: prod.splits)
qed



end
