(* ===== verification/RedisCache.thy ===== *)
theory RedisCache
  imports GoStd "HOL-Library.Sublist"
begin

text \<open>
  The typed Redis cache of \<open>pkg/rediscache/cache.go\<close>. The Redis client, the tracer and JSON encoding
  are parameters. The loop of \<open>Flush\<close> runs until the server returns cursor 0; its number of rounds is
  bounded by fuel, and \<open>None\<close> is a call that is still scanning.
\<close>

section \<open>The client\<close>

abbreviation redis_Nil :: err where "redis_Nil \<equiv> ErrNew ''redis: nil''"

record 'w redis =
  redis_Get :: "string \<Rightarrow> ('w, err + string) action"
  redis_Set :: "string \<Rightarrow> string \<Rightarrow> duration \<Rightarrow> ('w, err option) action"
  redis_Del :: "string list \<Rightarrow> ('w, err option) action"
  redis_FlushDB :: "('w, err option) action"
  redis_Scan :: "nat \<Rightarrow> string \<Rightarrow> nat \<Rightarrow> ('w, err + (string list \<times> nat)) action"
  redis_MGet :: "string list \<Rightarrow> ('w, err + string option list) action"
  redis_Ping :: "('w, err option) action"
  redis_span :: "string \<Rightarrow> string \<Rightarrow> 'w \<Rightarrow> 'w"
  redis_attr :: "bool \<Rightarrow> 'w \<Rightarrow> 'w"
  redis_err :: "err \<Rightarrow> 'w \<Rightarrow> 'w"
  redis_end :: "'w \<Rightarrow> 'w"
  redis_warn :: "string \<Rightarrow> err \<Rightarrow> 'w \<Rightarrow> 'w"

record 'v codec =
  Marshal :: "'v \<Rightarrow> err + string"
  Unmarshal :: "string \<Rightarrow> err + 'v"

section \<open>Cache\<close>

record cache_opts = kprefix :: string

definition WithKeyPrefix :: "string \<Rightarrow> cache_opts \<Rightarrow> cache_opts" where
  "WithKeyPrefix p o' = o'\<lparr>kprefix := p\<rparr>"

definition rcache_New :: "(cache_opts \<Rightarrow> cache_opts) list \<Rightarrow> cache_opts" where
  "rcache_New opts = fold (\<lambda>f c. f c) opts \<lparr>kprefix = []\<rparr>"

definition rkey :: "cache_opts \<Rightarrow> string \<Rightarrow> string" where
  "rkey c key = kprefix c @ key"

definition rspan :: "'w redis \<Rightarrow> string \<Rightarrow> string \<Rightarrow> 'w \<Rightarrow> 'w" where
  "rspan red op key w = redis_span red (''redis.'' @ op) key w"

definition recordErr :: "'w redis \<Rightarrow> err \<Rightarrow> 'w \<Rightarrow> 'w" where
  "recordErr red e w = redis_err red e w"

text \<open>\<open>Get\<close>: \<open>Inr None\<close> is a miss.\<close>

definition rcache_Get :: "'w redis \<Rightarrow> 'v codec \<Rightarrow> cache_opts \<Rightarrow> string \<Rightarrow> ('w, err + 'v option) action" where
  "rcache_Get red cd c key w =
     (let (raw, w1) = redis_Get red (rkey c key) (rspan red ''GET'' key w);
          (res, w2) =
            (case raw of
               Inl e \<Rightarrow>
                 if errors_Is e redis_Nil then (Inr None, redis_attr red False w1)
                 else (Inl (Errorf [Lit ''rediscache: get '', Quoted key, Lit '': '', Wrapped e]), recordErr red e w1)
             | Inr bs \<Rightarrow>
                 (case Unmarshal cd bs of
                    Inl e \<Rightarrow> (Inl (Errorf [Lit ''rediscache: unmarshal '', Quoted key, Lit '': '', Wrapped e]),
                              redis_attr red True w1)
                  | Inr v \<Rightarrow> (Inr (Some v), redis_attr red True w1)))
      in (res, redis_end red w2))"

definition rcache_Set :: "'w redis \<Rightarrow> 'v codec \<Rightarrow> cache_opts \<Rightarrow> string \<Rightarrow> 'v \<Rightarrow> duration \<Rightarrow> ('w, err option) action" where
  "rcache_Set red cd c key v ttl w =
     (let w1 = rspan red ''SET'' key w;
          (res, w2) =
            (case Marshal cd v of
               Inl e \<Rightarrow> (Some (Errorf [Lit ''rediscache: marshal '', Quoted key, Lit '': '', Wrapped e]), w1)
             | Inr raw \<Rightarrow>
                 (case redis_Set red (rkey c key) raw ttl w1 of
                    (Some e, w2) \<Rightarrow>
                      (Some (Errorf [Lit ''rediscache: set '', Quoted key, Lit '': '', Wrapped e]), recordErr red e w2)
                  | (None, w2) \<Rightarrow> (None, w2)))
      in (res, redis_end red w2))"

definition rcache_Delete :: "'w redis \<Rightarrow> cache_opts \<Rightarrow> string \<Rightarrow> ('w, err option) action" where
  "rcache_Delete red c key w =
     (let (res, w2) =
        (case redis_Del red [rkey c key] (rspan red ''DEL'' key w) of
           (Some e, w1) \<Rightarrow>
             (Some (Errorf [Lit ''rediscache: del '', Quoted key, Lit '': '', Wrapped e]), recordErr red e w1)
         | (None, w1) \<Rightarrow> (None, w1))
      in (res, redis_end red w2))"

fun flush_loop :: "nat \<Rightarrow> 'w redis \<Rightarrow> cache_opts \<Rightarrow> nat \<Rightarrow> 'w \<Rightarrow> (err option \<times> 'w) option" where
  "flush_loop 0 red c cursor w = None"
| "flush_loop (Suc n) red c cursor w =
     (case redis_Scan red cursor (kprefix c @ ''*'') 100 w of
        (Inl e, w1) \<Rightarrow> Some (Some (Errorf [Lit ''rediscache: scan: '', Wrapped e]), recordErr red e w1)
      | (Inr (keys, cursor'), w1) \<Rightarrow>
          (case (if 0 < length keys then redis_Del red keys w1 else (None, w1)) of
             (Some e, w2) \<Rightarrow> Some (Some (Errorf [Lit ''rediscache: del batch: '', Wrapped e]), recordErr red e w2)
           | (None, w2) \<Rightarrow> if cursor' = 0 then Some (None, w2) else flush_loop n red c cursor' w2))"

definition rcache_Flush :: "nat \<Rightarrow> 'w redis \<Rightarrow> cache_opts \<Rightarrow> 'w \<Rightarrow> (err option \<times> 'w) option" where
  "rcache_Flush fuel red c w =
     (let w1 = rspan red ''FLUSH'' ''*'' w;
          res =
            (if kprefix c = [] then
               (case redis_FlushDB red w1 of
                  (Some e, w2) \<Rightarrow> Some (Some (Errorf [Lit ''rediscache: flush db: '', Wrapped e]), recordErr red e w2)
                | (None, w2) \<Rightarrow> Some (None, w2))
             else flush_loop fuel red c 0 w1)
      in map_option (\<lambda>(r, w2). (r, redis_end red w2)) res)"

text \<open>
  \<open>MGet\<close>: the loop over the values fills the result, a map; a value that cannot be decoded is
  logged and left out. \<open>None\<close> as the map is the nil of a call without keys.
\<close>

fun mget_loop :: "'w redis \<Rightarrow> 'v codec \<Rightarrow> (string \<times> string option) list \<Rightarrow> (string \<Rightarrow> 'v option) \<Rightarrow> 'w
    \<Rightarrow> (string \<Rightarrow> 'v option) \<times> 'w" where
  "mget_loop red cd [] result w = (result, w)"
| "mget_loop red cd ((k, None) # kvs) result w = mget_loop red cd kvs result w"
| "mget_loop red cd ((k, Some raw) # kvs) result w =
     (case Unmarshal cd raw of
        Inl e \<Rightarrow> mget_loop red cd kvs result (redis_warn red k e w)
      | Inr v \<Rightarrow> mget_loop red cd kvs (result(k \<mapsto> v)) w)"

definition rcache_MGet :: "'w redis \<Rightarrow> 'v codec \<Rightarrow> cache_opts \<Rightarrow> string list \<Rightarrow> ('w, err + (string \<Rightarrow> 'v option) option) action" where
  "rcache_MGet red cd c keys w =
     (if keys = [] then (Inr None, w)
      else
        let w1 = rspan red ''MGET'' (Itoa (int (length keys)) @ '' keys'') w;
            (vals, w2) = redis_MGet red (map (rkey c) keys) w1;
            (res, w3) =
              (case vals of
                 Inl e \<Rightarrow> (Inl (Errorf [Lit ''rediscache: mget: '', Wrapped e]), recordErr red e w2)
               | Inr vs \<Rightarrow> let (m, w') = mget_loop red cd (zip keys vs) Map.empty w2 in (Inr (Some m), w'))
        in (res, redis_end red w3))"

definition rcache_Check :: "'w redis \<Rightarrow> ('w, err option) action" where
  "rcache_Check red w =
     (case redis_Ping red w of
        (Some e, w1) \<Rightarrow> (Some (Errorf [Lit ''rediscache: ping: '', Wrapped e]), w1)
      | (None, w1) \<Rightarrow> (None, w1))"

section \<open>What the server promises\<close>

text \<open>
  \<open>data w\<close> is what the server holds. \<open>todo w cursor\<close> are the keys that a scan at \<open>cursor\<close> has still to
  return: all at the start, and none when the cursor comes back as 0. \<open>left w cursor\<close> bounds the
  rounds to come. \<open>glob p k\<close> says that the key matches the pattern.
\<close>

record 'w server_view =
  data :: "'w \<Rightarrow> string \<Rightarrow> string option"
  todo :: "'w \<Rightarrow> nat \<Rightarrow> string set"
  left :: "'w \<Rightarrow> nat \<Rightarrow> nat"

definition same_data :: "'w server_view \<Rightarrow> 'w \<Rightarrow> 'w \<Rightarrow> bool" where
  "same_data s w w' \<longleftrightarrow> data s w' = data s w \<and> todo s w' = todo s w \<and> left s w' = left s w"

definition redis_silent :: "'w redis \<Rightarrow> 'w server_view \<Rightarrow> bool" where
  "redis_silent red s \<longleftrightarrow>
     (\<forall>a b w. same_data s w (redis_span red a b w)) \<and> (\<forall>b w. same_data s w (redis_attr red b w)) \<and>
     (\<forall>e w. same_data s w (redis_err red e w)) \<and> (\<forall>w. same_data s w (redis_end red w)) \<and>
     (\<forall>k e w. same_data s w (redis_warn red k e w))"

definition redis_kv :: "'w redis \<Rightarrow> 'w server_view \<Rightarrow> bool" where
  "redis_kv red s \<longleftrightarrow>
     (\<forall>k w. same_data s w (snd (redis_Get red k w)) \<and>
        (case fst (redis_Get red k w) of
           Inr raw \<Rightarrow> data s w k = Some raw
         | Inl e \<Rightarrow> errors_Is e redis_Nil \<longrightarrow> data s w k = None)) \<and>
     (\<forall>k raw d w w'. redis_Set red k raw d w = (None, w') \<longrightarrow> data s w' = (data s w)(k \<mapsto> raw)) \<and>
     (\<forall>ks w w'. redis_Del red ks w = (None, w') \<longrightarrow>
        data s w' = (\<lambda>k. if k \<in> set ks then None else data s w k) \<and>
        (\<forall>cur. todo s w cur \<inter> dom (data s w') \<subseteq> todo s w' cur) \<and> left s w' = left s w) \<and>
     (\<forall>w w'. redis_FlushDB red w = (None, w') \<longrightarrow> data s w' = Map.empty) \<and>
     (\<forall>ks w. same_data s w (snd (redis_MGet red ks w)) \<and>
        (case fst (redis_MGet red ks w) of Inr vs \<Rightarrow> vs = map (data s w) ks | Inl e \<Rightarrow> True))"

definition redis_scan_ok :: "'w redis \<Rightarrow> 'w server_view \<Rightarrow> (string \<Rightarrow> string \<Rightarrow> bool) \<Rightarrow> bool" where
  "redis_scan_ok red s glob \<longleftrightarrow>
     (\<forall>w. dom (data s w) \<subseteq> todo s w 0) \<and>
     (\<forall>cur p n w keys cur' w'. redis_Scan red cur p n w = (Inr (keys, cur'), w') \<longrightarrow>
        data s w' = data s w \<and> (\<forall>k \<in> set keys. glob p k) \<and>
        {k \<in> dom (data s w) \<inter> todo s w cur. glob p k} \<subseteq> set keys \<union> (if cur' = 0 then {} else todo s w' cur') \<and>
        (cur' \<noteq> 0 \<longrightarrow> left s w' cur' < left s w cur))"

section \<open>Get, Set and MGet\<close>

lemma same_dataD:
  assumes "same_data s w w'"
  shows "data s w' = data s w" "todo s w' = todo s w" "left s w' = left s w"
  using assms by (simp_all add: same_data_def)

lemma silentD:
  assumes "redis_silent red s"
  shows "data s (redis_end red w) = data s w" "data s (recordErr red e w) = data s w" "data s (rspan red a b w) = data s w"
    "data s (redis_attr red h w) = data s w" "data s (redis_warn red k e w) = data s w"
    "todo s (rspan red a b w) = todo s w" "left s (rspan red a b w) = left s w"
  using assms by (simp_all add: redis_silent_def same_data_def recordErr_def rspan_def)

text \<open>What the cache holds under a key: nothing if the server has no value or one that cannot be decoded.\<close>

definition lookup :: "'w server_view \<Rightarrow> 'v codec \<Rightarrow> cache_opts \<Rightarrow> 'w \<Rightarrow> string \<Rightarrow> 'v option" where
  "lookup s cd c w key =
     (case data s w (rkey c key) of
        None \<Rightarrow> None
      | Some raw \<Rightarrow> (case Unmarshal cd raw of Inl _ \<Rightarrow> None | Inr v \<Rightarrow> Some v))"

lemma rkey_inj [simp]: "rkey c k = rkey c k' \<longleftrightarrow> k = k'"
  by (simp add: rkey_def)

lemma Get_lookup:
  assumes "redis_silent red s" "redis_kv red s" "rcache_Get red cd c key w = (Inr r, w')"
  shows "r = lookup s cd c w key"
proof -
  let ?w1 = "rspan red ''GET'' key w"
  obtain raw w1 where raw: "redis_Get red (rkey c key) ?w1 = (raw, w1)" by fastforce
  have "case fst (redis_Get red (rkey c key) ?w1) of Inr x \<Rightarrow> data s ?w1 (rkey c key) = Some x
      | Inl e \<Rightarrow> errors_Is e redis_Nil \<longrightarrow> data s ?w1 (rkey c key) = None"
    using assms(2) by (simp add: redis_kv_def)
  then show ?thesis
    using assms(3) raw silentD(3) [OF assms(1)]
    by (cases raw) (auto simp: rcache_Get_def Let_def lookup_def split: if_splits sum.splits)
qed

lemma Set_data:
  assumes "redis_silent red s" "redis_kv red s" "rcache_Set red cd c key v ttl w = (None, w')"
  shows "\<exists>raw. Marshal cd v = Inr raw \<and> data s w' = (data s w)(rkey c key \<mapsto> raw)"
proof -
  let ?w1 = "rspan red ''SET'' key w"
  obtain raw where raw: "Marshal cd v = Inr raw"
    using assms(3) by (auto simp: rcache_Set_def Let_def split: sum.splits)
  obtain e w2 where e: "redis_Set red (rkey c key) raw ttl ?w1 = (e, w2)" by fastforce
  have "e = None" "w' = redis_end red w2"
    using assms(3) raw e by (auto simp: rcache_Set_def Let_def split: option.splits)
  moreover have "data s w2 = (data s ?w1)(rkey c key \<mapsto> raw)" if "e = None"
    using assms(2) e that unfolding redis_kv_def by metis
  ultimately show ?thesis using raw silentD [OF assms(1)] by simp
qed

lemma mget_loop_data: "redis_silent red s \<Longrightarrow> data s (snd (mget_loop red cd kvs m w)) = data s w"
  by (induction red cd kvs m w rule: mget_loop.induct) (auto simp: silentD split: sum.split)

lemma mget_loop_lookup:
  "fst (mget_loop red cd (zip ks (map f ks)) m w) =
     (\<lambda>k. if k \<in> set ks \<and> (\<exists>raw v. f k = Some raw \<and> Unmarshal cd raw = Inr v)
          then Some (projr (Unmarshal cd (the (f k)))) else m k)"
proof (induction ks arbitrary: m w)
  case (Cons k ks)
  show ?case
  proof (cases "f k")
    case None
    then show ?thesis using Cons.IH by (auto simp: fun_eq_iff)
  next
    case (Some raw)
    then show ?thesis using Cons.IH by (cases "Unmarshal cd raw") (auto simp: fun_eq_iff)
  qed
qed simp

lemma MGet_lookup:
  assumes "redis_silent red s" "redis_kv red s" "rcache_MGet red cd c keys w = (Inr (Some m), w')"
  shows "m = (\<lambda>k. if k \<in> set keys then lookup s cd c w k else None)"
proof -
  have ne: "keys \<noteq> []" using assms(3) by (auto simp: rcache_MGet_def)
  let ?w1 = "rspan red ''MGET'' (Itoa (int (length keys)) @ '' keys'') w"
  obtain vs w2 where vs: "redis_MGet red (map (rkey c) keys) ?w1 = (vs, w2)" by fastforce
  obtain xs where xs: "vs = Inr xs"
    using assms(3) ne vs by (cases vs) (auto simp: rcache_MGet_def Let_def)
  have "case fst (redis_MGet red (map (rkey c) keys) ?w1) of Inr vs \<Rightarrow> vs = map (data s ?w1) (map (rkey c) keys) | Inl e \<Rightarrow> True"
    using assms(2) unfolding redis_kv_def by blast
  then have "xs = map (\<lambda>k. data s w (rkey c k)) keys" using vs xs silentD(3) [OF assms(1)] by (simp add: comp_def)
  moreover have "m = fst (mget_loop red cd (zip keys xs) Map.empty w2)"
    using assms(3) ne vs xs by (auto simp: rcache_MGet_def Let_def split: prod.splits)
  ultimately have m: "m = (\<lambda>k. if k \<in> set keys \<and> (\<exists>raw v. data s w (rkey c k) = Some raw \<and> Unmarshal cd raw = Inr v)
      then Some (projr (Unmarshal cd (the (data s w (rkey c k))))) else None)"
    by (simp add: mget_loop_lookup)
  show ?thesis
    unfolding m lookup_def by (rule ext) (auto split: option.split sum.split)
qed

section \<open>Flush\<close>

lemma flush_loop_returns:
  assumes "redis_kv red s" "redis_scan_ok red s glob"
  shows "left s w cur < n \<Longrightarrow> \<exists>r. flush_loop n red c cur w = Some r"
proof (induction n arbitrary: cur w)
  case (Suc n)
  obtain a w1 where a: "redis_Scan red cur (kprefix c @ ''*'') 100 w = (a, w1)" by fastforce
  show ?case
  proof (cases a)
    case (Inl e)
    then show ?thesis by (simp add: a)
  next
    case (Inr p)
    obtain keys cur' where p: "p = (keys, cur')" by fastforce
    obtain e w2 where e: "(if 0 < length keys then redis_Del red keys w1 else (None, w1)) = (e, w2)" by fastforce
    have l1: "left s w1 cur' < left s w cur" if "cur' \<noteq> 0"
      using assms(2) a that unfolding Inr p redis_scan_ok_def by blast
    have "left s w2 = left s w1" if "e = None"
    proof (cases "keys = []")
      case False
      then have "redis_Del red keys w1 = (None, w2)" using e that by simp
      then show ?thesis using assms(1) unfolding redis_kv_def by blast
    qed (use e in simp)
    with l1 Suc.IH [of w2 cur'] Suc.prems have "e = None \<Longrightarrow> cur' \<noteq> 0 \<Longrightarrow> \<exists>r. flush_loop n red c cur' w2 = Some r"
      by simp
    then show ?thesis using e by (cases e) (simp_all add: a Inr p)
  qed
qed simp

text \<open>One round: the keys that match and are not yet deleted are still to come.\<close>

lemma flush_round:
  assumes "redis_kv red s" "redis_scan_ok red s glob"
    and inv: "{k \<in> dom (data s w). glob p k} \<subseteq> todo s w cur"
    and a: "redis_Scan red cur p n w = (Inr (keys, cur'), w1)"
    and e: "(if 0 < length keys then redis_Del red keys w1 else (None, w1)) = (None, w2)"
  shows "data s w2 = (\<lambda>k. if k \<in> set keys then None else data s w k)"
    and "\<forall>k \<in> set keys. glob p k"
    and "{k \<in> dom (data s w2). glob p k} \<subseteq> (if cur' = 0 then {} else todo s w2 cur')"
proof -
  have sc: "data s w1 = data s w" "\<forall>k \<in> set keys. glob p k"
    "{k \<in> dom (data s w) \<inter> todo s w cur. glob p k} \<subseteq> set keys \<union> (if cur' = 0 then {} else todo s w1 cur')"
    using assms(2) a unfolding redis_scan_ok_def by blast+
  have d: "data s w2 = (\<lambda>k. if k \<in> set keys then None else data s w1 k) \<and>
      (\<forall>cur. todo s w1 cur \<inter> dom (data s w2) \<subseteq> todo s w2 cur)"
  proof (cases "keys = []")
    case False
    then have "redis_Del red keys w1 = (None, w2)" using e by simp
    then show ?thesis using assms(1) unfolding redis_kv_def by blast
  qed (use e in auto)
  then show d2: "data s w2 = (\<lambda>k. if k \<in> set keys then None else data s w k)"
    unfolding sc(1) by (rule conjunct1)
  show "\<forall>k \<in> set keys. glob p k" by (rule sc(2))
  show "{k \<in> dom (data s w2). glob p k} \<subseteq> (if cur' = 0 then {} else todo s w2 cur')"
  proof
    fix k
    assume k: "k \<in> {k \<in> dom (data s w2). glob p k}"
    then have kd: "k \<in> dom (data s w)" "k \<notin> set keys" "glob p k" by (auto simp: d2 split: if_splits)
    then have "k \<in> (if cur' = 0 then {} else todo s w1 cur')" using subsetD [OF inv, of k] subsetD [OF sc(3), of k] by auto
    then show "k \<in> (if cur' = 0 then {} else todo s w2 cur')" using d k by (auto split: if_splits)
  qed
qed

lemma flush_loop_data:
  assumes "redis_kv red s" "redis_scan_ok red s glob"
    and "{k \<in> dom (data s w). glob (kprefix c @ ''*'') k} \<subseteq> todo s w cur"
    and "flush_loop n red c cur w = Some (None, w')"
  shows "data s w' = (\<lambda>k. if glob (kprefix c @ ''*'') k then None else data s w k)"
  using assms(3,4)
proof (induction n arbitrary: cur w)
  case (Suc n)
  obtain a w1 where a: "redis_Scan red cur (kprefix c @ ''*'') 100 w = (a, w1)" by fastforce
  obtain keys cur' where k: "a = Inr (keys, cur')" using Suc.prems(2) a by (cases a) auto
  obtain e w2 where e: "(if 0 < length keys then redis_Del red keys w1 else (None, w1)) = (e, w2)" by fastforce
  have none: "e = None" using Suc.prems(2) a k e by (auto split: option.splits)
  note r = flush_round [OF assms(1,2) Suc.prems(1) a [unfolded k] e [unfolded none]]
  show ?case
  proof (cases "cur' = 0")
    case True
    then have "w' = w2" using Suc.prems(2) a k e none by simp
    moreover have "data s w2 k = None" if "glob (kprefix c @ ''*'') k" for k
      using r(3) that True by (auto simp: domIff)
    ultimately show ?thesis using r(1,2) by (auto simp: fun_eq_iff)
  next
    case False
    then have "flush_loop n red c cur' w2 = Some (None, w')" using Suc.prems(2) a k e none by simp
    with Suc.IH [of w2 cur'] r(3) False
    have "data s w' = (\<lambda>k. if glob (kprefix c @ ''*'') k then None else data s w2 k)" by simp
    then show ?thesis using r(1,2) by (auto simp: fun_eq_iff)
  qed
qed simp

section \<open>A server in memory\<close>

text \<open>A server with room for two keys; its scan looks at one of them in each round.\<close>

type_synonym two = "string option \<times> string option"

definition two_get :: "two \<Rightarrow> string \<Rightarrow> string option" where
  "two_get w k = (if k = ''p:a'' then fst w else if k = ''q:b'' then snd w else None)"

definition two_redis :: "two redis" where
  "two_redis = \<lparr>
     redis_Get = (\<lambda>k w. (case two_get w k of None \<Rightarrow> Inl redis_Nil | Some raw \<Rightarrow> Inr raw, w)),
     redis_Set = (\<lambda>k raw d w.
        if k = ''p:a'' then (None, (Some raw, snd w))
        else if k = ''q:b'' then (None, (fst w, Some raw)) else (Some (ErrNew ''full''), w)),
     redis_Del = (\<lambda>ks w. (None, (if ''p:a'' \<in> set ks then None else fst w, if ''q:b'' \<in> set ks then None else snd w))),
     redis_FlushDB = (\<lambda>w. (None, (None, None))),
     redis_Scan = (\<lambda>cur p n w.
        (Inr (if cur = 0 then (filter (prefix (butlast p)) [''p:a''], 1) else (filter (prefix (butlast p)) [''q:b''], 0)), w)),
     redis_MGet = (\<lambda>ks w. (Inr (map (two_get w) ks), w)),
     redis_Ping = (\<lambda>w. (None, w)),
     redis_span = (\<lambda>a b w. w), redis_attr = (\<lambda>b w. w), redis_err = (\<lambda>e w. w), redis_end = (\<lambda>w. w),
     redis_warn = (\<lambda>k e w. w)\<rparr>"

definition two_view :: "two server_view" where
  "two_view = \<lparr>data = two_get, todo = \<lambda>w cur. if cur = 0 then {''p:a'', ''q:b''} else {''q:b''},
     left = \<lambda>w cur. if cur = 0 then 1 else 0\<rparr>"

lemmas two_defs = two_redis_def two_view_def two_get_def same_data_def

lemma two_silent: "redis_silent two_redis two_view"
  by (simp add: redis_silent_def two_defs)

lemma two_kv: "redis_kv two_redis two_view"
  by (auto simp: redis_kv_def two_defs fun_eq_iff split: option.split if_splits)

lemma two_scan: "redis_scan_ok two_redis two_view (\<lambda>p k. prefix (butlast p) k)"
  by (auto simp: redis_scan_ok_def two_defs split: if_splits)

definition text_codec :: "string codec" where
  "text_codec = \<lparr>Marshal = Inr, Unmarshal = Inr\<rparr>"

section \<open>Properties\<close>

text \<open>
  C32. \<open>Flush\<close> returns after as many rounds as the server's scan takes, and if it returns nil then, for a
  prefix without pattern characters, exactly the keys under the prefix are gone, all keys if the
  prefix is empty, and the others keep their values.
\<close>

theorem rediscache_Flush:
  assumes "redis_silent red s" "redis_kv red s" "redis_scan_ok red s glob"
    and "\<And>k. glob (kprefix c @ ''*'') k \<longleftrightarrow> prefix (kprefix c) k" "left s w 0 < fuel"
  shows "\<exists>r w'. rcache_Flush fuel red c w = Some (r, w') \<and>
    (r = None \<longrightarrow> data s w' = (\<lambda>k. if prefix (kprefix c) k then None else data s w k))"
proof (cases "kprefix c = []")
  case True
  obtain e w2 where e: "redis_FlushDB red (rspan red ''FLUSH'' ''*'' w) = (e, w2)" by fastforce
  have "data s w2 = Map.empty" if "e = None"
    using assms(2) e unfolding that redis_kv_def by blast
  then show ?thesis
    using True e silentD(1) [OF assms(1)] by (cases e) (auto simp: rcache_Flush_def)
next
  case False
  let ?w1 = "rspan red ''FLUSH'' ''*'' w"
  obtain r w2 where r: "flush_loop fuel red c 0 ?w1 = Some (r, w2)"
    using flush_loop_returns [OF assms(2,3), of ?w1 0 fuel c] assms(5) silentD(7) [OF assms(1)] by auto
  have "dom (data s ?w1) \<subseteq> todo s ?w1 0" using assms(3) by (simp add: redis_scan_ok_def)
  then have "data s w2 = (\<lambda>k. if prefix (kprefix c) k then None else data s w k)" if "r = None"
    using flush_loop_data [OF assms(2,3), of ?w1 c 0 fuel w2] r that by (auto simp: assms(4) silentD(3) [OF assms(1)] cong: if_cong)
  then show ?thesis using False r silentD(1) [OF assms(1)] by (simp add: rcache_Flush_def)
qed

theorem rediscache_Flush_witness:
  "\<exists>w'. rcache_Flush 2 two_redis (rcache_New [WithKeyPrefix ''p:'']) (Some ''1'', Some ''2'') = Some (None, w') \<and>
     two_get w' ''p:a'' = None \<and> two_get w' ''q:b'' = Some ''2''"
proof -
  let ?c = "rcache_New [WithKeyPrefix ''p:'']"
  have c: "kprefix ?c = ''p:''" by (simp add: rcache_New_def WithKeyPrefix_def)
  have "\<exists>w'. rcache_Flush 2 two_redis ?c (Some ''1'', Some ''2'') = Some (None, w')"
    by (simp add: rcache_Flush_def c numeral_2_eq_2 two_redis_def rspan_def)
  moreover have "\<exists>r w'. rcache_Flush 2 two_redis ?c (Some ''1'', Some ''2'') = Some (r, w') \<and>
      (r = None \<longrightarrow> data two_view w' = (\<lambda>k. if prefix (kprefix ?c) k then None else data two_view (Some ''1'', Some ''2'') k))"
    by (rule rediscache_Flush [OF two_silent two_kv two_scan]) (simp_all add: c two_view_def)
  ultimately obtain w' where w': "rcache_Flush 2 two_redis ?c (Some ''1'', Some ''2'') = Some (None, w')"
      "data two_view w' = (\<lambda>k. if prefix ''p:'' k then None else data two_view (Some ''1'', Some ''2'') k)"
    by (auto simp: c)
  from w'(1) fun_cong [OF w'(2), of "''p:a''"] fun_cong [OF w'(2), of "''q:b''"] show ?thesis
    by (simp add: two_view_def two_get_def)
qed

text \<open>
  C33. What was set is what is read: after a \<open>Set\<close> that returned nil, a \<open>Get\<close> without an error returns the
  new value for that key and what was there before for the others, and \<open>MGet\<close> returns the same
  as the single lookups, without the keys that are missing or cannot be decoded.
\<close>

theorem rediscache_roundtrip:
  assumes "redis_silent red s" "redis_kv red s" "\<And>raw. Marshal cd v = Inr raw \<Longrightarrow> Unmarshal cd raw = Inr v"
    and "rcache_Set red cd c key v ttl w = (None, w1)"
  shows "(rcache_Get red cd c key' w1 = (Inr r, w2) \<longrightarrow> r = (if key' = key then Some v else lookup s cd c w key')) \<and>
    (rcache_MGet red cd c keys w1 = (Inr (Some m), w3) \<longrightarrow>
       m = (\<lambda>k. if k \<notin> set keys then None else if k = key then Some v else lookup s cd c w k))"
proof -
  obtain raw where "Marshal cd v = Inr raw" "data s w1 = (data s w)(rkey c key \<mapsto> raw)"
    using Set_data [OF assms(1,2,4)] by blast
  then have l: "lookup s cd c w1 k = (if k = key then Some v else lookup s cd c w k)" for k
    using assms(3) by (simp add: lookup_def)
  show ?thesis
    using Get_lookup [OF assms(1,2), of cd c key' w1 r w2] MGet_lookup [OF assms(1,2), of cd c keys w1 m w3]
    by (auto simp: l)
qed

theorem rediscache_roundtrip_witness:
  "\<exists>w1 w2. rcache_Set two_redis text_codec (rcache_New []) ''p:a'' ''hello'' 0 (None, None) = (None, w1) \<and>
     rcache_Get two_redis text_codec (rcache_New []) ''p:a'' w1 = (Inr (Some ''hello''), w2)"
proof -
  let ?c = "rcache_New []"
  obtain w1 where w1: "rcache_Set two_redis text_codec ?c ''p:a'' ''hello'' 0 (None, None) = (None, w1)"
    by (simp add: rcache_Set_def text_codec_def rcache_New_def rkey_def two_redis_def)
  moreover obtain r w2 where r: "rcache_Get two_redis text_codec ?c ''p:a'' w1 = (Inr r, w2)"
    using w1 by (auto simp: rcache_Set_def rcache_Get_def text_codec_def rcache_New_def rkey_def two_defs rspan_def)
  moreover have "r = Some ''hello''"
    using rediscache_roundtrip [OF two_silent two_kv _ w1, of "''p:a''" r w2] r by (simp add: text_codec_def)
  ultimately show ?thesis by blast
qed

end
