(* ===== verification/Streams.thy ===== *)
theory Streams
  imports GoStd "HOL-Library.Sublist"
begin

text \<open>
  The streams of \<open>pkg/async/stream.go\<close>. Each operator is a goroutine that reads a channel and writes
  another one. The operators differ in what they do with an item, with the timer and at the end of
  the input, which is their \<open>operator\<close>; the goroutine, the buffered channel it writes and the
  consumer are one step relation for all of them.
\<close>

section \<open>Operators\<close>

text \<open>
  What one turn of the loop does: the values it sends, and the new state of the local variables.
  \<open>None\<close> for an item is a return in the middle of the loop, and for the timer that the
  operator has none. \<open>propagates\<close> says that the error of the input is passed on.
\<close>

record ('i, 'o, 'g) operator =
  start :: 'g
  on_item :: "'i \<Rightarrow> 'g \<Rightarrow> ('o list \<times> 'g) option"
  on_timer :: "'g \<Rightarrow> ('o list \<times> 'g) option"
  on_close :: "'g \<Rightarrow> 'o list"
  propagates :: bool
  out_cap :: nat

definition stream_Map :: "nat \<Rightarrow> ('i \<Rightarrow> 'o) \<Rightarrow> ('i, 'o, unit) operator" where
  "stream_Map cap fn = \<lparr>start = (), on_item = \<lambda>v g. Some ([fn v], g), on_timer = \<lambda>g. None, on_close = \<lambda>g. [],
     propagates = True, out_cap = cap\<rparr>"

definition stream_Filter :: "nat \<Rightarrow> ('i \<Rightarrow> bool) \<Rightarrow> ('i, 'i, unit) operator" where
  "stream_Filter cap keep = \<lparr>start = (), on_item = \<lambda>v g. Some (if keep v then [v] else [], g), on_timer = \<lambda>g. None,
     on_close = \<lambda>g. [], propagates = True, out_cap = cap\<rparr>"

definition batch_flush :: "'i list \<Rightarrow> 'i list list \<times> 'i list" where
  "batch_flush buf = (if length buf > 0 then ([buf], []) else ([], buf))"

definition batch_operator :: "int \<Rightarrow> ('i, 'i list, 'i list) operator" where
  "batch_operator sz = \<lparr>start = [],
     on_item = \<lambda>v buf. (let buf' = buf @ [v] in Some (if int (length buf') \<ge> sz then batch_flush buf' else ([], buf'))),
     on_timer = \<lambda>buf. Some (batch_flush buf), on_close = \<lambda>buf. fst (batch_flush buf), propagates = True, out_cap = 4\<rparr>"

text \<open>\<open>Batch\<close>: a negative size makes the allocation of the buffer panic (\<open>None\<close>).\<close>

definition stream_Batch :: "int \<Rightarrow> ('i, 'i list, 'i list) operator option" where
  "stream_Batch sz = (if sz < 0 then None else Some (batch_operator sz))"

definition stream_Take :: "nat \<Rightarrow> int \<Rightarrow> ('i, 'i, int) operator" where
  "stream_Take cap n = \<lparr>start = 0, on_item = \<lambda>v count. if count \<ge> n then None else Some ([v], count + 1),
     on_timer = \<lambda>g. None, on_close = \<lambda>g. [], propagates = False, out_cap = cap\<rparr>"

section \<open>The goroutine of an operator\<close>

datatype phase = Reading | Flushing | Returned

text \<open>
  The input is the items that its producer will have sent until it closes the channel, and the
  error it leaves; when an item arrives is up to the interleaving. \<open>pending\<close> are the sends that the
  goroutine is at, \<open>outbuf\<close> the output channel, \<open>got\<close> what the consumer has received.
\<close>

record ('i, 'o, 'g) opsys =
  input :: "'i list"
  in_err :: "err option"
  vars :: 'g
  pending :: "'o list"
  phase :: phase
  outbuf :: "'o list"
  out_err :: "err option"
  got :: "'o list"

definition op_init :: "('i, 'o, 'g) operator \<Rightarrow> 'i list \<Rightarrow> err option \<Rightarrow> ('i, 'o, 'g) opsys" where
  "op_init op xs e = \<lparr>input = xs, in_err = e, vars = start op, pending = [], phase = Reading, outbuf = [], out_err = None,
     got = []\<rparr>"

text \<open>
  The channels are closed when the goroutine returns: the one for the error first, after the error
  was put into it, so a consumer that sees the end of the items finds the error.
\<close>

inductive op_step :: "('i, 'o, 'g) operator \<Rightarrow> ('i, 'o, 'g) opsys \<Rightarrow> unit \<Rightarrow> ('i, 'o, 'g) opsys \<Rightarrow> bool" for op where
  receive: "phase s = Reading \<Longrightarrow> pending s = [] \<Longrightarrow> input s = v # vs \<Longrightarrow> on_item op v (vars s) = Some (os, g) \<Longrightarrow>
     op_step op s () (s\<lparr>input := vs, vars := g, pending := os\<rparr>)"
| break: "phase s = Reading \<Longrightarrow> pending s = [] \<Longrightarrow> input s = v # vs \<Longrightarrow> on_item op v (vars s) = None \<Longrightarrow>
     op_step op s () (s\<lparr>input := vs, phase := Returned\<rparr>)"
| timer: "phase s = Reading \<Longrightarrow> pending s = [] \<Longrightarrow> on_timer op (vars s) = Some (os, g) \<Longrightarrow>
     op_step op s () (s\<lparr>vars := g, pending := os\<rparr>)"
| input_closed: "phase s = Reading \<Longrightarrow> pending s = [] \<Longrightarrow> input s = [] \<Longrightarrow>
     op_step op s () (s\<lparr>pending := on_close op (vars s), phase := Flushing\<rparr>)"
| send: "pending s = x # os \<Longrightarrow> length (outbuf s) < out_cap op \<Longrightarrow>
     op_step op s () (s\<lparr>pending := os, outbuf := outbuf s @ [x]\<rparr>)"
| hand_over: "pending s = x # os \<Longrightarrow> outbuf s = [] \<Longrightarrow> op_step op s () (s\<lparr>pending := os, got := got s @ [x]\<rparr>)"
| finish: "phase s = Flushing \<Longrightarrow> pending s = [] \<Longrightarrow>
     op_step op s () (s\<lparr>phase := Returned, out_err := (if propagates op then in_err s else None)\<rparr>)"
| consume: "outbuf s = x # os \<Longrightarrow> op_step op s () (s\<lparr>outbuf := os, got := got s @ [x]\<rparr>)"

inductive_cases op_stepE: "op_step op s () s'"

text \<open>The consumer has everything: the channel is closed and empty.\<close>

definition drained :: "('i, 'o, 'g) opsys \<Rightarrow> bool" where
  "drained s \<longleftrightarrow> phase s = Returned \<and> outbuf s = []"

section \<open>The contract of an operator\<close>

text \<open>
  \<open>rel xs g ys\<close> relates the items read so far, the local variables and the values sent for them;
  \<open>fin xs ys\<close> relates a whole input and the whole output.
\<close>

locale stream_op =
  fixes op :: "('i, 'o, 'g) operator"
    and rel :: "'i list \<Rightarrow> 'g \<Rightarrow> 'o list \<Rightarrow> bool"
    and fin :: "'i list \<Rightarrow> 'o list \<Rightarrow> bool"
  assumes rel_start: "rel [] (start op) []"
    and rel_item: "rel xs g ys \<Longrightarrow> on_item op v g = Some (os, g') \<Longrightarrow> rel (xs @ [v]) g' (ys @ os)"
    and rel_timer: "rel xs g ys \<Longrightarrow> on_timer op g = Some (os, g') \<Longrightarrow> rel xs g' (ys @ os)"
    and fin_close: "rel xs g ys \<Longrightarrow> fin xs (ys @ on_close op g)"
    and fin_break: "rel xs g ys \<Longrightarrow> on_item op v g = None \<Longrightarrow> fin (xs @ v # zs) ys"
    and no_break: "propagates op \<Longrightarrow> on_item op v g \<noteq> None"
begin

definition op_inv :: "'i list \<Rightarrow> err option \<Rightarrow> ('i, 'o, 'g) opsys \<Rightarrow> bool" where
  "op_inv xs e s \<longleftrightarrow> in_err s = e \<and>
     (case phase s of
        Reading \<Rightarrow> \<exists>rd. xs = rd @ input s \<and> rel rd (vars s) (got s @ outbuf s @ pending s)
      | Flushing \<Rightarrow> fin xs (got s @ outbuf s @ pending s)
      | Returned \<Rightarrow> pending s = [] \<and> fin xs (got s @ outbuf s) \<and> out_err s = (if propagates op then e else None))"

lemma op_inv_step:
  assumes "op_step op s u s'" "op_inv xs e s" "out_err s = None \<or> phase s = Returned"
  shows "op_inv xs e s' \<and> (out_err s' = None \<or> phase s' = Returned)"
  using assms(1)
proof (cases rule: op_step.cases)
  case (receive v vs os g)
  then obtain rd where rd: "xs = rd @ input s" "rel rd (vars s) (got s @ outbuf s)" "in_err s = e"
    using assms(2) by (auto simp: op_inv_def)
  have "rel (rd @ [v]) g ((got s @ outbuf s) @ os)" by (rule rel_item [OF rd(2) receive(6)])
  then show ?thesis using receive rd assms(3) by (auto simp: op_inv_def intro!: exI [of _ "rd @ [v]"])
next
  case (break v vs)
  then obtain rd where rd: "xs = rd @ input s" "rel rd (vars s) (got s @ outbuf s)" "in_err s = e"
    using assms(2) by (auto simp: op_inv_def)
  have "fin (rd @ v # vs) (got s @ outbuf s)" by (rule fin_break [OF rd(2) break(6)])
  moreover have "\<not> propagates op" using no_break [of v "vars s"] break(6) by auto
  ultimately show ?thesis using break rd assms(3) by (auto simp: op_inv_def)
next
  case (timer os g)
  then obtain rd where rd: "xs = rd @ input s" "rel rd (vars s) (got s @ outbuf s)" "in_err s = e"
    using assms(2) by (auto simp: op_inv_def)
  have "rel rd g ((got s @ outbuf s) @ os)" by (rule rel_timer [OF rd(2) timer(5)])
  then show ?thesis using timer rd assms(3) by (auto simp: op_inv_def)
next
  case input_closed
  then have "rel xs (vars s) (got s @ outbuf s)" "in_err s = e" using assms(2) by (auto simp: op_inv_def)
  then show ?thesis using input_closed assms(3) fin_close [of xs "vars s" "got s @ outbuf s"] by (auto simp: op_inv_def)
qed (use assms(2,3) in \<open>auto simp: op_inv_def split: phase.splits\<close>)

lemma op_inv_reach:
  assumes "reach (\<lambda>s. s = op_init op xs e) (op_step op) s"
  shows "op_inv xs e s \<and> (out_err s = None \<or> phase s = Returned)"
  using assms
proof (induction rule: reach.induct)
  case (reach_start s)
  then show ?case using rel_start by (auto simp: op_inv_def op_init_def)
next
  case (reach_step s u s')
  then show ?case using op_inv_step by blast
qed

text \<open>When all is done the output is right, and until then something can happen.\<close>

lemma op_result:
  assumes "reach (\<lambda>s. s = op_init op xs e) (op_step op) s" "drained s"
  shows "fin xs (got s) \<and> out_err s = (if propagates op then e else None)"
  using op_inv_reach [OF assms(1)] assms(2) by (auto simp: op_inv_def drained_def)

lemma op_progress:
  assumes "reach (\<lambda>s. s = op_init op xs e) (op_step op) s" "\<not> drained s"
  shows "\<exists>s'. op_step op s () s'"
proof (cases "outbuf s")
  case (Cons y ys)
  show ?thesis by (rule exI, rule op_step.consume [OF Cons])
next
  case Nil
  show ?thesis
  proof (cases "pending s")
    case (Cons y ys)
    show ?thesis by (rule exI, rule op_step.hand_over [OF Cons Nil])
  next
    case p: Nil
    show ?thesis
    proof (cases "phase s")
      case Reading
      show ?thesis
      proof (cases "input s")
        case Nil
        show ?thesis by (rule exI, rule op_step.input_closed [OF Reading p Nil])
      next
        case (Cons v vs)
        show ?thesis
        proof (cases "on_item op v (vars s)")
          case None
          show ?thesis by (rule exI, rule op_step.break [OF Reading p Cons None])
        next
          case (Some r)
          obtain os g where "r = (os, g)" by fastforce
          with Some have "on_item op v (vars s) = Some (os, g)" by simp
          then show ?thesis by (intro exI, rule op_step.receive [OF Reading p Cons])
        qed
      qed
    next
      case Flushing
      show ?thesis by (rule exI, rule op_step.finish [OF Flushing p])
    next
      case Returned
      then show ?thesis using Nil assms(2) by (simp add: drained_def)
    qed
  qed
qed

end

interpretation st_map: stream_op "stream_Map cap fn" "\<lambda>xs g ys. ys = map fn xs" "\<lambda>xs ys. ys = map fn xs" for cap fn
  by unfold_locales (auto simp: stream_Map_def)

interpretation st_filter: stream_op "stream_Filter cap keep" "\<lambda>xs g ys. ys = filter keep xs" "\<lambda>xs ys. ys = filter keep xs"
  for cap keep
  by unfold_locales (auto simp: stream_Filter_def)

interpretation st_take: stream_op "stream_Take cap n" "\<lambda>xs g ys. g = int (length xs) \<and> g \<le> max 0 n \<and> ys = xs"
    "\<lambda>xs ys. ys = take (nat n) xs" for cap n
  by unfold_locales (auto simp: stream_Take_def nat_le_iff split: if_splits)

text \<open>
  The batches are the input cut into pieces, none empty and none longer than the size (than 1
  for size 0).
\<close>

definition batches_of :: "int \<Rightarrow> 'i list \<Rightarrow> 'i list list \<Rightarrow> bool" where
  "batches_of sz xs bs \<longleftrightarrow> concat bs = xs \<and> (\<forall>b \<in> set bs. b \<noteq> [] \<and> int (length b) \<le> max 1 sz)"

interpretation st_batch: stream_op "batch_operator sz"
    "\<lambda>xs buf bs. batches_of sz (concat bs) bs \<and> xs = concat bs @ buf \<and> int (length buf) < max 1 sz" "batches_of sz" for sz
  by unfold_locales (auto simp: batch_operator_def batch_flush_def batches_of_def Let_def split: if_splits)

section \<open>Sources and sinks\<close>

text \<open>
  \<open>Generate\<close> gives its function a \<open>send\<close> that puts the value into the channel and returns true, or
  returns false when its select takes the cancelled context. In \<open>FromSlice\<close> the list says for each
  call which of the two it takes; a list that ends early is a producer that is still blocked.
\<close>

definition generate_send :: "bool \<Rightarrow> 'i \<Rightarrow> 'i list \<Rightarrow> bool \<times> 'i list" where
  "generate_send ctxDone v ch = (if ctxDone then (False, ch) else (True, ch @ [v]))"

fun FromSlice :: "'i list \<Rightarrow> bool list \<Rightarrow> 'i list \<Rightarrow> 'i list" where
  "FromSlice [] choices ch = ch"
| "FromSlice (v # vs) [] ch = ch"
| "FromSlice (v # vs) (c # choices) ch =
     (let (ok, ch') = generate_send c v ch in if \<not> ok then ch' else FromSlice vs choices ch')"

lemma FromSlice_prefix: "\<exists>ys. prefix ys xs \<and> FromSlice xs choices ch = ch @ ys"
proof (induction xs arbitrary: choices ch)
  case (Cons v vs)
  note IH = Cons.IH
  show ?case
  proof (cases choices)
    case (Cons c cs)
    obtain ys where ys: "prefix ys vs" "FromSlice vs cs (ch @ [v]) = (ch @ [v]) @ ys"
      using IH by blast
    show ?thesis
    proof (cases c)
      case False
      then show ?thesis using ys Cons by (intro exI [of _ "v # ys"]) (simp add: generate_send_def)
    qed (simp add: Cons generate_send_def)
  qed simp
qed simp

lemma FromSlice_all: "length choices = length xs \<Longrightarrow> list_all Not choices \<Longrightarrow> FromSlice xs choices ch = ch @ xs"
  by (induction xs choices ch rule: FromSlice.induct) (auto simp: generate_send_def)

text \<open>What the select of a sink receives: an item, the end of the channel, or the context's error.\<close>

datatype 'i sink_event = Item 'i | Closed | Cancelled err

text \<open>\<open>Collect\<close>; \<open>None\<close> is a call that still waits.\<close>

fun collect_loop :: "err option \<Rightarrow> 'i list \<Rightarrow> 'i sink_event list \<Rightarrow> ('i list \<times> err option) option" where
  "collect_loop e out [] = None"
| "collect_loop e out (Item v # evs) = collect_loop e (out @ [v]) evs"
| "collect_loop e out (Closed # evs) = Some (out, e)"
| "collect_loop e out (Cancelled ce # evs) = Some ([], Some ce)"

definition stream_Collect :: "err option \<Rightarrow> 'i sink_event list \<Rightarrow> ('i list \<times> err option) option" where
  "stream_Collect e evs = collect_loop e [] evs"

fun ForEach :: "err option \<Rightarrow> ('i \<Rightarrow> ('w, err option) action) \<Rightarrow> 'i sink_event list \<Rightarrow> 'w \<Rightarrow> (err option \<times> 'w) option" where
  "ForEach e fn [] w = None"
| "ForEach e fn (Item v # evs) w =
     (case fn v w of
        (Some fe, w1) \<Rightarrow> Some (Some fe, w1)
      | (None, w1) \<Rightarrow> ForEach e fn evs w1)"
| "ForEach e fn (Closed # evs) w = Some (e, w)"
| "ForEach e fn (Cancelled ce # evs) w = Some (Some ce, w)"

lemma collect_loop_items: "collect_loop e out (map Item xs @ Closed # evs) = Some (out @ xs, e)"
  by (induction xs arbitrary: out) auto

lemma Collect_items: "stream_Collect e (map Item xs @ [Closed]) = Some (xs, e)"
  by (simp add: stream_Collect_def collect_loop_items)

section \<open>Properties\<close>

lemma map_demo:
  "reach (\<lambda>s. s = op_init (stream_Map 1 Suc) [1] (Some (ErrNew ''eof''))) (op_step (stream_Map 1 Suc))
     \<lparr>input = [], in_err = Some (ErrNew ''eof''), vars = (), pending = [], phase = Returned, outbuf = [],
       out_err = Some (ErrNew ''eof''), got = [2]\<rparr>"
proof -
  let ?op = "stream_Map 1 Suc" and ?R = "reach (\<lambda>s. s = op_init (stream_Map 1 Suc) [1] (Some (ErrNew ''eof''))) (op_step (stream_Map 1 Suc))"
  let ?s0 = "op_init ?op [1] (Some (ErrNew ''eof''))"
  let ?s1 = "?s0\<lparr>input := [], vars := (), pending := [2]\<rparr>"
  let ?s2 = "?s1\<lparr>pending := [], got := got ?s1 @ [2]\<rparr>"
  let ?s3 = "?s2\<lparr>pending := on_close ?op (vars ?s2), phase := Flushing\<rparr>"
  let ?s4 = "?s3\<lparr>phase := Returned, out_err := (if propagates ?op then in_err ?s3 else None)\<rparr>"
  have "?R ?s0" by (rule reach_start) simp
  then have "?R ?s1"
    by (rule reach_step) (rule op_step.receive [of _ 1], simp_all add: op_init_def stream_Map_def numeral_2_eq_2)
  then have "?R ?s2" by (rule reach_step) (rule op_step.hand_over, simp_all add: op_init_def)
  then have "?R ?s3" by (rule reach_step) (rule op_step.input_closed, simp_all add: op_init_def)
  then have "?R ?s4" by (rule reach_step) (rule op_step.finish, simp_all add: op_init_def stream_Map_def)
  then show ?thesis by (simp add: op_init_def stream_Map_def)
qed



end
