(* ===== verification/Fan.thy ===== *)
theory Fan
  imports GoStd "HOL-Library.Sublist"
begin

text \<open>
  The channel combinators of \<open>pkg/async/stream.go\<close>. \<open>FanOut\<close>, \<open>Tee\<close> and \<open>OrDone\<close> are one loop: an item of
  the input is sent to each output in turn, and every wait ends when the context is cancelled;
  they differ in the number of outputs and in the capacity. \<open>FanIn\<close> has a goroutine for each input.
\<close>

section \<open>FanOut, Tee and OrDone\<close>

text \<open>
  \<open>bsrc\<close> are the items that the input has still to deliver before it is closed; \<open>bcur\<close> is the item
  at hand and the index of the output that it is sent to next.
\<close>

record 'i bcast =
  bsrc :: "'i list"
  bcur :: "('i \<times> nat) option"
  bcap :: nat
  bufs :: "'i list list"
  recvd :: "'i list list"
  bclosed :: bool
  cancelled :: bool

definition bcast_init :: "nat \<Rightarrow> nat \<Rightarrow> 'i list \<Rightarrow> 'i bcast" where
  "bcast_init n cap xs = \<lparr>bsrc = xs, bcur = None, bcap = cap, bufs = replicate n [], recvd = replicate n [],
     bclosed = False, cancelled = False\<rparr>"

definition FanOut :: "nat \<Rightarrow> 'i list \<Rightarrow> 'i bcast" where
  "FanOut n xs = bcast_init n 16 xs"

definition Tee :: "'i list \<Rightarrow> 'i bcast" where
  "Tee xs = bcast_init 2 16 xs"

definition OrDone :: "'i list \<Rightarrow> 'i bcast" where
  "OrDone xs = bcast_init 1 1 xs"

inductive bcast_step :: "'i bcast \<Rightarrow> unit \<Rightarrow> 'i bcast \<Rightarrow> bool" where
  cancel: "bcast_step s () (s\<lparr>cancelled := True\<rparr>)"
| done_idle: "bcur s = None \<Longrightarrow> \<not> bclosed s \<Longrightarrow> cancelled s \<Longrightarrow> bcast_step s () (s\<lparr>bclosed := True\<rparr>)"
| receive: "bcur s = None \<Longrightarrow> \<not> bclosed s \<Longrightarrow> bsrc s = v # vs \<Longrightarrow> bcast_step s () (s\<lparr>bsrc := vs, bcur := Some (v, 0)\<rparr>)"
| input_closed: "bcur s = None \<Longrightarrow> \<not> bclosed s \<Longrightarrow> bsrc s = [] \<Longrightarrow> bcast_step s () (s\<lparr>bclosed := True\<rparr>)"
| send: "bcur s = Some (v, i) \<Longrightarrow> i < length (bufs s) \<Longrightarrow> length (bufs s ! i) < bcap s \<Longrightarrow>
     bcast_step s () (s\<lparr>bufs := (bufs s)[i := bufs s ! i @ [v]], bcur := Some (v, Suc i)\<rparr>)"
| done_send: "bcur s = Some (v, i) \<Longrightarrow> i < length (bufs s) \<Longrightarrow> cancelled s \<Longrightarrow>
     bcast_step s () (s\<lparr>bcur := None, bclosed := True\<rparr>)"
| next_item: "bcur s = Some (v, i) \<Longrightarrow> length (bufs s) \<le> i \<Longrightarrow> bcast_step s () (s\<lparr>bcur := None\<rparr>)"
| consume: "i < length (bufs s) \<Longrightarrow> bufs s ! i = x # q \<Longrightarrow>
     bcast_step s () (s\<lparr>bufs := (bufs s)[i := q], recvd := (recvd s)[i := recvd s ! i @ [x]]\<rparr>)"

inductive_cases bcast_stepE: "bcast_step s () s'"

text \<open>Everything that went into output j.\<close>

definition sent_to :: "'i bcast \<Rightarrow> nat \<Rightarrow> 'i list" where
  "sent_to s j = recvd s ! j @ bufs s ! j"

text \<open>
  Each output has what was read from the input; while an item is at hand the outputs before the
  index have it already. After a cancellation an output may lack the last item.
\<close>

definition bcast_inv :: "nat \<Rightarrow> 'i list \<Rightarrow> 'i bcast \<Rightarrow> bool" where
  "bcast_inv n xs s \<longleftrightarrow> length (bufs s) = n \<and> length (recvd s) = n \<and>
     (\<exists>rd. xs = rd @ bsrc s \<and>
       (case bcur s of
          Some (v, i) \<Rightarrow> \<not> bclosed s \<and> rd \<noteq> [] \<and> last rd = v \<and> i \<le> n \<and>
            (\<forall>j < n. sent_to s j = (if j < i then rd else butlast rd))
        | None \<Rightarrow> (\<forall>j < n. sent_to s j = rd \<or> cancelled s \<and> bclosed s \<and> sent_to s j = butlast rd) \<and>
            (bclosed s \<longrightarrow> cancelled s \<or> bsrc s = [])))"

lemma bcast_inv_send:
  assumes "bcast_inv n xs s" "bcur s = Some (v, i)" "i < length (bufs s)"
  shows "bcast_inv n xs (s\<lparr>bufs := (bufs s)[i := bufs s ! i @ [v]], bcur := Some (v, Suc i)\<rparr>)"
proof -
  obtain rd where rd: "xs = rd @ bsrc s" "rd \<noteq> []" "last rd = v" "\<not> bclosed s"
      "\<forall>j < n. sent_to s j = (if j < i then rd else butlast rd)" and n: "length (bufs s) = n" "length (recvd s) = n"
    using assms(1,2) by (auto simp: bcast_inv_def)
  let ?s = "s\<lparr>bufs := (bufs s)[i := bufs s ! i @ [v]], bcur := Some (v, Suc i)\<rparr>"
  have "sent_to ?s j = (if j < Suc i then rd else butlast rd)" if "j < n" for j
  proof (cases "j = i")
    case True
    then have "sent_to ?s j = sent_to s i @ [v]" using assms(3) by (simp add: sent_to_def)
    also have "\<dots> = rd" using rd(2,3,5) that True by (auto simp: append_butlast_last_id)
    finally show ?thesis using True by simp
  next
    case False
    then have "sent_to ?s j = sent_to s j" by (simp add: sent_to_def)
    then show ?thesis using rd(5) that False by auto
  qed
  then show ?thesis using rd n assms(3) by (auto simp: bcast_inv_def)
qed

lemma bcast_inv_consume:
  assumes "bcast_inv n xs s" "i < length (bufs s)" "bufs s ! i = x # q"
  shows "bcast_inv n xs (s\<lparr>bufs := (bufs s)[i := q], recvd := (recvd s)[i := recvd s ! i @ [x]]\<rparr>)"
proof -
  let ?s = "s\<lparr>bufs := (bufs s)[i := q], recvd := (recvd s)[i := recvd s ! i @ [x]]\<rparr>"
  have len: "length (recvd s) = length (bufs s)" using assms(1) by (simp add: bcast_inv_def)
  have "sent_to ?s j = sent_to s j" for j
    using len assms(2,3) by (cases "j = i") (simp_all add: sent_to_def)
  then have "sent_to ?s = sent_to s" by (rule ext)
  then show ?thesis using assms(1) by (simp add: bcast_inv_def cong: option.case_cong)
qed

lemma bcast_inv_step:
  assumes "bcast_step s u s'" "bcast_inv n xs s"
  shows "bcast_inv n xs s'"
  using assms(1)
proof (cases rule: bcast_step.cases)
  case cancel
  have "sent_to s' = sent_to s" unfolding cancel by (rule ext) (simp add: sent_to_def)
  then show ?thesis using assms(2) cancel by (auto simp: bcast_inv_def split: option.splits)
next
  case done_idle
  have "sent_to s' = sent_to s" unfolding done_idle by (rule ext) (simp add: sent_to_def)
  then show ?thesis using assms(2) done_idle by (auto simp: bcast_inv_def)
next
  case (receive v vs)
  have "sent_to s' = sent_to s" unfolding receive by (rule ext) (simp add: sent_to_def)
  then show ?thesis using assms(2) receive by (auto simp: bcast_inv_def)
next
  case input_closed
  have "sent_to s' = sent_to s" unfolding input_closed by (rule ext) (simp add: sent_to_def)
  then show ?thesis using assms(2) input_closed by (auto simp: bcast_inv_def)
next
  case (send v i)
  then show ?thesis using bcast_inv_send [OF assms(2)] by simp
next
  case (done_send v i)
  have "sent_to s' = sent_to s" unfolding done_send by (rule ext) (simp add: sent_to_def)
  then show ?thesis using assms(2) done_send by (auto simp: bcast_inv_def)
next
  case (next_item v i)
  have "sent_to s' = sent_to s" unfolding next_item by (rule ext) (simp add: sent_to_def)
  then show ?thesis using assms(2) next_item by (auto simp: bcast_inv_def)
next
  case (consume i x q)
  then show ?thesis using bcast_inv_consume [OF assms(2)] by simp
qed

interpretation bc: step_invariant "\<lambda>s. s = bcast_init n cap xs" bcast_step "bcast_inv n xs" for n cap xs
proof
  show "bcast_inv n xs s" if "s = bcast_init n cap xs" for s
    using that by (auto simp: bcast_inv_def bcast_init_def sent_to_def)
qed (rule bcast_inv_step)

lemma bcast_output:
  assumes "bcast_inv m xs s" "j < length (bufs s)"
  shows "prefix (sent_to s j) xs"
    and "bclosed s \<Longrightarrow> \<not> cancelled s \<Longrightarrow> sent_to s j = xs"
proof -
  have j: "j < m" using assms by (simp add: bcast_inv_def)
  have bl: "prefix (butlast rd) (rd @ ys)" for rd ys :: "'a list"
    by (cases rd rule: rev_cases) (auto simp: prefix_def)
  obtain rd where rd: "xs = rd @ bsrc s" "case bcur s of
        Some (v, i) \<Rightarrow> \<not> bclosed s \<and> rd \<noteq> [] \<and> last rd = v \<and> i \<le> m \<and>
          (\<forall>j < m. sent_to s j = (if j < i then rd else butlast rd))
      | None \<Rightarrow> (\<forall>j < m. sent_to s j = rd \<or> cancelled s \<and> bclosed s \<and> sent_to s j = butlast rd) \<and>
          (bclosed s \<longrightarrow> cancelled s \<or> bsrc s = [])"
    using assms(1) by (auto simp: bcast_inv_def)
  then have "sent_to s j = rd \<or> sent_to s j = butlast rd" using j by (cases "bcur s") auto
  then show "prefix (sent_to s j) xs" using rd(1) bl by auto
  show "sent_to s j = xs" if "bclosed s" "\<not> cancelled s" using rd j that by (cases "bcur s") auto
qed

text \<open>
  A receiver that does not read blocks the others: with an output full the loop waits for it, and
  without a cancellation or a read from that very output no output gets anything.
\<close>

lemma fanout_blocks:
  assumes "bcur s = Some (v, i)" "i < length (bufs s)" "length (bufs s ! i) = bcap s" "\<not> cancelled s"
    and "bcast_step s () s'" "length (bufs s' ! i) = bcap s" "\<not> cancelled s'"
  shows "bcur s' = bcur s \<and> bsrc s' = bsrc s"
  using assms(5)
proof (cases rule: bcast_step.cases)
  case (send v' i')
  then show ?thesis using assms(1,3) by simp
qed (use assms in auto)

section \<open>FanIn\<close>

text \<open>
  Each goroutine reads its input and sends to the one output; \<open>fwd\<close> is where it is. The output holds
  with each value the number of the input it came from, which the program does not see.
\<close>

datatype 'i forwarder = FRead | FSend 'i | FDone

record 'i fanin =
  ins :: "'i list list"
  fwd :: "'i forwarder list"
  fout :: "(nat \<times> 'i) list"
  fgot :: "(nat \<times> 'i) list"
  fclosed :: bool
  fcancelled :: bool

definition FanIn :: "'i list list \<Rightarrow> 'i fanin" where
  "FanIn xss = \<lparr>ins = xss, fwd = replicate (length xss) FRead, fout = [], fgot = [], fclosed = False, fcancelled = False\<rparr>"

inductive fanin_step :: "'i fanin \<Rightarrow> unit \<Rightarrow> 'i fanin \<Rightarrow> bool" where
  fcancel: "fanin_step s () (s\<lparr>fcancelled := True\<rparr>)"
| fdone_read: "i < length (fwd s) \<Longrightarrow> fwd s ! i = FRead \<Longrightarrow> fcancelled s \<Longrightarrow> fanin_step s () (s\<lparr>fwd := (fwd s)[i := FDone]\<rparr>)"
| freceive: "i < length (fwd s) \<Longrightarrow> fwd s ! i = FRead \<Longrightarrow> ins s ! i = v # vs \<Longrightarrow>
     fanin_step s () (s\<lparr>ins := (ins s)[i := vs], fwd := (fwd s)[i := FSend v]\<rparr>)"
| finput_closed: "i < length (fwd s) \<Longrightarrow> fwd s ! i = FRead \<Longrightarrow> ins s ! i = [] \<Longrightarrow>
     fanin_step s () (s\<lparr>fwd := (fwd s)[i := FDone]\<rparr>)"
| fsend: "i < length (fwd s) \<Longrightarrow> fwd s ! i = FSend v \<Longrightarrow> length (fout s) < 16 \<Longrightarrow>
     fanin_step s () (s\<lparr>fwd := (fwd s)[i := FRead], fout := fout s @ [(i, v)]\<rparr>)"
| fdone_send: "i < length (fwd s) \<Longrightarrow> fwd s ! i = FSend v \<Longrightarrow> fcancelled s \<Longrightarrow> fanin_step s () (s\<lparr>fwd := (fwd s)[i := FDone]\<rparr>)"
| fclose: "list_all (\<lambda>f. f = FDone) (fwd s) \<Longrightarrow> \<not> fclosed s \<Longrightarrow> fanin_step s () (s\<lparr>fclosed := True\<rparr>)"
| fconsume: "fout s = x # q \<Longrightarrow> fanin_step s () (s\<lparr>fout := q, fgot := fgot s @ [x]\<rparr>)"

text \<open>The values that came from input i, in their order in the output.\<close>

definition from_input :: "'i fanin \<Rightarrow> nat \<Rightarrow> 'i list" where
  "from_input s i = map snd (filter (\<lambda>x. fst x = i) (fgot s @ fout s))"

definition in_hand :: "'i forwarder \<Rightarrow> 'i list" where
  "in_hand f = (case f of FSend v \<Rightarrow> [v] | _ \<Rightarrow> [])"

definition fanin_inv :: "'i list list \<Rightarrow> 'i fanin \<Rightarrow> bool" where
  "fanin_inv xss s \<longleftrightarrow> length (ins s) = length xss \<and> length (fwd s) = length xss \<and>
     (\<forall>x \<in> set (fgot s @ fout s). fst x < length xss) \<and>
     (\<forall>i < length xss.
        (fwd s ! i \<noteq> FDone \<or> \<not> fcancelled s \<longrightarrow> xss ! i = from_input s i @ in_hand (fwd s ! i) @ ins s ! i) \<and>
        (fwd s ! i = FDone \<longrightarrow> fcancelled s \<or> ins s ! i = []) \<and> prefix (from_input s i) (xss ! i)) \<and>
     (fclosed s \<longrightarrow> list_all (\<lambda>f. f = FDone) (fwd s))"

lemma fanin_inv_step:
  assumes "fanin_step s u s'" "fanin_inv xss s"
  shows "fanin_inv xss s'"
  using assms(1)
proof (cases rule: fanin_step.cases)
  case fcancel
  have "from_input s' = from_input s" unfolding fcancel by (rule ext) (simp add: from_input_def)
  then show ?thesis using assms(2) fcancel by (auto simp: fanin_inv_def)
next
  case (fdone_read i)
  have "from_input s' = from_input s" unfolding fdone_read by (rule ext) (simp add: from_input_def)
  then show ?thesis using assms(2) fdone_read by (auto simp: fanin_inv_def nth_list_update list_all_length)
next
  case (freceive i v vs)
  have "from_input s' = from_input s" unfolding freceive by (rule ext) (simp add: from_input_def)
  then show ?thesis
    using assms(2) freceive by (auto simp: fanin_inv_def nth_list_update in_hand_def list_all_length)
next
  case (finput_closed i)
  have "from_input s' = from_input s" unfolding finput_closed by (rule ext) (simp add: from_input_def)
  then show ?thesis
    using assms(2) finput_closed by (auto simp: fanin_inv_def nth_list_update in_hand_def list_all_length)
next
  case (fsend i v)
  have "from_input s' = (\<lambda>j. from_input s j @ (if j = i then [v] else []))"
    unfolding fsend by (rule ext) (simp add: from_input_def)
  then show ?thesis
    using assms(2) fsend by (auto simp: fanin_inv_def nth_list_update in_hand_def list_all_length)
next
  case (fdone_send i v)
  have "from_input s' = from_input s" unfolding fdone_send by (rule ext) (simp add: from_input_def)
  then show ?thesis using assms(2) fdone_send by (auto simp: fanin_inv_def nth_list_update list_all_length)
next
  case fclose
  have "from_input s' = from_input s" unfolding fclose by (rule ext) (simp add: from_input_def)
  then show ?thesis using assms(2) fclose by (auto simp: fanin_inv_def)
next
  case (fconsume x q)
  have "from_input s' = from_input s" unfolding fconsume by (rule ext) (simp add: from_input_def fconsume(3))
  then show ?thesis using assms(2) fconsume by (auto simp: fanin_inv_def)
qed

interpretation fi: step_invariant "\<lambda>s. s = FanIn xss" fanin_step "fanin_inv xss" for xss
proof
  show "fanin_inv xss s" if "s = FanIn xss" for s
    using that by (auto simp: fanin_inv_def FanIn_def from_input_def in_hand_def list_all_length)
qed (rule fanin_inv_step)

section \<open>Properties\<close>

text \<open>
  C21. No combinator loses, adds or reorders items: in every interleaving each output of \<open>FanOut\<close>, \<open>Tee\<close>
  and \<open>OrDone\<close> has got a prefix of the input, and all of it once the outputs are closed and nothing
  was cancelled; and the output of \<open>FanIn\<close> has got only items of the inputs, of each input a prefix in
  its order, and all of each input once it is closed and nothing was cancelled.
\<close>

theorem fan_delivery:
  "(reach (\<lambda>s. s \<in> {FanOut n xs, Tee xs, OrDone xs}) bcast_step s \<longrightarrow> j < length (bufs s) \<longrightarrow>
      prefix (sent_to s j) xs \<and> (bclosed s \<longrightarrow> \<not> cancelled s \<longrightarrow> sent_to s j = xs)) \<and>
   (reach (\<lambda>s. s = FanIn xss) fanin_step t \<longrightarrow>
      (\<forall>x \<in> set (fgot t @ fout t). fst x < length xss) \<and>
      (\<forall>i < length xss. prefix (from_input t i) (xss ! i) \<and>
         (fclosed t \<longrightarrow> \<not> fcancelled t \<longrightarrow> from_input t i = xss ! i)))"
proof (intro conjI impI)
  show "\<forall>x \<in> set (fgot t @ fout t). fst x < length xss" if "reach (\<lambda>s. s = FanIn xss) fanin_step t"
    using fi.reach_inv [OF that] by (simp add: fanin_inv_def)
  show "\<forall>i < length xss. prefix (from_input t i) (xss ! i) \<and>
      (fclosed t \<longrightarrow> \<not> fcancelled t \<longrightarrow> from_input t i = xss ! i)" if "reach (\<lambda>s. s = FanIn xss) fanin_step t"
    using fi.reach_inv [OF that] by (auto simp: fanin_inv_def list_all_length in_hand_def)
next
  assume r: "reach (\<lambda>s. s \<in> {FanOut n xs, Tee xs, OrDone xs}) bcast_step s" and j: "j < length (bufs s)"
  have "\<exists>m. bcast_inv m xs s"
    using r
  proof (induction rule: reach.induct)
    case (reach_start s)
    then show ?case using bc.inv_init by (auto simp: FanOut_def Tee_def OrDone_def) blast+
  next
    case (reach_step s e s')
    then show ?case using bcast_inv_step by blast
  qed
  then obtain m where inv: "bcast_inv m xs s" by blast
  show "prefix (sent_to s j) xs" by (rule bcast_output(1) [OF inv j])
  show "sent_to s j = xs" if "bclosed s" "\<not> cancelled s" by (rule bcast_output(2) [OF inv j that])
qed

lemma fan_demo:
  "reach (\<lambda>s. s \<in> {FanOut 1 [7], Tee [7], OrDone [7]}) bcast_step
     ((OrDone [7 :: nat])\<lparr>bsrc := [], bufs := [[7]], bclosed := True\<rparr>)"
proof -
  let ?R = "reach (\<lambda>s. s \<in> {FanOut 1 [7], Tee [7], OrDone [7 :: nat]}) bcast_step"
  let ?s0 = "OrDone [7 :: nat]"
  let ?s1 = "?s0\<lparr>bsrc := [], bcur := Some (7, 0)\<rparr>"
  let ?s2 = "?s1\<lparr>bufs := (bufs ?s1)[0 := bufs ?s1 ! 0 @ [7]], bcur := Some (7, Suc 0)\<rparr>"
  let ?s3 = "?s2\<lparr>bcur := None\<rparr>"
  let ?s4 = "?s3\<lparr>bclosed := True\<rparr>"
  have "?R ?s0" by (rule reach_start) simp
  then have "?R ?s1" by (rule reach_step) (rule bcast_step.receive, simp_all add: OrDone_def bcast_init_def)
  then have "?R ?s2" by (rule reach_step) (rule bcast_step.send [of _ 7 0], simp_all add: OrDone_def bcast_init_def)
  then have "?R ?s3" by (rule reach_step) (rule bcast_step.next_item [of _ 7 "Suc 0"], simp_all add: OrDone_def bcast_init_def)
  then have "?R ?s4" by (rule reach_step) (rule bcast_step.input_closed, simp_all add: OrDone_def bcast_init_def)
  then show ?thesis by (simp add: OrDone_def bcast_init_def)
qed

theorem fan_delivery_witness:
  "sent_to ((OrDone [7 :: nat])\<lparr>bsrc := [], bufs := [[7]], bclosed := True\<rparr>) 0 = [7]"
  using fan_delivery [THEN conjunct1, rule_format, OF fan_demo, of 0]
  by (simp add: OrDone_def bcast_init_def)

end
