(* ===== verification/Debounce.thy ===== *)
theory Debounce
  imports GoStd
begin

text \<open>
  \<open>Debounce\<close> of \<open>pkg/async/semaphore.go\<close>: the goroutine with its timer, and calls of the returned
  function, interleaved with the passing of time. The timer has the semantics of Go 1.23 and later:
  a receive from its channel is possible once the deadline has passed, and not after \<open>Stop\<close>.
\<close>

section \<open>State and steps\<close>

text \<open>The goroutine is at its select, between the receive of a trigger and \<open>Reset\<close>, or in \<open>fn\<close>.\<close>

datatype deb_pc = DSelect | DReset | DCall

text \<open>The calls of the returned function and the starts of \<open>fn\<close>, in their order, with their times.\<close>

datatype deb_event = Called gotime | Ran gotime

record debouncer =
  deb_interval :: duration
  deb_clock :: gotime
  trigger :: bool
  deadline :: "gotime option"
  gpc :: deb_pc
  deb_events :: "deb_event list"

definition Debounce_New :: "duration \<Rightarrow> gotime \<Rightarrow> debouncer" where
  "Debounce_New iv t = \<lparr>deb_interval = iv, deb_clock = t, trigger = False, deadline = None, gpc = DSelect, deb_events = []\<rparr>"

text \<open>
  A call leaves a value in the channel of capacity one, whether it sends or finds one there. Of two
  ready cases the select takes any.
\<close>

inductive debounce_step :: "debouncer \<Rightarrow> unit \<Rightarrow> debouncer \<Rightarrow> bool" where
  time: "debounce_step s () (s\<lparr>deb_clock := deb_clock s + int d\<rparr>)"
| call: "debounce_step s () (s\<lparr>trigger := True, deb_events := deb_events s @ [Called (deb_clock s)]\<rparr>)"
| receive: "gpc s = DSelect \<Longrightarrow> trigger s \<Longrightarrow> debounce_step s () (s\<lparr>trigger := False, gpc := DReset\<rparr>)"
| reset: "gpc s = DReset \<Longrightarrow>
     debounce_step s () (s\<lparr>deadline := Some (time_Add (deb_clock s) (deb_interval s)), gpc := DSelect\<rparr>)"
| expire: "gpc s = DSelect \<Longrightarrow> deadline s = Some t \<Longrightarrow> t \<le> deb_clock s \<Longrightarrow>
     debounce_step s () (s\<lparr>deadline := None, gpc := DCall, deb_events := deb_events s @ [Ran (deb_clock s)]\<rparr>)"
| returned: "gpc s = DCall \<Longrightarrow> debounce_step s () (s\<lparr>gpc := DSelect\<rparr>)"

inductive_cases debounce_stepE: "debounce_step s e s'"

section \<open>Invariant\<close>

fun call_times :: "deb_event list \<Rightarrow> gotime list" where
  "call_times [] = []"
| "call_times (Called t # es) = t # call_times es"
| "call_times (Ran t # es) = call_times es"

fun run_times :: "deb_event list \<Rightarrow> gotime list" where
  "run_times [] = []"
| "run_times (Ran t # es) = t # run_times es"
| "run_times (Called t # es) = run_times es"

lemma times_append [simp]:
  "call_times (es @ es') = call_times es @ call_times es'" "run_times (es @ es') = run_times es @ run_times es'"
  by (induction es rule: call_times.induct) simp_all

definition on_timer :: "debouncer \<Rightarrow> bool" where
  "on_timer s \<longleftrightarrow> gpc s = DReset \<or> deadline s \<noteq> None"

definition unanswered :: "deb_event list \<Rightarrow> bool" where
  "unanswered es \<longleftrightarrow> (\<exists>es' c. es = es' @ [Called c])"

text \<open>How calls and runs are counted, how runs are spaced, and that no call is forgotten.\<close>

definition deb_count :: "debouncer \<Rightarrow> bool" where
  "deb_count s \<longleftrightarrow> length (run_times (deb_events s)) + of_bool (trigger s) + of_bool (on_timer s) \<le> length (call_times (deb_events s))"

definition deb_spaced :: "debouncer \<Rightarrow> bool" where
  "deb_spaced s \<longleftrightarrow> sorted_wrt (\<lambda>x y. x + deb_interval s \<le> y) (run_times (deb_events s)) \<and>
     (\<forall>x \<in> set (run_times (deb_events s)). x \<le> deb_clock s \<and> (\<forall>d. deadline s = Some d \<longrightarrow> x + deb_interval s \<le> d))"

definition deb_late :: "debouncer \<Rightarrow> bool" where
  "deb_late s \<longleftrightarrow> (\<forall>c \<in> set (call_times (deb_events s)). c \<le> deb_clock s) \<and>
     (\<forall>d. deadline s = Some d \<longrightarrow> (\<exists>c \<in> set (call_times (deb_events s)). c + deb_interval s \<le> d)) \<and>
     (\<forall>t \<in> set (run_times (deb_events s)). \<exists>c \<in> set (call_times (deb_events s)). c + deb_interval s \<le> t)"

definition deb_inv :: "duration \<Rightarrow> debouncer \<Rightarrow> bool" where
  "deb_inv iv s \<longleftrightarrow> deb_interval s = iv \<and> deb_count s \<and> deb_spaced s \<and> deb_late s \<and>
     (unanswered (deb_events s) \<longrightarrow> trigger s \<or> on_timer s)"

lemma unanswered_snoc [simp]: "unanswered (es @ [Called c])" "\<not> unanswered (es @ [Ran t])"
  by (auto simp: unanswered_def)

lemma deb_count_step: "debounce_step s e s' \<Longrightarrow> deb_count s \<Longrightarrow> deb_count s'"
  by (erule debounce_stepE) (auto simp: deb_count_def on_timer_def of_bool_def split: if_splits)

lemma deb_spaced_step: "debounce_step s e s' \<Longrightarrow> deb_spaced s \<Longrightarrow> deb_spaced s'"
  by (erule debounce_stepE) (fastforce simp: deb_spaced_def sorted_wrt_append time_Add_def)+

lemma deb_late_step:
  assumes "debounce_step s e s'" "deb_late s" "deb_count s"
  shows "deb_late s'"
  using assms(1)
proof (cases rule: debounce_step.cases)
  case reset
  then have "call_times (deb_events s) \<noteq> []" using assms(3) by (auto simp: deb_count_def on_timer_def)
  then obtain c where "c \<in> set (call_times (deb_events s))" by (meson list.set_sel(1))
  then show ?thesis using assms(2) reset by (auto simp: deb_late_def time_Add_def intro!: bexI [of _ c])
next
  case (expire t)
  then obtain c where "c \<in> set (call_times (deb_events s))" "c + deb_interval s \<le> t" using assms(2) by (auto simp: deb_late_def)
  then show ?thesis using assms(2) expire by (auto simp: deb_late_def intro!: bexI [of _ c])
qed (use assms(2) in \<open>fastforce simp: deb_late_def\<close>)+

interpretation debounce: step_invariant "\<lambda>s. \<exists>t. s = Debounce_New iv t" debounce_step "deb_inv iv" for iv
proof
  fix s assume "\<exists>t. s = Debounce_New iv t"
  then show "deb_inv iv s"
    by (auto simp: deb_inv_def Debounce_New_def deb_count_def deb_spaced_def deb_late_def on_timer_def unanswered_def)
next
  fix s e s' assume s: "deb_inv iv s" and st: "debounce_step s e s'"
  have "deb_count s'" "deb_spaced s'" "deb_late s'"
    using s st deb_count_step deb_spaced_step deb_late_step by (auto simp: deb_inv_def)
  moreover from st have "deb_interval s' = deb_interval s \<and>
      ((unanswered (deb_events s) \<longrightarrow> trigger s \<or> on_timer s) \<longrightarrow> unanswered (deb_events s') \<longrightarrow> trigger s' \<or> on_timer s')"
    by (cases rule: debounce_stepE) (auto simp: on_timer_def)
  ultimately show "deb_inv iv s'" using s by (simp add: deb_inv_def)
qed

section \<open>A call is answered\<close>

text \<open>How far the goroutine is from the next start of \<open>fn\<close>, without further calls.\<close>

definition deb_load :: "debouncer \<Rightarrow> nat" where
  "deb_load s = (if trigger s then 10 else 0) + (case gpc s of DSelect \<Rightarrow> 0 | DReset \<Rightarrow> 5 | DCall \<Rightarrow> 1) +
     (case deadline s of None \<Rightarrow> 0 | Some t \<Rightarrow> if t \<le> deb_clock s then 1 else 2)"

definition deb_answered :: "deb_event list \<Rightarrow> debouncer \<Rightarrow> bool" where
  "deb_answered es s \<longleftrightarrow> (\<exists>t. deb_events s = es @ [Ran t])"

definition deb_due :: "deb_event list \<Rightarrow> debouncer \<Rightarrow> bool" where
  "deb_due es s \<longleftrightarrow> deb_events s = es \<and> (trigger s \<or> on_timer s) \<or> deb_answered es s"

lemma deb_nearer:
  assumes "deb_due es s" "\<not> deb_answered es s"
  shows "\<exists>s'. debounce_step s () s' \<and> deb_due es s' \<and> (deb_load s' < deb_load s \<or> deb_answered es s')"
proof -
  have s: "deb_events s = es" "trigger s \<or> on_timer s" using assms by (auto simp: deb_due_def)
  consider "gpc s = DCall" | "gpc s = DReset" | "gpc s = DSelect" "trigger s"
    | t where "gpc s = DSelect" "\<not> trigger s" "deadline s = Some t" "t \<le> deb_clock s"
    | t where "gpc s = DSelect" "\<not> trigger s" "deadline s = Some t" "deb_clock s < t"
    using s(2) unfolding on_timer_def by (metis deb_pc.exhaust linorder_not_le option.exhaust)
  then show ?thesis
  proof cases
    case 1
    then show ?thesis using s debounce_step.returned [of s]
      by (intro exI [of _ "s\<lparr>gpc := DSelect\<rparr>"]) (auto simp: deb_due_def on_timer_def deb_load_def split: option.split)
  next
    case 2
    then show ?thesis using s debounce_step.reset [of s]
      by (intro exI [of _ "s\<lparr>deadline := Some (time_Add (deb_clock s) (deb_interval s)), gpc := DSelect\<rparr>"])
        (auto simp: deb_due_def on_timer_def deb_load_def split: option.split)
  next
    case 3
    then show ?thesis using s debounce_step.receive [of s]
      by (intro exI [of _ "s\<lparr>trigger := False, gpc := DReset\<rparr>"]) (auto simp: deb_due_def on_timer_def deb_load_def split: option.split)
  next
    case (4 t)
    then show ?thesis using s debounce_step.expire [of s t]
      by (intro exI [of _ "s\<lparr>deadline := None, gpc := DCall, deb_events := deb_events s @ [Ran (deb_clock s)]\<rparr>"])
        (auto simp: deb_due_def deb_answered_def)
  next
    case (5 t)
    then show ?thesis using s debounce_step.time [of s "nat (t - deb_clock s)"]
      by (intro exI [of _ "s\<lparr>deb_clock := t\<rparr>"]) (auto simp: deb_due_def on_timer_def deb_load_def)
  qed
qed

interpretation answering: step_progress debounce_step "deb_due es" "deb_answered es"
  "\<lambda>s. if deb_answered es s then 0 else Suc (deb_load s)" for es
proof
  fix s assume "deb_due es s" "\<not> deb_answered es s"
  from deb_nearer [OF this] this(2) show
    "\<exists>e s'. debounce_step s e s' \<and> deb_due es s' \<and>
       (if deb_answered es s' then 0 else Suc (deb_load s')) < (if deb_answered es s then 0 else Suc (deb_load s))" by auto
qed


text \<open>
  A run with an interval of 10: the second call comes when the timer is due, the select takes the
  timer, and \<open>fn\<close> starts at the time of that call.
\<close>

definition demo_deb :: "bool \<Rightarrow> gotime option \<Rightarrow> deb_pc \<Rightarrow> gotime \<Rightarrow> deb_event list \<Rightarrow> debouncer" where
  "demo_deb tr dl pc t es = \<lparr>deb_interval = 10, deb_clock = t, trigger = tr, deadline = dl, gpc = pc, deb_events = es\<rparr>"

abbreviation deb_reach :: "debouncer \<Rightarrow> bool" where
  "deb_reach \<equiv> reach (\<lambda>s. \<exists>t. s = Debounce_New 10 t) debounce_step"

lemma debounce_called: "deb_reach (demo_deb True None DSelect 0 [Called 0])"
proof -
  have a: "deb_reach (demo_deb False None DSelect 0 [])"
    by (rule reach_start) (simp add: Debounce_New_def demo_deb_def exI [of _ 0])
  show ?thesis using reach_step [OF a, OF debounce_step.call] by (simp add: demo_deb_def)
qed

lemma debounce_early: "deb_reach (demo_deb True None DCall 10 [Called 0, Called 10, Ran 10])"
proof -
  note b = debounce_called
  have c: "deb_reach (demo_deb False None DReset 0 [Called 0])"
    using reach_step [OF b, OF debounce_step.receive] by (simp add: demo_deb_def)
  have d: "deb_reach (demo_deb False (Some 10) DSelect 0 [Called 0])"
    using reach_step [OF c, OF debounce_step.reset] by (simp add: demo_deb_def time_Add_def)
  have e: "deb_reach (demo_deb False (Some 10) DSelect 10 [Called 0])"
    using reach_step [OF d, OF debounce_step.time [of _ 10]] by (simp add: demo_deb_def)
  have f: "deb_reach (demo_deb True (Some 10) DSelect 10 [Called 0, Called 10])"
    using reach_step [OF e, OF debounce_step.call] by (simp add: demo_deb_def)
  show ?thesis using reach_step [OF f, OF debounce_step.expire [of _ 10]] by (simp add: demo_deb_def)
qed


end
