(* ===== verification/Sched.thy ===== *)
theory Sched
  imports GoStd
begin

text \<open>
  The job scheduler, \<open>pkg/sched/scheduler.go\<close>: its configuration, and the goroutines that \<open>Start\<close>
  launches in every interleaving, with a clock, the timers they wait for, the semaphore that
  \<open>dispatch\<close> takes a slot of and the wait group that \<open>Stop\<close> waits for.
\<close>

section \<open>Configuration\<close>

text \<open>A job's function, the error callback and the logger are values of types \<open>'f\<close>, \<open>'h\<close> and \<open>'l\<close>.\<close>

record 'f sched_Job =
  Name :: string
  Fn :: 'f

record ('h, 'l) sched_options =
  onError :: "'h option"
  logger :: 'l

definition sched_WithOnError :: "'h \<Rightarrow> ('h, 'l) sched_options \<Rightarrow> ('h, 'l) sched_options" where
  "sched_WithOnError h o1 = o1\<lparr>onError := Some h\<rparr>"

definition sched_WithLogger :: "'l \<Rightarrow> ('h, 'l) sched_options \<Rightarrow> ('h, 'l) sched_options" where
  "sched_WithLogger l o1 = o1\<lparr>logger := l\<rparr>"

record 'f schedule =
  job :: "'f sched_Job"
  interval :: duration
  delay :: duration

record ('f, 'h, 'l) Scheduler =
  workers :: int
  opts :: "('h, 'l) sched_options"
  schedules :: "'f schedule list"

definition sched_New :: "'l \<Rightarrow> int \<Rightarrow> (('h, 'l) sched_options \<Rightarrow> ('h, 'l) sched_options) list \<Rightarrow> ('f, 'h, 'l) Scheduler" where
  "sched_New slogDefault n os =
     \<lparr>workers = n, opts = fold (\<lambda>opt o1. opt o1) os \<lparr>onError = None, logger = slogDefault\<rparr>, schedules = []\<rparr>"

definition sched_Every :: "duration \<Rightarrow> string \<Rightarrow> 'f \<Rightarrow> ('f, 'h, 'l) Scheduler \<Rightarrow> ('f, 'h, 'l) Scheduler" where
  "sched_Every d name fn s =
     s\<lparr>schedules := schedules s @ [\<lparr>job = \<lparr>Name = name, Fn = fn\<rparr>, interval = d, delay = 0\<rparr>]\<rparr>"

definition sched_After :: "duration \<Rightarrow> string \<Rightarrow> 'f \<Rightarrow> ('f, 'h, 'l) Scheduler \<Rightarrow> ('f, 'h, 'l) Scheduler" where
  "sched_After d name fn s =
     s\<lparr>schedules := schedules s @ [\<lparr>job = \<lparr>Name = name, Fn = fn\<rparr>, interval = 0, delay = d\<rparr>]\<rparr>"

section \<open>The running scheduler\<close>

text \<open>
  Where the goroutine of a schedule is: before its timer exists, in the select on the timer, in the
  select of \<open>dispatch\<close>, between taking the slot and \<open>wg.Add\<close>, at its deferred \<open>wg.Done\<close>, ended. \<open>due\<close>
  is when the timer fires next and \<open>pending\<close> that its channel holds a value; \<open>began\<close> is when the timer was
  made, \<open>fired\<close> and \<open>runs\<close> count the timer's values and the calls of \<open>dispatch\<close>.
\<close>

datatype rpc = RInit | RTimer | RDispatch | RAdd | RDone | RExit

record 'f runner =
  rsched :: "'f schedule"
  rpc :: rpc
  due :: gotime
  pending :: bool
  began :: gotime
  fired :: nat
  runs :: nat

text \<open>
  The goroutine of a job: before its first line, in the job's function, at the deferred receive from
  the semaphore, at the deferred \<open>wg.Done\<close>, ended.
\<close>

datatype jpc = JStart | JRun | JRelease | JDone | JExit

datatype log_line = JobStarting string | JobFailed string err | JobCompleted string

datatype stop_pc = NotStopping | StopWait | StopReturned

record ('f, 'h) system =
  clock :: gotime
  ctxDone :: bool
  sem :: nat
  semCap :: nat
  runners :: "'f runner list"
  goJobs :: "('f sched_Job \<times> jpc) list"
  wg :: nat
  hook :: "'h option"
  logged :: "log_line list"
  reported :: "('h \<times> 'f sched_Job \<times> err) list"
  stopping :: stop_pc

definition periodic :: "'f schedule \<Rightarrow> bool" where
  "periodic sc \<longleftrightarrow> interval sc > 0"

definition go_runner :: "gotime \<Rightarrow> 'f schedule \<Rightarrow> 'f runner" where
  "go_runner t sc = \<lparr>rsched = sc, rpc = RInit, due = t, pending = False, began = t, fired = 0, runs = 0\<rparr>"

text \<open>\<open>make(chan struct{}, workers)\<close> panics for a negative size.\<close>

definition sched_Start :: "gotime \<Rightarrow> bool \<Rightarrow> ('f, 'h, 'l) Scheduler \<Rightarrow> ('f, 'h) system option" where
  "sched_Start now ctx_done s =
     (if workers s < 0 then None
      else Some \<lparr>clock = now, ctxDone = ctx_done, sem = 0, semCap = nat (workers s),
        runners = map (go_runner now) (schedules s), goJobs = [], wg = length (schedules s),
        hook = onError (opts s), logged = [], reported = [], stopping = NotStopping\<rparr>)"

definition set_runner :: "nat \<Rightarrow> 'f runner \<Rightarrow> ('f, 'h) system \<Rightarrow> ('f, 'h) system" where
  "set_runner i r s = s\<lparr>runners := (runners s)[i := r]\<rparr>"

definition set_job :: "nat \<Rightarrow> 'f sched_Job \<Rightarrow> jpc \<Rightarrow> ('f, 'h) system \<Rightarrow> ('f, 'h) system" where
  "set_job k j pc s = s\<lparr>goJobs := (goJobs s)[k := (j, pc)]\<rparr>"

text \<open>The return from \<open>dispatch\<close>: to the loop of \<open>runPeriodic\<close>, or to the end of \<open>runOnce\<close>.\<close>

definition after_dispatch :: "'f runner \<Rightarrow> 'f runner" where
  "after_dispatch r = r\<lparr>rpc := (if periodic (rsched r) then RTimer else RDone)\<rparr>"

inductive runner_step :: "('f, 'h) system \<Rightarrow> 'f runner \<Rightarrow> 'f runner \<Rightarrow> bool" where
  new_ticker: "rpc r = RInit \<Longrightarrow> periodic (rsched r) \<Longrightarrow>
     runner_step s r (r\<lparr>rpc := RDispatch, began := clock s, due := clock s + interval (rsched r), runs := runs r + 1\<rparr>)"
| new_timer: "rpc r = RInit \<Longrightarrow> \<not> periodic (rsched r) \<Longrightarrow>
     runner_step s r (r\<lparr>rpc := RTimer, began := clock s, due := clock s + delay (rsched r)\<rparr>)"
| fire_ticker: "rpc r \<notin> {RInit, RDone, RExit} \<Longrightarrow> periodic (rsched r) \<Longrightarrow> due r \<le> clock s \<Longrightarrow>
     runner_step s r (r\<lparr>pending := True, due := due r + interval (rsched r), fired := fired r + 1\<rparr>)"
| fire_timer: "rpc r = RTimer \<Longrightarrow> \<not> periodic (rsched r) \<Longrightarrow> fired r = 0 \<Longrightarrow> due r \<le> clock s \<Longrightarrow>
     runner_step s r (r\<lparr>pending := True, fired := 1\<rparr>)"
| timer_value: "rpc r = RTimer \<Longrightarrow> pending r \<Longrightarrow>
     runner_step s r (r\<lparr>rpc := RDispatch, pending := False, runs := runs r + 1\<rparr>)"
| timer_done: "rpc r = RTimer \<Longrightarrow> ctxDone s \<Longrightarrow> runner_step s r (r\<lparr>rpc := RDone\<rparr>)"
| dispatch_done: "rpc r = RDispatch \<Longrightarrow> ctxDone s \<Longrightarrow> runner_step s r (after_dispatch r)"

inductive sched_step :: "('f, 'h) system \<Rightarrow> unit \<Rightarrow> ('f, 'h) system \<Rightarrow> bool" where
  time: "sched_step s () (s\<lparr>clock := clock s + int d\<rparr>)"
| ctx_cancel: "sched_step s () (s\<lparr>ctxDone := True\<rparr>)"
| runner: "i < length (runners s) \<Longrightarrow> runner_step s (runners s ! i) r \<Longrightarrow> sched_step s () (set_runner i r s)"
| acquire: "i < length (runners s) \<Longrightarrow> rpc (runners s ! i) = RDispatch \<Longrightarrow> sem s < semCap s \<Longrightarrow>
     sched_step s () (set_runner i ((runners s ! i)\<lparr>rpc := RAdd\<rparr>) (s\<lparr>sem := sem s + 1\<rparr>))"
| spawn: "i < length (runners s) \<Longrightarrow> rpc (runners s ! i) = RAdd \<Longrightarrow>
     sched_step s () (set_runner i (after_dispatch (runners s ! i))
       (s\<lparr>wg := wg s + 1, goJobs := goJobs s @ [(job (rsched (runners s ! i)), JStart)]\<rparr>))"
| runner_exit: "i < length (runners s) \<Longrightarrow> rpc (runners s ! i) = RDone \<Longrightarrow>
     sched_step s () (set_runner i ((runners s ! i)\<lparr>rpc := RExit\<rparr>) (s\<lparr>wg := wg s - 1\<rparr>))"
| job_start: "k < length (goJobs s) \<Longrightarrow> goJobs s ! k = (j, JStart) \<Longrightarrow>
     sched_step s () (set_job k j JRun (s\<lparr>logged := logged s @ [JobStarting (Name j)]\<rparr>))"
| job_ok: "k < length (goJobs s) \<Longrightarrow> goJobs s ! k = (j, JRun) \<Longrightarrow>
     sched_step s () (set_job k j JRelease (s\<lparr>logged := logged s @ [JobCompleted (Name j)]\<rparr>))"
| job_error: "k < length (goJobs s) \<Longrightarrow> goJobs s ! k = (j, JRun) \<Longrightarrow>
     sched_step s () (set_job k j JRelease (s\<lparr>logged := logged s @ [JobFailed (Name j) e],
       reported := reported s @ (case hook s of None \<Rightarrow> [] | Some h \<Rightarrow> [(h, j, e)])\<rparr>))"
| job_release: "k < length (goJobs s) \<Longrightarrow> goJobs s ! k = (j, JRelease) \<Longrightarrow> 0 < sem s \<Longrightarrow>
     sched_step s () (set_job k j JDone (s\<lparr>sem := sem s - 1\<rparr>))"
| job_exit: "k < length (goJobs s) \<Longrightarrow> goJobs s ! k = (j, JDone) \<Longrightarrow>
     sched_step s () (set_job k j JExit (s\<lparr>wg := wg s - 1\<rparr>))"
| stop_cancel: "stopping s = NotStopping \<Longrightarrow> sched_step s () (s\<lparr>ctxDone := True, stopping := StopWait\<rparr>)"
| stop_return: "stopping s = StopWait \<Longrightarrow> wg s = 0 \<Longrightarrow> sched_step s () (s\<lparr>stopping := StopReturned\<rparr>)"

section \<open>Slots, wait group and timers\<close>

definition slot_r :: "'f runner \<Rightarrow> nat" where
  "slot_r r = (if rpc r = RAdd then 1 else 0)"

definition slot_j :: "'f sched_Job \<times> jpc \<Rightarrow> nat" where
  "slot_j x = (if snd x \<in> {JStart, JRun, JRelease} then 1 else 0)"

definition live_r :: "'f runner \<Rightarrow> nat" where
  "live_r r = (if rpc r = RExit then 0 else 1)"

definition live_j :: "'f sched_Job \<times> jpc \<Rightarrow> nat" where
  "live_j x = (if snd x = JExit then 0 else 1)"

definition slots :: "('f, 'h) system \<Rightarrow> nat" where
  "slots s = sum_list (map slot_r (runners s)) + sum_list (map slot_j (goJobs s))"

definition live :: "('f, 'h) system \<Rightarrow> nat" where
  "live s = sum_list (map live_r (runners s)) + sum_list (map live_j (goJobs s))"

text \<open>The jobs whose function is being called.\<close>

definition running_jobs :: "('f, 'h) system \<Rightarrow> 'f sched_Job list" where
  "running_jobs s = map fst (filter (\<lambda>x. snd x = JRun) (goJobs s))"

definition ticker_inv :: "gotime \<Rightarrow> gotime \<Rightarrow> 'f runner \<Rightarrow> bool" where
  "ticker_inv t0 now r \<longleftrightarrow> t0 \<le> began r \<and> began r \<le> now \<and>
     (if rpc r = RInit then runs r = 0 \<and> fired r = 0 \<and> \<not> pending r
      else if periodic (rsched r) then
        due r = began r + (int (fired r) + 1) * interval (rsched r) \<and>
        began r + int (fired r) * interval (rsched r) \<le> now \<and> runs r + of_bool (pending r) \<le> 1 + fired r
      else due r = began r + delay (rsched r) \<and> runs r + of_bool (pending r) \<le> fired r \<and> fired r \<le> 1 \<and>
        (0 < fired r \<longrightarrow> due r \<le> now))"

definition sched_inv :: "gotime \<Rightarrow> ('f, 'h) system \<Rightarrow> bool" where
  "sched_inv t0 s \<longleftrightarrow> sem s = slots s \<and> sem s \<le> semCap s \<and> wg s = live s \<and>
     (stopping s = StopReturned \<longrightarrow> wg s = 0) \<and> (stopping s \<noteq> NotStopping \<longrightarrow> ctxDone s) \<and>
     list_all (ticker_inv t0 (clock s)) (runners s)"

lemma ticker_inv_mono: "now \<le> now' \<Longrightarrow> ticker_inv t0 now r \<Longrightarrow> ticker_inv t0 now' r"
  by (auto simp: ticker_inv_def split: if_splits)

lemma ticker_inv_step:
  assumes "runner_step s r r'" "ticker_inv t0 (clock s) r"
  shows "ticker_inv t0 (clock s) r'"
  using assms(1)
proof (cases rule: runner_step.cases)
  case fire_ticker
  then show ?thesis using assms(2) by (auto simp: ticker_inv_def algebra_simps split: if_splits)
qed (use assms(2) in \<open>auto simp: ticker_inv_def after_dispatch_def split: if_splits\<close>)

lemma ticker_inv_pc: "ticker_inv t0 now r \<Longrightarrow> rpc r \<noteq> RInit \<Longrightarrow> pc \<noteq> RInit \<Longrightarrow> ticker_inv t0 now (r\<lparr>rpc := pc\<rparr>)"
  by (auto simp: ticker_inv_def split: if_splits)

lemma runner_step_counts:
  assumes "runner_step s r r'"
  shows "slot_r r' = slot_r r" "live_r r' = live_r r"
  using assms by (cases rule: runner_step.cases; simp add: slot_r_def live_r_def after_dispatch_def)+

text \<open>How a step of one goroutine changes the sums.\<close>

lemma set_runner_counts:
  assumes "i < length (runners s)"
  shows "slots (set_runner i r s) + slot_r (runners s ! i) = slots s + slot_r r"
    "live (set_runner i r s) + live_r (runners s ! i) = live s + live_r r"
  using sum_list_update_eq [OF assms, of slot_r r] sum_list_update_eq [OF assms, of live_r r]
  by (simp_all add: slots_def live_def set_runner_def)

lemma set_job_counts:
  assumes "k < length (goJobs s)" "goJobs s ! k = (j, pc)"
  shows "slots (set_job k j pc' s) + slot_j (j, pc) = slots s + slot_j (j, pc')"
    "live (set_job k j pc' s) + live_j (j, pc) = live s + live_j (j, pc')"
  using sum_list_update_eq [OF assms(1), of slot_j "(j, pc')"] sum_list_update_eq [OF assms(1), of live_j "(j, pc')"]
  by (simp_all add: slots_def live_def set_job_def assms(2))

lemma set_runner_simps [simp]:
  "sem (set_runner i r s) = sem s" "semCap (set_runner i r s) = semCap s" "wg (set_runner i r s) = wg s"
  "stopping (set_runner i r s) = stopping s" "clock (set_runner i r s) = clock s"
  "runners (set_runner i r s) = (runners s)[i := r]" "goJobs (set_runner i r s) = goJobs s"
  "ctxDone (set_runner i r s) = ctxDone s"
  by (simp_all add: set_runner_def)

lemma set_job_simps [simp]:
  "sem (set_job k j pc s) = sem s" "semCap (set_job k j pc s) = semCap s" "wg (set_job k j pc s) = wg s"
  "stopping (set_job k j pc s) = stopping s" "clock (set_job k j pc s) = clock s"
  "runners (set_job k j pc s) = runners s" "goJobs (set_job k j pc s) = (goJobs s)[k := (j, pc)]"
  "ctxDone (set_job k j pc s) = ctxDone s"
  by (simp_all add: set_job_def)

lemma counts_cong:
  "runners s' = runners s \<Longrightarrow> goJobs s' = goJobs s \<Longrightarrow> slots s' = slots s \<and> live s' = live s"
  by (simp add: slots_def live_def)

text \<open>
  One goroutine moves, from \<open>s\<close> to \<open>u\<close> with the goroutine still in its old place: the counters follow
  what the goroutine holds.
\<close>

definition others_same :: "('f, 'h) system \<Rightarrow> ('f, 'h) system \<Rightarrow> bool" where
  "others_same s u \<longleftrightarrow> runners u = runners s \<and> goJobs u = goJobs s \<and> clock u = clock s \<and>
     semCap u = semCap s \<and> stopping u = stopping s \<and> ctxDone u = ctxDone s"

lemma job_move:
  assumes "sched_inv t0 s" "k < length (goJobs s)" "goJobs s ! k = (j, pc)" "others_same s u"
    and "sem u + slot_j (j, pc) = sem s + slot_j (j, pc')" "wg u + live_j (j, pc) = wg s + live_j (j, pc')"
    and "slot_j (j, pc') \<le> slot_j (j, pc)" "live_j (j, pc') \<le> live_j (j, pc)"
  shows "sched_inv t0 (set_job k j pc' u)"
  using assms set_job_counts [of k u j pc pc'] counts_cong [of u s] by (auto simp: sched_inv_def others_same_def)

lemma runner_move:
  assumes "sched_inv t0 s" "i < length (runners s)" "others_same s u" "rpc (runners s ! i) \<noteq> RInit" "pc \<noteq> RInit"
    and "sem u + slot_r (runners s ! i) = sem s + slot_r ((runners s ! i)\<lparr>rpc := pc\<rparr>)" "sem u \<le> semCap u"
    and "wg u + live_r (runners s ! i) = wg s + live_r ((runners s ! i)\<lparr>rpc := pc\<rparr>)" "wg u \<le> wg s"
  shows "sched_inv t0 (set_runner i ((runners s ! i)\<lparr>rpc := pc\<rparr>) u)"
proof -
  have "ticker_inv t0 (clock s) ((runners s ! i)\<lparr>rpc := pc\<rparr>)"
    using assms(1,2,4,5) by (intro ticker_inv_pc) (auto simp: sched_inv_def list_all_length)
  then show ?thesis
    using assms set_runner_counts [of i u "(runners s ! i)\<lparr>rpc := pc\<rparr>"] counts_cong [of u s]
    by (auto simp: sched_inv_def others_same_def list_all_upd)
qed

lemma live_pos:
  "i < length (runners s) \<Longrightarrow> rpc (runners s ! i) \<noteq> RExit \<Longrightarrow> 0 < live s"
  "k < length (goJobs s) \<Longrightarrow> snd (goJobs s ! k) \<noteq> JExit \<Longrightarrow> 0 < live s"
  using sum_list_update_eq [of i "runners s" live_r "(runners s ! i)\<lparr>rpc := RExit\<rparr>"]
    sum_list_update_eq [of k "goJobs s" live_j "(fst (goJobs s ! k), JExit)"]
  by (auto simp: live_def live_r_def live_j_def)

lemma sched_inv_spawn:
  assumes "sched_inv t0 s" "i < length (runners s)" "rpc (runners s ! i) = RAdd"
  shows "sched_inv t0 (set_runner i (after_dispatch (runners s ! i))
       (s\<lparr>wg := wg s + 1, goJobs := goJobs s @ [(job (rsched (runners s ! i)), JStart)]\<rparr>))"
proof -
  let ?s = "s\<lparr>wg := wg s + 1, goJobs := goJobs s @ [(job (rsched (runners s ! i)), JStart)]\<rparr>"
  let ?r = "after_dispatch (runners s ! i)"
  have "ticker_inv t0 (clock s) ?r"
    using assms unfolding after_dispatch_def by (intro ticker_inv_pc) (auto simp: sched_inv_def list_all_length)
  moreover have "slots ?s = slots s + 1" "live ?s = live s + 1"
    by (simp_all add: slots_def live_def slot_j_def live_j_def)
  ultimately show ?thesis using assms set_runner_counts [of i ?s ?r] live_pos(1) [of i s]
    by (auto simp: sched_inv_def list_all_upd slot_r_def live_r_def after_dispatch_def split: if_splits)
qed

lemma sched_inv_same:
  assumes "sched_inv t0 s" "runners u = runners s" "goJobs u = goJobs s" "sem u = sem s" "semCap u = semCap s"
    and "wg u = wg s" "clock s \<le> clock u" "stopping u = StopReturned \<Longrightarrow> wg u = 0"
    and "stopping u \<noteq> NotStopping \<Longrightarrow> ctxDone u"
  shows "sched_inv t0 u"
proof -
  have "list_all (ticker_inv t0 (clock u)) (runners u)"
    using assms(1,2) ticker_inv_mono [OF assms(7)] by (auto simp: sched_inv_def list_all_iff)
  then show ?thesis using assms counts_cong [of u s] by (simp add: sched_inv_def)
qed

lemmas move_simps = others_same_def slot_j_def live_j_def slot_r_def live_r_def sched_inv_def

lemma sched_inv_step:
  assumes "sched_step s u s'" "sched_inv t0 s"
  shows "sched_inv t0 s'"
  using assms(1)
proof (cases rule: sched_step.cases)
  case (time d)
  show ?thesis by (rule sched_inv_same [OF assms(2)]) (use time assms(2) in \<open>auto simp: sched_inv_def\<close>)
next
  case (runner i r)
  have "ticker_inv t0 (clock s) r"
    by (rule ticker_inv_step [OF runner(4)]) (use assms(2) runner(3) in \<open>auto simp: sched_inv_def list_all_length\<close>)
  then have "list_all (ticker_inv t0 (clock s)) ((runners s)[i := r])"
    using assms(2) by (simp add: sched_inv_def list_all_upd)
  moreover have "slots s' = slots s" "live s' = live s"
    using set_runner_counts [OF runner(3), of r] runner_step_counts [OF runner(4)] runner(2) by simp_all
  ultimately show ?thesis using assms(2) runner(2) by (auto simp: sched_inv_def)
next
  case (acquire i)
  show ?thesis unfolding acquire by (rule runner_move [OF assms(2)]) (use acquire assms(2) in \<open>simp_all add: move_simps\<close>)
next
  case (spawn i)
  then show ?thesis using sched_inv_spawn [OF assms(2)] by simp
next
  case (runner_exit i)
  have "0 < live s" by (rule live_pos(1) [of i]) (use runner_exit in simp_all)
  then show ?thesis unfolding runner_exit
    by (intro runner_move [OF assms(2)]) (use runner_exit assms(2) in \<open>simp_all add: move_simps\<close>)
next
  case (job_exit k j)
  have "0 < live s" by (rule live_pos(2) [of k]) (use job_exit in simp_all)
  then show ?thesis unfolding job_exit
    by (intro job_move [OF assms(2), where pc = JDone]) (use job_exit assms(2) in \<open>simp_all add: move_simps\<close>)
next
  case job_start
  show ?thesis unfolding job_start by (rule job_move [OF assms(2), where pc = JStart]) (use job_start in \<open>simp_all add: move_simps\<close>)
next
  case job_ok
  show ?thesis unfolding job_ok by (rule job_move [OF assms(2), where pc = JRun]) (use job_ok in \<open>simp_all add: move_simps\<close>)
next
  case job_error
  show ?thesis unfolding job_error by (rule job_move [OF assms(2), where pc = JRun]) (use job_error in \<open>simp_all add: move_simps\<close>)
next
  case job_release
  show ?thesis unfolding job_release by (rule job_move [OF assms(2), where pc = JRelease]) (use job_release in \<open>simp_all add: move_simps\<close>)
next
  case ctx_cancel
  show ?thesis by (rule sched_inv_same [OF assms(2)]) (use ctx_cancel assms(2) in \<open>auto simp: sched_inv_def\<close>)
next
  case stop_cancel
  show ?thesis by (rule sched_inv_same [OF assms(2)]) (use stop_cancel in simp_all)
next
  case stop_return
  show ?thesis by (rule sched_inv_same [OF assms(2)]) (use stop_return assms(2) in \<open>simp_all add: sched_inv_def\<close>)
qed

lemma sched_inv_init: "sched_Start t0 d sc = Some s \<Longrightarrow> sched_inv t0 s"
proof -
  have *: "sum_list (map slot_r (map (go_runner t0) xs)) = 0"
    "sum_list (map live_r (map (go_runner t0) xs)) = length xs" for xs :: "'a schedule list"
    by (induction xs) (simp_all add: go_runner_def slot_r_def live_r_def)
  assume "sched_Start t0 d sc = Some s"
  then show ?thesis
    using * by (auto simp: sched_Start_def sched_inv_def slots_def live_def go_runner_def ticker_inv_def
        list_all_iff split: if_splits)
qed

interpretation sc: step_invariant "\<lambda>s. sched_Start t0 d sch = Some s" sched_step "sched_inv t0" for t0 d sch
  by unfold_locales (auto intro: sched_inv_init sched_inv_step)

section \<open>After a cancellation\<close>

text \<open>How far a goroutine is from its end when the context is done.\<close>

fun load_r :: "rpc \<Rightarrow> nat" where
  "load_r RAdd = 7"
| "load_r RInit = 4"
| "load_r RDispatch = 3"
| "load_r RTimer = 2"
| "load_r RDone = 1"
| "load_r RExit = 0"

fun load_j :: "jpc \<Rightarrow> nat" where
  "load_j JStart = 4"
| "load_j JRun = 3"
| "load_j JRelease = 2"
| "load_j JDone = 1"
| "load_j JExit = 0"

definition load :: "('f, 'h) system \<Rightarrow> nat" where
  "load s = sum_list (map (load_r \<circ> rpc) (runners s)) + sum_list (map (load_j \<circ> snd) (goJobs s))"

definition nearer :: "('f, 'h) system \<Rightarrow> ('f, 'h) system \<Rightarrow> bool" where
  "nearer s s' \<longleftrightarrow> load s' < load s \<and> ctxDone s' = ctxDone s \<and> stopping s' = stopping s"

lemma nearer_runner:
  assumes "i < length (runners s)" "load_r (rpc r) < load_r (rpc (runners s ! i))" "others_same s u"
  shows "nearer s (set_runner i r u)"
  using assms sum_list_update_eq [OF assms(1), of "load_r \<circ> rpc" r]
  by (simp add: nearer_def load_def others_same_def)

lemma nearer_job:
  assumes "k < length (goJobs s)" "goJobs s ! k = (j, pc)" "load_j pc' < load_j pc" "others_same s u"
  shows "nearer s (set_job k j pc' u)"
  using assms sum_list_update_eq [OF assms(1), of "load_j \<circ> snd" "(j, pc')"]
  by (simp add: nearer_def load_def others_same_def)

lemma runner_progress:
  assumes "ctxDone s" "i < length (runners s)" "rpc (runners s ! i) \<noteq> RExit"
  shows "\<exists>s'. sched_step s () s' \<and> nearer s s'"
proof (cases "rpc (runners s ! i)")
  case RInit
  obtain r where "runner_step s (runners s ! i) r" "load_r (rpc r) < load_r (rpc (runners s ! i))"
    using runner_step.new_ticker [OF RInit, of s] runner_step.new_timer [OF RInit, of s] RInit
    by (cases "periodic (rsched (runners s ! i))") fastforce+
  then show ?thesis
    using sched_step.runner [OF assms(2)] nearer_runner [OF assms(2)] by (fastforce simp: others_same_def)
next
  case RTimer
  from sched_step.runner [OF assms(2) runner_step.timer_done [OF RTimer assms(1)]] show ?thesis
    using nearer_runner [OF assms(2)] RTimer by (fastforce simp: others_same_def)
next
  case RDispatch
  have "load_r (rpc (after_dispatch (runners s ! i))) < load_r (rpc (runners s ! i))"
    by (simp add: RDispatch after_dispatch_def)
  with sched_step.runner [OF assms(2) runner_step.dispatch_done [OF RDispatch assms(1)]] show ?thesis
    using nearer_runner [OF assms(2)] by (fastforce simp: others_same_def)
next
  case RAdd
  let ?u = "s\<lparr>wg := wg s + 1, goJobs := goJobs s @ [(job (rsched (runners s ! i)), JStart)]\<rparr>"
  have "nearer s (set_runner i (after_dispatch (runners s ! i)) ?u)"
    using sum_list_update_eq [OF assms(2), of "load_r \<circ> rpc" "after_dispatch (runners s ! i)"] RAdd
    by (simp add: nearer_def load_def after_dispatch_def split: if_splits)
  with sched_step.spawn [OF assms(2) RAdd] show ?thesis by blast
next
  case RDone
  from sched_step.runner_exit [OF assms(2) this] show ?thesis
    using nearer_runner [OF assms(2)] RDone by (fastforce simp: others_same_def)
qed (use assms(3) in simp)

lemma job_progress:
  assumes "sched_inv t0 s" "k < length (goJobs s)" "snd (goJobs s ! k) \<noteq> JExit"
  shows "\<exists>s'. sched_step s () s' \<and> nearer s s'"
proof -
  obtain j pc where jpc: "goJobs s ! k = (j, pc)" by (cases "goJobs s ! k")
  note near = nearer_job [OF assms(2) jpc]
  show ?thesis
  proof (cases pc)
    case JStart
    with sched_step.job_start [OF assms(2)] jpc near show ?thesis by (fastforce simp: others_same_def)
  next
    case JRun
    with sched_step.job_ok [OF assms(2)] jpc near show ?thesis by (fastforce simp: others_same_def)
  next
    case JRelease
    have "0 < sem s"
      using assms(1) jpc JRelease sum_list_update_eq [OF assms(2), of slot_j "(j, JDone)"]
      by (simp add: sched_inv_def slots_def slot_j_def)
    with JRelease sched_step.job_release [OF assms(2)] jpc near show ?thesis by (fastforce simp: others_same_def)
  next
    case JDone
    with sched_step.job_exit [OF assms(2)] jpc near show ?thesis by (fastforce simp: others_same_def)
  qed (use assms(3) jpc in simp)
qed

lemma live_0: "live s = 0 \<longleftrightarrow> list_all (\<lambda>r. rpc r = RExit) (runners s) \<and> list_all (\<lambda>x. snd x = JExit) (goJobs s)"
  by (auto simp: live_def live_r_def live_j_def list_all_iff split: if_splits)

interpretation sched_drain: step_progress sched_step
    "\<lambda>s. sched_inv t0 s \<and> ctxDone s \<and> stopping s = st" "\<lambda>s. live s = 0" load for t0 st
proof
  fix s :: "('f, 'h) system"
  assume inv: "sched_inv t0 s \<and> ctxDone s \<and> stopping s = st" and "live s \<noteq> 0"
  then obtain s' where "sched_step s () s'" "nearer s s'"
    using runner_progress [of s] job_progress [of t0 s] by (auto simp: live_0 list_all_length)
  then show "\<exists>e s'. sched_step s e s' \<and> (sched_inv t0 s' \<and> ctxDone s' \<and> stopping s' = st) \<and> load s' < load s"
    using inv sched_inv_step [of s "()" s' t0] by (intro exI [of _ "()"] exI [of _ s']) (auto simp: nearer_def)
qed

section \<open>Configuration and reports\<close>

fun is_failure :: "log_line \<Rightarrow> bool" where
  "is_failure (JobFailed n e) = True"
| "is_failure _ = False"

definition config_inv :: "('f, 'h, 'l) Scheduler \<Rightarrow> ('f, 'h) system \<Rightarrow> bool" where
  "config_inv sch s \<longleftrightarrow> int (semCap s) = workers sch \<and> map rsched (runners s) = schedules sch \<and>
     hook s = onError (opts sch) \<and>
     map (\<lambda>(h, j, e). (Some h, JobFailed (Name j) e)) (reported s) =
       (if onError (opts sch) = None then [] else map (Pair (onError (opts sch))) (filter is_failure (logged s)))"

lemma runner_step_sched: "runner_step s r r' \<Longrightarrow> rsched r' = rsched r"
  by (cases rule: runner_step.cases) (auto simp: after_dispatch_def)

lemma map_rsched_upd: "rsched r = rsched (rs ! i) \<Longrightarrow> map rsched (rs[i := r]) = map rsched rs"
  by (metis list_update_id map_update)

lemma config_inv_step:
  assumes "sched_step s u s'" "config_inv sch s"
  shows "config_inv sch s'"
  using assms(1)
proof (cases rule: sched_step.cases)
  case (runner i r)
  then show ?thesis using assms(2) map_rsched_upd [OF runner_step_sched [OF runner(4)]]
    by (simp add: config_inv_def set_runner_def)
next
  case (acquire i)
  then show ?thesis using assms(2) by (simp add: config_inv_def set_runner_def map_rsched_upd)
next
  case (spawn i)
  then show ?thesis using assms(2) by (simp add: config_inv_def set_runner_def map_rsched_upd after_dispatch_def)
next
  case (runner_exit i)
  then show ?thesis using assms(2) by (simp add: config_inv_def set_runner_def map_rsched_upd)
qed (use assms(2) in \<open>auto simp: config_inv_def set_job_def split: option.splits\<close>)

lemma config_inv_init: "sched_Start t0 d sch = Some s \<Longrightarrow> config_inv sch s"
  by (auto simp: sched_Start_def config_inv_def go_runner_def comp_def split: if_splits)

interpretation cf: step_invariant "\<lambda>s. sched_Start t0 d sch = Some s" sched_step "config_inv sch" for t0 d sch
  by unfold_locales (auto intro: config_inv_init config_inv_step)

lemma running_le_slots: "length (running_jobs s) \<le> slots s"
proof -
  have "length (filter (\<lambda>x. snd x = JRun) js) \<le> sum_list (map slot_j js)" for js :: "('a sched_Job \<times> jpc) list"
    by (induction js) (auto simp: slot_j_def)
  then show ?thesis by (simp add: running_jobs_def slots_def trans_le_add2)
qed

lemma periodic_runs:
  assumes "ticker_inv t0 now r" "periodic (rsched r)" "0 < runs r"
  shows "int (runs r) \<le> 1 + (now - t0) div interval (rsched r)"
proof -
  have "int (fired r) * interval (rsched r) \<le> now - t0" "int (runs r) \<le> 1 + int (fired r)" "0 < interval (rsched r)"
    using assms by (auto simp: ticker_inv_def periodic_def split: if_splits)
  then have "int (fired r) \<le> (now - t0) div interval (rsched r)"
    using zdiv_mono1 [of "int (fired r) * interval (rsched r)" "now - t0" "interval (rsched r)"] by simp
  then show ?thesis using \<open>int (runs r) \<le> 1 + int (fired r)\<close> by simp
qed

section \<open>Properties\<close>


text \<open>
  C29. \<open>Stop\<close>: when it has returned, no goroutine of the scheduler is left and no job function is
  running; and when it has cancelled the context it does return, provided the job functions do: from
  any state in which it waits, steps of the goroutines lead to its return.
\<close>

theorem sched_Stop:
  assumes "reach (\<lambda>s. sched_Start t0 d sch = Some s) sched_step s"
  shows "(stopping s = StopReturned \<longrightarrow> running_jobs s = [] \<and> list_all (\<lambda>r. rpc r = RExit) (runners s) \<and>
      list_all (\<lambda>x. snd x = JExit) (goJobs s)) \<and>
    (stopping s = StopWait \<longrightarrow>
      (\<exists>s'. runs_to sched_step s s' \<and> stopping s' = StopReturned))"
proof (intro conjI impI)
  have inv: "sched_inv t0 s" using assms by (rule sc.reach_inv)
  {
    assume "stopping s = StopReturned"
    then have "live s = 0" using inv by (simp add: sched_inv_def)
    then show "list_all (\<lambda>r. rpc r = RExit) (runners s)" "list_all (\<lambda>x. snd x = JExit) (goJobs s)"
      by (simp_all add: live_0)
    then show "running_jobs s = []" by (auto simp: running_jobs_def list_all_iff filter_empty_conv)
  next
    assume w: "stopping s = StopWait"
    then obtain s' where s': "runs_to sched_step s s'" "live s' = 0" "stopping s' = StopWait" "sched_inv t0 s'"
      using sched_drain.reaches_goal [of t0 s StopWait] inv by (auto simp: sched_inv_def)
    then have "sched_step s' () (s'\<lparr>stopping := StopReturned\<rparr>)"
      by (intro sched_step.stop_return) (simp_all add: sched_inv_def)
    with s'(1) have "runs_to sched_step s (s'\<lparr>stopping := StopReturned\<rparr>)" by (rule runs_to_last)
    then show "\<exists>s'. runs_to sched_step s s' \<and> stopping s' = StopReturned" by force
  }
qed

text \<open>With no workers no job ever runs.\<close>

lemma sched_no_workers:
  assumes "reach (\<lambda>s. sched_Start t0 d sch = Some s) sched_step s" "workers sch = 0"
  shows "running_jobs s = []"
proof -
  have "length (running_jobs s) \<le> semCap s" "semCap s = 0"
    using running_le_slots [of s] sc.reach_inv [OF assms(1)] cf.reach_inv [OF assms(1)] assms(2)
    by (auto simp: sched_inv_def config_inv_def)
  then show ?thesis by simp
qed

definition demo_sched :: "(unit, unit, unit) Scheduler" where
  "demo_sched = sched_After 5 ''warmup'' () (sched_Every 10 ''cleanup'' () (sched_New () 1 []))"

lemma demo_sched_Start:
  "sched_Start 0 False demo_sched = Some \<lparr>clock = 0, ctxDone = False, sem = 0, semCap = 1,
     runners = [go_runner 0 (schedules demo_sched ! 0), go_runner 0 (schedules demo_sched ! 1)], goJobs = [], wg = 2,
     hook = None, logged = [], reported = [], stopping = NotStopping\<rparr>"
  by (simp add: demo_sched_def sched_After_def sched_Every_def sched_New_def sched_Start_def)


theorem sched_Stop_witness:
  "\<exists>s s'. sched_Start 0 False demo_sched = Some s \<and> runs_to sched_step s s' \<and> stopping s' = StopReturned"
proof -
  obtain s where s: "sched_Start 0 False demo_sched = Some s" "stopping s = NotStopping"
    using demo_sched_Start by simp
  have "reach (\<lambda>s. sched_Start 0 False demo_sched = Some s) sched_step s" by (rule reach_start) (rule s(1))
  moreover have st: "sched_step s () (s\<lparr>ctxDone := True, stopping := StopWait\<rparr>)" using s(2) by (rule sched_step.stop_cancel)
  ultimately have "reach (\<lambda>s. sched_Start 0 False demo_sched = Some s) sched_step (s\<lparr>ctxDone := True, stopping := StopWait\<rparr>)"
    by (rule reach_step)
  from sched_Stop [OF this] obtain s' where
    "runs_to sched_step (s\<lparr>ctxDone := True, stopping := StopWait\<rparr>) s'" "stopping s' = StopReturned" by auto
  with runs_to_first [of sched_step, OF st] s(1) show ?thesis by blast
qed

end
