(* ===== verification/Future.thy ===== *)
theory Future
  imports GoStd
begin

text \<open>
  Futures and their combinators, \<open>pkg/async/future.go\<close>. The goroutine of \<open>Async\<close>, the callers of
  \<open>Await\<close> (the goroutines of \<open>All\<close> or \<open>Race\<close> and any number of others, each with its context) and the
  body of the combinator interleave; the functions of the futures end at any time with any result.
\<close>

section \<open>Futures\<close>

record 'a result =
  rval :: 'a
  rerr :: "err option"

datatype once = OnceNew | OnceRunning | OnceDone

text \<open>\<open>res\<close> has no meaning before the once is done; Go leaves the zero value there.\<close>

record 'a Future =
  ch :: "'a result option"
  once :: once
  res :: "'a result"

definition Async :: "'a \<Rightarrow> 'a Future" where
  "Async zero = \<lparr>ch = None, once = OnceNew, res = \<lparr>rval = zero, rerr = None\<rparr>\<rparr>"

text \<open>
  A call of \<open>Await\<close>: before \<open>once.Do\<close> (where it also waits while another call is inside), in the select,
  about to return a result, and, for a goroutine of a combinator, after it has sent it on.
\<close>

datatype 'a await_pc = AStart | ASelect | AReturn "'a result" | AEnd

inductive await_step :: "'a \<Rightarrow> err option \<Rightarrow> 'a Future \<times> 'a await_pc \<Rightarrow> 'a Future \<times> 'a await_pc \<Rightarrow> bool"
  for zero :: 'a and ctx_err :: "err option" where
  once_enter: "once f = OnceNew \<Longrightarrow> await_step zero ctx_err (f, AStart) (f\<lparr>once := OnceRunning\<rparr>, ASelect)"
| once_skip: "once f = OnceDone \<Longrightarrow> await_step zero ctx_err (f, AStart) (f, AReturn (res f))"
| await_value: "ch f = Some r \<Longrightarrow>
     await_step zero ctx_err (f, ASelect) (f\<lparr>ch := None, res := r, once := OnceDone\<rparr>, AReturn r)"
| await_ctx: "ctx_err = Some e \<Longrightarrow>
     await_step zero ctx_err (f, ASelect)
       (f\<lparr>res := \<lparr>rval = zero, rerr = Some e\<rparr>, once := OnceDone\<rparr>, AReturn \<lparr>rval = zero, rerr = Some e\<rparr>)"

inductive_cases await_stepE: "await_step zero c (f, pc) (f', pc')"

section \<open>All and Race\<close>

record 'a caller =
  cfut :: nat
  cctx :: nat
  cpc :: "'a await_pc"

text \<open>
  Where the combinator is: \<open>All\<close> with the number of results it still waits for and the slice of
  results, \<open>Race\<close> in its select, or returned.
\<close>

datatype 'a main =
    AllLoop nat "'a list"
  | AllRet "'a list option" "err option"
  | RaceWait
  | RaceRet 'a "err option"

text \<open>
  \<open>fnret\<close> is what the function of each future has returned, \<open>ctxs\<close> the errors of the contexts, of which 0
  is the one that the combinator derives and cancels. The first callers are the combinator's
  goroutines, one for each of \<open>args\<close>. \<open>out\<close> is the channel \<open>merge\<close> or \<open>winner\<close>, where \<open>Race\<close> sends no
  index; \<open>got\<close> are the indices that have been received.
\<close>

record 'a fsys =
  zero :: 'a
  fut :: "'a Future list"
  fnret :: "'a result option list"
  ctxs :: "nat \<Rightarrow> err option"
  args :: "nat list"
  callers :: "'a caller list"
  out :: "(nat \<times> 'a result) list"
  got :: "nat list"
  main :: "'a main"

definition go_callers :: "nat list \<Rightarrow> 'a caller list" where
  "go_callers is = map (\<lambda>i. \<lparr>cfut = i, cctx = 0, cpc = AStart\<rparr>) is"

definition combinator :: "'a \<Rightarrow> nat \<Rightarrow> nat list \<Rightarrow> 'a main \<Rightarrow> 'a fsys" where
  "combinator z n is m = \<lparr>zero = z, fut = replicate n (Async z), fnret = replicate n None, ctxs = (\<lambda>_. None),
     args = is, callers = go_callers is, out = [], got = [], main = m\<rparr>"

definition All :: "'a \<Rightarrow> nat \<Rightarrow> nat list \<Rightarrow> 'a fsys" where
  "All z n is = combinator z n is (AllLoop (length is) (replicate (length is) z))"

definition Race :: "'a \<Rightarrow> nat \<Rightarrow> nat list \<Rightarrow> 'a fsys" where
  "Race z n is = combinator z n is RaceWait"

fun is_race :: "'a main \<Rightarrow> bool" where
  "is_race RaceWait = True"
| "is_race (RaceRet v e) = True"
| "is_race _ = False"

definition cancel0 :: "(nat \<Rightarrow> err option) \<Rightarrow> nat \<Rightarrow> err option" where
  "cancel0 c = (if c 0 = None then c(0 := Some Canceled) else c)"

inductive main_step :: "'a fsys \<Rightarrow> 'a fsys \<Rightarrow> bool" where
  all_ctx: "main s = AllLoop (Suc n) vs \<Longrightarrow> ctxs s 0 = Some e \<Longrightarrow>
     main_step s (s\<lparr>main := AllRet None (Some e)\<rparr>)"
| all_error: "main s = AllLoop (Suc n) vs \<Longrightarrow> out s = (k, r) # q \<Longrightarrow> rerr r = Some e \<Longrightarrow>
     main_step s (s\<lparr>out := q, got := got s @ [k], ctxs := cancel0 (ctxs s), main := AllRet None (Some e)\<rparr>)"
| all_value: "main s = AllLoop (Suc n) vs \<Longrightarrow> out s = (k, r) # q \<Longrightarrow> rerr r = None \<Longrightarrow>
     main_step s (s\<lparr>out := q, got := got s @ [k], main := AllLoop n (vs[k := rval r])\<rparr>)"
| all_return: "main s = AllLoop 0 vs \<Longrightarrow>
     main_step s (s\<lparr>ctxs := cancel0 (ctxs s), main := AllRet (Some vs) None\<rparr>)"
| race_ctx: "main s = RaceWait \<Longrightarrow> ctxs s 0 = Some e \<Longrightarrow>
     main_step s (s\<lparr>main := RaceRet (zero s) (Some e)\<rparr>)"
| race_value: "main s = RaceWait \<Longrightarrow> out s = (k, r) # q \<Longrightarrow>
     main_step s (s\<lparr>out := q, got := got s @ [k], ctxs := cancel0 (ctxs s), main := RaceRet (rval r) (rerr r)\<rparr>)"

inductive fsys_step :: "'a fsys \<Rightarrow> unit \<Rightarrow> 'a fsys \<Rightarrow> bool" where
  resolve: "i < length (fut s) \<Longrightarrow> fnret s ! i = None \<Longrightarrow>
     fsys_step s () (s\<lparr>fnret := (fnret s)[i := Some r], fut := (fut s)[i := (fut s ! i)\<lparr>ch := Some r\<rparr>]\<rparr>)"
| ctx_end: "ctxs s x = None \<Longrightarrow> e \<in> {Canceled, DeadlineExceeded} \<Longrightarrow> fsys_step s () (s\<lparr>ctxs := (ctxs s)(x := Some e)\<rparr>)"
| new_call: "i < length (fut s) \<Longrightarrow> 0 < x \<Longrightarrow>
     fsys_step s () (s\<lparr>callers := callers s @ [\<lparr>cfut = i, cctx = x, cpc = AStart\<rparr>]\<rparr>)"
| await: "k < length (callers s) \<Longrightarrow> c = callers s ! k \<Longrightarrow>
     await_step (zero s) (ctxs s (cctx c)) (fut s ! cfut c, cpc c) (f, pc) \<Longrightarrow>
     fsys_step s () (s\<lparr>fut := (fut s)[cfut c := f], callers := (callers s)[k := c\<lparr>cpc := pc\<rparr>]\<rparr>)"
| send: "k < length (args s) \<Longrightarrow> c = callers s ! k \<Longrightarrow> cpc c = AReturn r \<Longrightarrow> length (out s) < length (args s) \<Longrightarrow>
     fsys_step s () (s\<lparr>callers := (callers s)[k := c\<lparr>cpc := AEnd\<rparr>], out := out s @ [(k, r)]\<rparr>)"
| race_drop: "k < length (args s) \<Longrightarrow> c = callers s ! k \<Longrightarrow> cpc c = AReturn r \<Longrightarrow> is_race (main s) \<Longrightarrow>
     length (args s) \<le> length (out s) \<Longrightarrow> fsys_step s () (s\<lparr>callers := (callers s)[k := c\<lparr>cpc := AEnd\<rparr>]\<rparr>)"
| body: "main_step s s' \<Longrightarrow> fsys_step s () s'"

section \<open>The cached result\<close>

abbreviation ctx_errors :: "err set" where "ctx_errors \<equiv> {Canceled, DeadlineExceeded}"

text \<open>A result is what the function returned, or the error of a context that ended first.\<close>

definition settled :: "'a \<Rightarrow> 'a result option \<Rightarrow> 'a result \<Rightarrow> bool" where
  "settled z ret r \<longleftrightarrow> ret = Some r \<or> rval r = z \<and> rerr r \<in> Some ` ctx_errors"

text \<open>A future, what its function returned and the number of calls inside its once.\<close>

definition fut_ok :: "'a \<Rightarrow> 'a Future \<Rightarrow> 'a result option \<Rightarrow> nat \<Rightarrow> bool" where
  "fut_ok z f ret n \<longleftrightarrow> (ch f = None \<or> ch f = ret) \<and> (once f = OnceDone \<or> ch f = ret) \<and>
     (once f = OnceDone \<longrightarrow> settled z ret (res f)) \<and> n = of_bool (once f = OnceRunning)"

definition inside :: "nat \<Rightarrow> 'a caller \<Rightarrow> nat" where
  "inside i c = of_bool (cfut c = i \<and> cpc c = ASelect)"

definition caller_ok :: "'a fsys \<Rightarrow> 'a caller \<Rightarrow> bool" where
  "caller_ok s c \<longleftrightarrow> cfut c < length (fut s) \<and>
     (case cpc c of
        AReturn r \<Rightarrow> once (fut s ! cfut c) = OnceDone \<and> res (fut s ! cfut c) = r
      | AEnd \<Rightarrow> once (fut s ! cfut c) = OnceDone
      | _ \<Rightarrow> True)"

definition base_inv :: "'a fsys \<Rightarrow> bool" where
  "base_inv s \<longleftrightarrow> length (fnret s) = length (fut s) \<and> (\<forall>x e. ctxs s x = Some e \<longrightarrow> e \<in> ctx_errors) \<and>
     (\<forall>i < length (fut s). fut_ok (zero s) (fut s ! i) (fnret s ! i) (sum_list (map (inside i) (callers s)))) \<and>
     list_all (caller_ok s) (callers s)"

lemma fut_ok_await:
  assumes "await_step z c (f, pc) (f', pc')" "fut_ok z f ret n" "\<And>e. c = Some e \<Longrightarrow> e \<in> ctx_errors"
    and "n' + of_bool (pc = ASelect) = n + of_bool (pc' = ASelect)"
  shows "fut_ok z f' ret n'"
  using assms(1)
proof (cases rule: await_step.cases)
  case (await_ctx e)
  then have "settled z ret (res f')" using assms(3) by (simp add: settled_def)
  then show ?thesis using assms(2,4) await_ctx by (auto simp: fut_ok_def of_bool_def split: if_splits)
qed (use assms(2,4) in \<open>auto simp: fut_ok_def settled_def of_bool_def split: if_splits\<close>)

lemma await_stable:
  assumes "await_step z c (f, pc) (f', pc')" "fut_ok z f ret n" "of_bool (pc = ASelect) \<le> n" "once f = OnceDone"
  shows "once f' = OnceDone \<and> res f' = res f"
  using assms by (elim await_stepE) (auto simp: fut_ok_def)

lemma await_returns:
  assumes "await_step z c (f, pc) (f', pc')"
  shows "case pc' of AReturn r \<Rightarrow> once f' = OnceDone \<and> res f' = r | AEnd \<Rightarrow> False | _ \<Rightarrow> True"
  using assms by (elim await_stepE) auto

text \<open>Once the result of a future is settled it never changes, and no function returns twice.\<close>

definition stable :: "'a fsys \<Rightarrow> 'a fsys \<Rightarrow> bool" where
  "stable s s' \<longleftrightarrow> length (fut s') = length (fut s) \<and> zero s' = zero s \<and> args s' = args s \<and>
     (\<forall>i < length (fut s). (once (fut s ! i) = OnceDone \<longrightarrow>
        once (fut s' ! i) = OnceDone \<and> res (fut s' ! i) = res (fut s ! i)) \<and>
       (\<forall>r. fnret s ! i = Some r \<longrightarrow> fnret s' ! i = Some r))"

lemma inside_upd:
  "k < length cs \<Longrightarrow> sum_list (map (inside i) (cs[k := c])) + inside i (cs ! k) = sum_list (map (inside i) cs) + inside i c"
  by (rule sum_list_update_eq)

lemma inside_le:
  assumes "k < length cs"
  shows "inside i (cs ! k) \<le> sum_list (map (inside i) cs)"
  using assms by (simp add: elem_le_sum_list [of k "map (inside i) cs", simplified])

lemma main_step_frame:
  assumes "main_step s s'"
  shows "fut s' = fut s" "fnret s' = fnret s" "callers s' = callers s" "zero s' = zero s" "args s' = args s"
    "ctxs s' = ctxs s \<or> ctxs s' = cancel0 (ctxs s)"
  using assms by (cases rule: main_step.cases; simp)+

lemma caller_ok_mono:
  assumes "stable s s'" "caller_ok s c"
  shows "caller_ok s' c"
  using assms by (auto simp: caller_ok_def stable_def split: await_pc.splits)

text \<open>What a step of a caller or of a function does to the futures.\<close>

lemma stable_await:
  assumes "base_inv s" "k < length (callers s)" "c = callers s ! k"
    and "await_step (zero s) (ctxs s (cctx c)) (fut s ! cfut c, cpc c) (f, pc)"
  shows "stable s (s\<lparr>fut := (fut s)[cfut c := f], callers := (callers s)[k := c\<lparr>cpc := pc\<rparr>]\<rparr>)"
proof -
  have c: "cfut c < length (fut s)"
    using assms(1,2,3) by (auto simp: base_inv_def list_all_length caller_ok_def)
  have "of_bool (cpc c = ASelect) \<le> sum_list (map (inside (cfut c)) (callers s))"
    using inside_le [OF assms(2), of "cfut c"] assms(3) by (simp add: inside_def)
  then have "once (fut s ! cfut c) = OnceDone \<Longrightarrow> once f = OnceDone \<and> res f = res (fut s ! cfut c)"
    using await_stable [OF assms(4), of "fnret s ! cfut c"] assms(1) c by (auto simp: base_inv_def)
  then show ?thesis using c by (auto simp: stable_def nth_list_update)
qed

lemma base_inv_await:
  assumes "base_inv s" "k < length (callers s)" "c = callers s ! k"
    and st: "await_step (zero s) (ctxs s (cctx c)) (fut s ! cfut c, cpc c) (f, pc)"
  shows "base_inv (s\<lparr>fut := (fut s)[cfut c := f], callers := (callers s)[k := c\<lparr>cpc := pc\<rparr>]\<rparr>)"
proof -
  let ?s = "s\<lparr>fut := (fut s)[cfut c := f], callers := (callers s)[k := c\<lparr>cpc := pc\<rparr>]\<rparr>"
  have c: "cfut c < length (fut s)"
    using assms(1,2,3) by (auto simp: base_inv_def list_all_length caller_ok_def)
  have "fut_ok (zero s) (fut ?s ! i) (fnret s ! i) (sum_list (map (inside i) (callers ?s)))" if "i < length (fut s)" for i
  proof -
    have ok: "fut_ok (zero s) (fut s ! i) (fnret s ! i) (sum_list (map (inside i) (callers s)))"
      using assms(1) that by (simp add: base_inv_def)
    have sum: "sum_list (map (inside i) (callers ?s)) + inside i c = sum_list (map (inside i) (callers s)) + inside i (c\<lparr>cpc := pc\<rparr>)"
      using inside_upd [OF assms(2)] assms(3) by simp
    show ?thesis
    proof (cases "i = cfut c")
      case True
      have "fut_ok (zero s) f (fnret s ! i) (sum_list (map (inside i) (callers ?s)))"
        by (rule fut_ok_await [OF st ok [unfolded True], folded True])
          (use assms(1) sum True in \<open>auto simp: base_inv_def inside_def\<close>)
      then show ?thesis using True c by simp
    next
      case False
      then show ?thesis using ok sum by (simp add: inside_def)
    qed
  qed
  moreover have "list_all (caller_ok ?s) ((callers s)[k := c\<lparr>cpc := pc\<rparr>])"
  proof (rule list_all_upd)
    show "list_all (caller_ok ?s) (callers s)"
      using assms(1) caller_ok_mono [OF stable_await [OF assms]] by (auto simp: base_inv_def list_all_iff)
    show "caller_ok ?s (c\<lparr>cpc := pc\<rparr>)"
      using await_returns [OF st] c by (simp add: caller_ok_def split: await_pc.splits)
  qed
  ultimately show ?thesis using assms(1) by (simp add: base_inv_def)
qed

lemma base_inv_resolve:
  assumes "base_inv s" "i < length (fut s)" "fnret s ! i = None"
  shows "base_inv (s\<lparr>fnret := (fnret s)[i := Some r], fut := (fut s)[i := (fut s ! i)\<lparr>ch := Some r\<rparr>]\<rparr>)"
    "stable s (s\<lparr>fnret := (fnret s)[i := Some r], fut := (fut s)[i := (fut s ! i)\<lparr>ch := Some r\<rparr>]\<rparr>)"
proof -
  let ?s = "s\<lparr>fnret := (fnret s)[i := Some r], fut := (fut s)[i := (fut s ! i)\<lparr>ch := Some r\<rparr>]\<rparr>"
  show st: "stable s ?s" using assms by (auto simp: stable_def nth_list_update base_inv_def)
  have "fut_ok (zero s) (fut s ! i) None n \<Longrightarrow> fut_ok (zero s) ((fut s ! i)\<lparr>ch := Some r\<rparr>) (Some r) n" for n
    by (auto simp: fut_ok_def settled_def)
  moreover have "list_all (caller_ok ?s) (callers s)"
    using assms(1) caller_ok_mono [OF st] by (auto simp: base_inv_def list_all_iff)
  ultimately show "base_inv ?s" using assms by (auto simp: base_inv_def nth_list_update)
qed

lemma base_inv_frame:
  assumes "base_inv s" "fut s' = fut s" "fnret s' = fnret s" "zero s' = zero s" "callers s' = callers s"
    and "\<forall>x e. ctxs s' x = Some e \<longrightarrow> e \<in> ctx_errors"
  shows "base_inv s'"
proof -
  have "caller_ok s' = caller_ok s" by (rule ext) (simp add: caller_ok_def assms(2) cong: await_pc.case_cong)
  then show ?thesis using assms by (simp add: base_inv_def)
qed

lemma stable_refl: "fut s' = fut s \<Longrightarrow> fnret s' = fnret s \<Longrightarrow> zero s' = zero s \<Longrightarrow> args s' = args s \<Longrightarrow> stable s s'"
  by (simp add: stable_def)

lemma cancel0_errors: "\<forall>x e. c x = Some e \<longrightarrow> e \<in> ctx_errors \<Longrightarrow> \<forall>x e. cancel0 c x = Some e \<longrightarrow> e \<in> ctx_errors"
  by (auto simp: cancel0_def)

lemma base_inv_end:
  assumes "base_inv s" "k < length (callers s)" "c = callers s ! k" "cpc c = AReturn r"
    and "fut s' = fut s" "fnret s' = fnret s" "zero s' = zero s" "ctxs s' = ctxs s"
    and "callers s' = (callers s)[k := c\<lparr>cpc := AEnd\<rparr>]"
  shows "base_inv s'"
proof -
  have eq: "caller_ok s' = caller_ok s" by (rule ext) (simp add: caller_ok_def assms(5) cong: await_pc.case_cong)
  have "list_all (caller_ok s') (callers s')"
    unfolding assms(9) eq using assms(1-4) by (intro list_all_upd) (auto simp: base_inv_def list_all_length caller_ok_def)
  moreover have "sum_list (map (inside i) (callers s')) = sum_list (map (inside i) (callers s))" for i
    using inside_upd [OF assms(2), of i "c\<lparr>cpc := AEnd\<rparr>"] assms(3,4,9) by (simp add: inside_def)
  ultimately show ?thesis using assms by (simp add: base_inv_def)
qed

definition out_inv :: "'a fsys \<Rightarrow> bool" where
  "out_inv s \<longleftrightarrow> length (args s) \<le> length (callers s) \<and> (\<forall>k < length (args s). cfut (callers s ! k) = args s ! k) \<and>
     distinct (got s @ map fst (out s)) \<and>
     (\<forall>k. k \<in> set (got s @ map fst (out s)) \<longleftrightarrow> k < length (args s) \<and> cpc (callers s ! k) = AEnd) \<and>
     (\<forall>x \<in> set (out s). res (fut s ! (args s ! fst x)) = snd x)"

lemma delivered_done:
  assumes "base_inv s" "out_inv s" "k \<in> set (got s @ map fst (out s))"
  shows "k < length (args s) \<and> args s ! k < length (fut s) \<and> once (fut s ! (args s ! k)) = OnceDone"
proof -
  have "k < length (args s)" "cpc (callers s ! k) = AEnd" "cfut (callers s ! k) = args s ! k" "k < length (callers s)"
    using assms(2,3) by (auto simp: out_inv_def)
  moreover from this have "caller_ok s (callers s ! k)" using assms(1) by (simp add: base_inv_def list_all_length)
  ultimately show ?thesis by (simp add: caller_ok_def)
qed

text \<open>A channel of the size of the arguments has room for every goroutine that has not sent.\<close>

lemma out_room:
  assumes "out_inv s" "k < length (args s)" "cpc (callers s ! k) \<noteq> AEnd"
  shows "length (got s) + length (out s) < length (args s)"
proof -
  have "set (got s @ map fst (out s)) \<subseteq> {..< length (args s)} - {k}" using assms by (auto simp: out_inv_def)
  then have "card (set (got s @ map fst (out s))) \<le> card ({..< length (args s)} - {k})" by (intro card_mono) auto
  also have "card (set (got s @ map fst (out s))) = length (got s) + length (out s)"
    using assms(1) distinct_card [of "got s @ map fst (out s)"] by (simp add: out_inv_def)
  also have "card ({..< length (args s)} - {k}) < length (args s)" using assms(2) by simp
  finally show ?thesis by simp
qed

lemma out_inv_keep:
  assumes "base_inv s" "out_inv s" "stable s s'" "out s' = out s" "got s' = got s"
    and "length (callers s) \<le> length (callers s')"
    and "\<And>k. k < length (args s) \<Longrightarrow> cfut (callers s' ! k) = cfut (callers s ! k) \<and>
      (cpc (callers s' ! k) = AEnd \<longleftrightarrow> cpc (callers s ! k) = AEnd)"
  shows "out_inv s'"
proof -
  have "res (fut s' ! (args s ! fst x)) = snd x" if "x \<in> set (out s)" for x
    using delivered_done [OF assms(1,2), of "fst x"] that assms(2,3) by (auto simp: out_inv_def stable_def)
  moreover have "args s' = args s" using assms(3) by (simp add: stable_def)
  ultimately show ?thesis using assms(2,4-7) by (auto simp: out_inv_def)
qed

lemma out_inv_send:
  assumes "out_inv s" "base_inv s" "k < length (args s)" "cpc (callers s ! k) = AReturn r"
  shows "out_inv (s\<lparr>callers := (callers s)[k := (callers s ! k)\<lparr>cpc := AEnd\<rparr>], out := out s @ [(k, r)]\<rparr>)"
proof -
  have k: "k < length (callers s)" "cfut (callers s ! k) = args s ! k" "k \<notin> set (got s @ map fst (out s))"
    using assms(1,3,4) by (auto simp: out_inv_def)
  have "caller_ok s (callers s ! k)" using assms(2) k(1) by (simp add: base_inv_def list_all_length)
  then have "res (fut s ! (args s ! k)) = r" using assms(4) k(2) by (simp add: caller_ok_def)
  then show ?thesis using assms(1,3) k by (auto simp: out_inv_def nth_list_update)
qed

lemma out_inv_receive:
  assumes "out_inv s" "out s = (k, r) # q" "out s' = q" "got s' = got s @ [k]"
    and "fut s' = fut s" "callers s' = callers s" "args s' = args s"
  shows "out_inv s'"
  using assms by (auto simp: out_inv_def)

section \<open>What the combinators return\<close>

definition arg_ret :: "'a fsys \<Rightarrow> nat \<Rightarrow> 'a result option" where
  "arg_ret s k = fnret s ! (args s ! k)"

fun main_ok :: "'a fsys \<Rightarrow> 'a main \<Rightarrow> bool" where
  "main_ok s (AllLoop n vs) \<longleftrightarrow> length vs = length (args s) \<and> n + length (got s) = length (args s) \<and>
     (\<forall>k \<in> set (got s). arg_ret s k = Some \<lparr>rval = vs ! k, rerr = None\<rparr>)"
| "main_ok s (AllRet (Some vs) None) \<longleftrightarrow> length vs = length (args s) \<and>
     (\<forall>k < length (args s). arg_ret s k = Some \<lparr>rval = vs ! k, rerr = None\<rparr>)"
| "main_ok s (AllRet None (Some e)) \<longleftrightarrow> e \<in> ctx_errors \<or>
     (\<exists>k v. k < length (args s) \<and> arg_ret s k = Some \<lparr>rval = v, rerr = Some e\<rparr>)"
| "main_ok s (AllRet _ _) \<longleftrightarrow> False"
| "main_ok s RaceWait \<longleftrightarrow> got s = []"
| "main_ok s (RaceRet v e) \<longleftrightarrow> v = zero s \<and> e \<in> Some ` ctx_errors \<or>
     (\<exists>k < length (args s). arg_ret s k = Some \<lparr>rval = v, rerr = e\<rparr>)"

definition fsys_inv :: "'a fsys \<Rightarrow> bool" where
  "fsys_inv s \<longleftrightarrow> base_inv s \<and> out_inv s \<and> main_ok s (main s)"

lemma out_settled:
  assumes "base_inv s" "out_inv s" "(k, r) \<in> set (out s)"
  shows "k < length (args s)" "settled (zero s) (arg_ret s k) r"
proof -
  have k: "k < length (args s) \<and> args s ! k < length (fut s) \<and> once (fut s ! (args s ! k)) = OnceDone"
    using assms by (intro delivered_done) force+
  then show "k < length (args s)" by simp
  have "settled (zero s) (arg_ret s k) (res (fut s ! (args s ! k)))"
    using assms(1) k by (simp add: base_inv_def fut_ok_def arg_ret_def)
  moreover have "res (fut s ! (args s ! k)) = r" using assms(2,3) by (auto simp: out_inv_def)
  ultimately show "settled (zero s) (arg_ret s k) r" by simp
qed

lemma main_ok_stable:
  assumes "stable s s'" "got s' = got s" "main_ok s m" "base_inv s" "out_inv s"
  shows "main_ok s' m"
proof -
  have idx: "args s ! k < length (fut s)" if "k < length (args s)" for k
  proof -
    have "caller_ok s (callers s ! k)" "cfut (callers s ! k) = args s ! k"
      using that assms(4,5) by (auto simp: base_inv_def out_inv_def list_all_length)
    then show ?thesis by (simp add: caller_ok_def)
  qed
  have ret: "arg_ret s' k = Some r" if "k < length (args s)" "arg_ret s k = Some r" for k r
    using that idx assms(1) by (simp add: arg_ret_def stable_def)
  have "k < length (args s)" if "k \<in> set (got s)" for k using assms(5) that by (auto simp: out_inv_def)
  moreover have "args s' = args s" "zero s' = zero s" using assms(1) by (simp_all add: stable_def)
  ultimately show ?thesis
    using assms(2,3) ret by (cases "(s, m)" rule: main_ok.cases) (simp, simp, fastforce, simp_all, fastforce)
qed

lemma main_ok_value:
  assumes "fsys_inv s" "main s = AllLoop (Suc n) vs" "out s = (k, r) # q" "rerr r = None"
    and "args s' = args s" "fnret s' = fnret s" "got s' = got s @ [k]"
  shows "main_ok s' (AllLoop n (vs[k := rval r]))"
proof -
  have inv: "base_inv s" "out_inv s" "main_ok s (AllLoop (Suc n) vs)" using assms(1,2) by (simp_all add: fsys_inv_def)
  have k: "k < length (args s)" "arg_ret s k = Some r"
    using out_settled [OF inv(1,2), of k r] assms(3,4) by (auto simp: settled_def)
  have "k \<notin> set (got s)" using inv(2) assms(3) by (auto simp: out_inv_def)
  moreover have "arg_ret s' = arg_ret s" by (rule ext) (simp add: arg_ret_def assms(5,6))
  moreover have "r = \<lparr>rval = rval r, rerr = None\<rparr>" using assms(4) by simp
  ultimately show ?thesis using inv(3) k assms(5,7) by (auto simp: nth_list_update)
qed

lemma main_ok_all:
  assumes "fsys_inv s" "main s = AllLoop 0 vs" "args s' = args s" "fnret s' = fnret s"
  shows "main_ok s' (AllRet (Some vs) None)"
proof -
  have inv: "out_inv s" "main_ok s (AllLoop 0 vs)" using assms(1,2) by (simp_all add: fsys_inv_def)
  have "set (got s) \<subseteq> {..< length (args s)}" "card (set (got s)) = length (args s)"
    using inv distinct_card [of "got s"] by (auto simp: out_inv_def)
  then have "set (got s) = {..< length (args s)}" by (intro card_subset_eq) auto
  moreover have "arg_ret s' = arg_ret s" by (rule ext) (simp add: arg_ret_def assms(3,4))
  ultimately show ?thesis using inv(2) assms(3) by auto
qed

lemma main_ok_error:
  assumes "fsys_inv s" "out s = (k, r) # q" "rerr r = Some e"
    and "args s' = args s" "fnret s' = fnret s" "zero s' = zero s"
  shows "main_ok s' (AllRet None (Some e))"
proof -
  have "k < length (args s)" "settled (zero s) (arg_ret s k) r"
    using out_settled [of s k r] assms(1,2) by (auto simp: fsys_inv_def)
  moreover have "arg_ret s' = arg_ret s" by (rule ext) (simp add: arg_ret_def assms(4,5))
  moreover obtain v where "r = \<lparr>rval = v, rerr = Some e\<rparr>" using assms(3) by (cases r) simp
  ultimately show ?thesis using assms(4) by (auto simp: settled_def)
qed

lemma main_ok_race:
  assumes "fsys_inv s" "out s = (k, r) # q" "args s' = args s" "fnret s' = fnret s" "zero s' = zero s"
  shows "main_ok s' (RaceRet (rval r) (rerr r))"
proof -
  have "k < length (args s)" "settled (zero s) (arg_ret s k) r"
    using out_settled [of s k r] assms(1,2) by (auto simp: fsys_inv_def)
  moreover have "arg_ret s' = arg_ret s" by (rule ext) (simp add: arg_ret_def assms(3,4))
  ultimately show ?thesis using assms(3,5) by (auto simp: settled_def)
qed

lemma fsys_inv_body:
  assumes "main_step s s'" "fsys_inv s"
  shows "fsys_inv s'"
proof -
  note fr = main_step_frame [OF assms(1)]
  have ctx: "\<forall>x e. ctxs s x = Some e \<longrightarrow> e \<in> ctx_errors" and base: "base_inv s" and o: "out_inv s"
    using assms(2) by (simp_all add: fsys_inv_def base_inv_def)
  have "base_inv s'"
    using base_inv_frame [OF base fr(1,2,4,3)] ctx cancel0_errors [OF ctx] fr(6) by (elim disjE) simp_all
  moreover have "out_inv s'"
    using assms(1)
  proof (cases rule: main_step.cases)
    case all_error
    then show ?thesis using out_inv_receive [OF o] fr by simp
  next
    case all_value
    then show ?thesis using out_inv_receive [OF o] fr by simp
  next
    case race_value
    then show ?thesis using out_inv_receive [OF o] fr by simp
  qed (use o in \<open>simp_all add: out_inv_def\<close>)
  moreover have "main_ok s' (main s')"
    using assms(1)
  proof (cases rule: main_step.cases)
    case (all_value n vs k r q)
    then show ?thesis using main_ok_value [OF assms(2) all_value(2-4), of s'] by simp
  next
    case (all_error n vs k r q e)
    then show ?thesis using main_ok_error [OF assms(2) all_error(3,4), of s'] by simp
  next
    case (all_return vs)
    then show ?thesis using main_ok_all [OF assms(2) all_return(2), of s'] by simp
  next
    case (race_value k r q)
    then show ?thesis using main_ok_race [OF assms(2) race_value(3), of s'] by simp
  qed (use ctx in auto)
  ultimately show ?thesis by (simp add: fsys_inv_def)
qed

lemma await_pc_end: "await_step z c (f, pc) (f', pc') \<Longrightarrow> pc \<noteq> AEnd \<and> pc' \<noteq> AEnd"
  by (elim await_stepE) simp_all

lemma fsys_inv_await:
  assumes "fsys_inv s" "k < length (callers s)" "c = callers s ! k"
    and "await_step (zero s) (ctxs s (cctx c)) (fut s ! cfut c, cpc c) (f, pc)"
  shows "fsys_inv (s\<lparr>fut := (fut s)[cfut c := f], callers := (callers s)[k := c\<lparr>cpc := pc\<rparr>]\<rparr>)"
proof -
  let ?s = "s\<lparr>fut := (fut s)[cfut c := f], callers := (callers s)[k := c\<lparr>cpc := pc\<rparr>]\<rparr>"
  have inv: "base_inv s" "out_inv s" "main_ok s (main s)" using assms(1) by (simp_all add: fsys_inv_def)
  have st: "stable s ?s" by (rule stable_await [OF inv(1) assms(2-4)])
  have "out_inv ?s"
    by (rule out_inv_keep [OF inv(1,2) st]) (use assms(2,3) await_pc_end [OF assms(4)] in \<open>auto simp: nth_list_update\<close>)
  moreover have "main_ok ?s (main ?s)" using main_ok_stable [OF st _ inv(3,1,2)] by simp
  moreover have "base_inv ?s" by (rule base_inv_await [OF inv(1) assms(2-4)])
  ultimately show ?thesis by (simp add: fsys_inv_def)
qed

text \<open>The other steps that keep the futures.\<close>

lemma fsys_inv_keep:
  assumes "fsys_inv s" "base_inv s'" "stable s s'" "out s' = out s" "got s' = got s" "main s' = main s"
    and "length (callers s) \<le> length (callers s')" "\<And>k. k < length (callers s) \<Longrightarrow> callers s' ! k = callers s ! k"
  shows "fsys_inv s'"
proof -
  have inv: "base_inv s" "out_inv s" "main_ok s (main s)" using assms(1) by (simp_all add: fsys_inv_def)
  have "out_inv s'"
    by (rule out_inv_keep [OF inv(1,2) assms(3-5,7)]) (use assms(8) inv(2) in \<open>auto simp: out_inv_def\<close>)
  then show ?thesis using assms(2,6) main_ok_stable [OF assms(3,5) inv(3,1,2)] by (simp add: fsys_inv_def)
qed

lemma fsys_inv_send:
  assumes "fsys_inv s" "k < length (args s)" "cpc (callers s ! k) = AReturn r"
  shows "fsys_inv (s\<lparr>callers := (callers s)[k := (callers s ! k)\<lparr>cpc := AEnd\<rparr>], out := out s @ [(k, r)]\<rparr>)"
proof -
  let ?s = "s\<lparr>callers := (callers s)[k := (callers s ! k)\<lparr>cpc := AEnd\<rparr>], out := out s @ [(k, r)]\<rparr>"
  have inv: "base_inv s" "out_inv s" "main_ok s (main s)" using assms(1) by (simp_all add: fsys_inv_def)
  have "k < length (callers s)" using inv(2) assms(2) by (simp add: out_inv_def)
  then have "base_inv ?s" by (rule base_inv_end [OF inv(1) _ refl assms(3)]) simp_all
  moreover have "main_ok ?s (main ?s)" using main_ok_stable [OF stable_refl _ inv(3,1,2), of ?s] by simp
  ultimately show ?thesis using out_inv_send [OF inv(2,1) assms(2,3)] by (simp add: fsys_inv_def)
qed

lemma fsys_inv_step:
  assumes "fsys_step s u s'" "fsys_inv s"
  shows "fsys_inv s'"
proof -
  have inv: "base_inv s" "out_inv s" using assms(2) by (simp_all add: fsys_inv_def)
  show ?thesis
    using assms(1)
  proof (cases rule: fsys_step.cases)
    case (resolve i r)
    show ?thesis unfolding resolve
      by (rule fsys_inv_keep [OF assms(2) base_inv_resolve [OF inv(1) resolve(3,4)]]) simp_all
  next
    case (ctx_end x e)
    have "base_inv s'" by (rule base_inv_frame [OF inv(1)]) (use ctx_end inv(1) in \<open>auto simp: base_inv_def\<close>)
    then show ?thesis by (rule fsys_inv_keep [OF assms(2)]) (use ctx_end in \<open>simp_all add: stable_refl\<close>)
  next
    case (new_call i x)
    have "caller_ok s' = caller_ok s" unfolding new_call by (rule ext) (simp add: caller_ok_def cong: await_pc.case_cong)
    then have "base_inv s'" using inv(1) new_call by (simp add: base_inv_def inside_def caller_ok_def)
    then show ?thesis
      by (rule fsys_inv_keep [OF assms(2)]) (use new_call in \<open>simp_all add: stable_refl nth_append\<close>)
  next
    case (await k c f pc)
    show ?thesis unfolding await(2) by (rule fsys_inv_await [OF assms(2) await(3-5)])
  next
    case (send k c r)
    then show ?thesis using fsys_inv_send [OF assms(2), of k r] by simp
  next
    case (race_drop k c r)
    then show ?thesis using out_room [OF inv(2), of k] by simp
  next
    case body
    then show ?thesis using fsys_inv_body [OF _ assms(2)] by simp
  qed
qed

lemma fsys_inv_init:
  assumes "list_all (\<lambda>i. i < n) is"
  shows "fsys_inv (All z n is)" "fsys_inv (Race z n is)"
proof -
  have "sum_list (map (inside i) (go_callers is)) = 0" for i
    by (induction "is") (simp_all add: go_callers_def inside_def)
  then have "base_inv (combinator z n is m)" "out_inv (combinator z n is m)" for m
    using assms
    by (auto simp: base_inv_def combinator_def go_callers_def Async_def fut_ok_def list_all_iff caller_ok_def out_inv_def)
  then show "fsys_inv (All z n is)" "fsys_inv (Race z n is)"
    by (simp_all add: fsys_inv_def All_def Race_def) (simp_all add: combinator_def)
qed

definition fsys_init :: "nat list \<Rightarrow> 'a fsys \<Rightarrow> bool" where
  "fsys_init is s \<longleftrightarrow> (\<exists>z n. list_all (\<lambda>i. i < n) is \<and> (s = All z n is \<or> s = Race z n is))"

lemma fsys_initI:
  "list_all (\<lambda>i. i < n) is \<Longrightarrow> fsys_init is (All z n is)"
  "list_all (\<lambda>i. i < n) is \<Longrightarrow> fsys_init is (Race z n is)"
  by (auto simp: fsys_init_def)

lemma fsys_step_args: "fsys_step s u s' \<Longrightarrow> args s' = args s"
  by (cases rule: fsys_step.cases) (auto simp: main_step_frame)

interpretation fs: step_invariant "fsys_init is" fsys_step "\<lambda>s. fsys_inv s \<and> args s = is" for "is"
proof
  show "fsys_inv s \<and> args s = is" if "fsys_init is s" for s :: "'a fsys"
    using that fsys_inv_init by (auto simp: fsys_init_def) (auto simp: All_def Race_def combinator_def)
qed (auto intro: fsys_inv_step simp: fsys_step_args)

section \<open>Progress\<close>

fun pc_load :: "'a await_pc \<Rightarrow> nat" where
  "pc_load AStart = 3"
| "pc_load ASelect = 2"
| "pc_load (AReturn r) = 1"
| "pc_load AEnd = 0"

definition fload :: "'a fsys \<Rightarrow> nat" where
  "fload s = sum_list (map (pc_load \<circ> cpc) (callers s))"

definition closer :: "'a fsys \<Rightarrow> 'a fsys \<Rightarrow> bool" where
  "closer s s' \<longleftrightarrow> fload s' < fload s \<and> main s' = main s \<and> fnret s' = fnret s \<and> args s' = args s"

lemma await_closer:
  assumes "k < length (callers s)"
    and "await_step (zero s) (ctxs s (cctx (callers s ! k))) (fut s ! cfut (callers s ! k), cpc (callers s ! k)) (f, pc)"
  shows "\<exists>s'. fsys_step s () s' \<and> closer s s'"
proof -
  let ?c = "callers s ! k"
  let ?s = "s\<lparr>fut := (fut s)[cfut ?c := f], callers := (callers s)[k := ?c\<lparr>cpc := pc\<rparr>]\<rparr>"
  have "pc_load pc < pc_load (cpc ?c)" using assms(2) by (elim await_stepE) simp_all
  then have "closer s ?s"
    using sum_list_update_eq [OF assms(1), of "pc_load \<circ> cpc" "?c\<lparr>cpc := pc\<rparr>"] by (simp add: closer_def fload_def)
  with fsys_step.await [OF assms(1) refl assms(2)] show ?thesis by blast
qed

lemma select_closer:
  assumes "base_inv s" "k < length (callers s)" "cpc (callers s ! k) = ASelect" "fnret s ! cfut (callers s ! k) \<noteq> None"
  shows "\<exists>s'. fsys_step s () s' \<and> closer s s'"
proof -
  let ?i = "cfut (callers s ! k)"
  have i: "?i < length (fut s)" using assms(1,2) by (simp add: base_inv_def list_all_length caller_ok_def)
  have "1 \<le> sum_list (map (inside ?i) (callers s))" using inside_le [OF assms(2), of ?i] assms(3) by (simp add: inside_def)
  moreover have "fut_ok (zero s) (fut s ! ?i) (fnret s ! ?i) (sum_list (map (inside ?i) (callers s)))"
    using assms(1) i by (simp add: base_inv_def)
  ultimately obtain r where "ch (fut s ! ?i) = Some r" using assms(4) by (auto simp: fut_ok_def of_bool_def split: if_splits)
  from await_closer [OF assms(2), unfolded assms(3), OF await_step.await_value [OF this]] show ?thesis .
qed

lemma caller_progress:
  assumes "fsys_inv s" "k < length (args s)" "cpc (callers s ! k) \<noteq> AEnd" "arg_ret s k \<noteq> None"
  shows "\<exists>s'. fsys_step s () s' \<and> closer s s'"
proof -
  have inv: "base_inv s" "out_inv s" using assms(1) by (simp_all add: fsys_inv_def)
  have k: "k < length (callers s)" "cfut (callers s ! k) = args s ! k" using inv(2) assms(2) by (auto simp: out_inv_def)
  have i: "args s ! k < length (fut s)" using inv(1) k by (auto simp: base_inv_def list_all_length caller_ok_def)
  show ?thesis
  proof (cases "cpc (callers s ! k)")
    case AStart
    note st = await_closer [OF k(1), unfolded AStart]
    show ?thesis
    proof (cases "once (fut s ! (args s ! k))")
      case OnceNew
      then show ?thesis using st [OF await_step.once_enter] k(2) by simp
    next
      case OnceDone
      then show ?thesis using st [OF await_step.once_skip] k(2) by simp
    next
      case OnceRunning
      then have "sum_list (map (inside (args s ! k)) (callers s)) \<noteq> 0"
        using inv(1) i by (simp add: base_inv_def fut_ok_def)
      then obtain k' where "k' < length (callers s)" "inside (args s ! k) (callers s ! k') \<noteq> 0"
        by (auto simp: in_set_conv_nth)
      then show ?thesis using select_closer [OF inv(1)] assms(4) by (simp add: inside_def arg_ret_def)
    qed
  next
    case ASelect
    then show ?thesis using select_closer [OF inv(1) k(1)] assms(4) k(2) by (simp add: arg_ret_def)
  next
    case (AReturn r)
    let ?s = "s\<lparr>callers := (callers s)[k := (callers s ! k)\<lparr>cpc := AEnd\<rparr>], out := out s @ [(k, r)]\<rparr>"
    have "fsys_step s () ?s"
      by (rule fsys_step.send [OF assms(2) refl AReturn]) (use out_room [OF inv(2) assms(2,3)] in simp)
    moreover have "closer s ?s"
      using sum_list_update_eq [OF k(1), of "pc_load \<circ> cpc" "(callers s ! k)\<lparr>cpc := AEnd\<rparr>"] AReturn
      by (simp add: closer_def fload_def)
    ultimately show ?thesis by blast
  qed (use assms(3) in simp)
qed

lemma fsys_inv_steps: "runs_to fsys_step s s' \<Longrightarrow> fsys_inv s \<Longrightarrow> fsys_inv s'"
  by (induction rule: rtranclp_induct) (auto intro: fsys_inv_step)

text \<open>The goroutines of the resolved futures get to their end.\<close>

definition unfinished :: "nat set \<Rightarrow> 'a main \<Rightarrow> 'a result option list \<Rightarrow> nat list \<Rightarrow> 'a fsys \<Rightarrow> bool" where
  "unfinished K m rets is s \<longleftrightarrow> fsys_inv s \<and> main s = m \<and> fnret s = rets \<and> args s = is \<and>
     (\<forall>k \<in> K. k < length (args s) \<and> arg_ret s k \<noteq> None)"

interpretation finish: step_progress fsys_step "unfinished K m rets is"
    "\<lambda>s. \<forall>k \<in> K. cpc (callers s ! k) = AEnd" fload for K m rets "is"
proof
  fix s :: "'a fsys"
  assume u: "unfinished K m rets is s" and "\<not> (\<forall>k \<in> K. cpc (callers s ! k) = AEnd)"
  then obtain s' where s': "fsys_step s () s'" "closer s s'"
    using caller_progress [of s] unfolding unfinished_def by blast
  then have "unfinished K m rets is s'"
    using u fsys_inv_step [OF s'(1)] by (auto simp: unfinished_def closer_def arg_ret_def)
  then show "\<exists>e s'. fsys_step s e s' \<and> unfinished K m rets is s' \<and> fload s' < fload s"
    using s' by (auto simp: closer_def)
qed

text \<open>Then the combinator returns.\<close>

lemma out_left:
  assumes "out_inv s" "k < length (args s)" "cpc (callers s ! k) = AEnd" "k \<notin> set (got s)"
  shows "out s \<noteq> []"
  using assms by (force simp: out_inv_def)

lemma all_loop_returns:
  assumes "fsys_inv s" "main s = AllLoop n vs" "\<forall>k < length (args s). cpc (callers s ! k) = AEnd"
  shows "\<exists>s' x e. runs_to fsys_step s s' \<and> main s' = AllRet x e"
  using assms
proof (induction n arbitrary: s vs)
  case 0
  from runs_to_one [of fsys_step, OF fsys_step.body [OF main_step.all_return [OF 0(2)]]] show ?case by fastforce
next
  case (Suc n)
  have "length (got s) < length (args s)" using Suc.prems(1,2) by (simp add: fsys_inv_def)
  then have "\<not> {..< length (args s)} \<subseteq> set (got s)"
    using card_mono [of "set (got s)" "{..< length (args s)}"] card_length [of "got s"] by auto
  then obtain k r q where o: "out s = (k, r) # q"
    using out_left [of s] Suc.prems(1,3) by (cases "out s") (auto simp: fsys_inv_def)
  show ?case
  proof (cases "rerr r")
    case None
    have st: "fsys_step s () (s\<lparr>out := q, got := got s @ [k], main := AllLoop n (vs[k := rval r])\<rparr>)"
      by (rule fsys_step.body [OF main_step.all_value [OF Suc.prems(2) o None]])
    from Suc.IH [OF fsys_inv_step [OF st Suc.prems(1)]] Suc.prems(3) show ?thesis
      using runs_to_first [of fsys_step, OF st] by auto
  next
    case (Some e)
    from runs_to_one [of fsys_step, OF fsys_step.body [OF main_step.all_error [OF Suc.prems(2) o Some]]]
    show ?thesis by fastforce
  qed
qed

lemma All_returns:
  assumes "fsys_inv s" "main s = AllLoop n vs" "\<forall>k < length (args s). arg_ret s k \<noteq> None"
  shows "\<exists>s' x e. runs_to fsys_step s s' \<and> main s' = AllRet x e"
proof -
  have "unfinished {..< length (args s)} (main s) (fnret s) (args s) s" using assms by (simp add: unfinished_def)
  from finish.reaches_goal [OF this] obtain s1 where s1: "runs_to fsys_step s s1" "fsys_inv s1" "main s1 = AllLoop n vs"
      "\<forall>k < length (args s1). cpc (callers s1 ! k) = AEnd"
    using assms(2) by (auto simp: unfinished_def)
  from all_loop_returns [OF s1(2-4)] show ?thesis using rtranclp_trans [OF s1(1)] by blast
qed

lemma Race_returns:
  assumes "fsys_inv s" "main s = RaceWait" "k < length (args s)" "arg_ret s k \<noteq> None"
  shows "\<exists>s' v e. runs_to fsys_step s s' \<and> main s' = RaceRet v e"
proof -
  have "unfinished {k} (main s) (fnret s) (args s) s" using assms by (simp add: unfinished_def)
  from finish.reaches_goal [OF this] obtain s1 where s1: "runs_to fsys_step s s1" "fsys_inv s1" "main s1 = RaceWait"
      "cpc (callers s1 ! k) = AEnd" "k < length (args s1)"
    using assms(2,3) by (auto simp: unfinished_def)
  then obtain j r q where "out s1 = (j, r) # q"
    using out_left [of s1 k] by (cases "out s1") (auto simp: fsys_inv_def)
  from runs_to_last [of fsys_step, OF s1(1) fsys_step.body [OF main_step.race_value [OF s1(3) this]]]
  show ?thesis by fastforce
qed

lemma step_stable:
  assumes "fsys_step s u s'" "fsys_inv s"
  shows "stable s s'"
  using assms(1)
proof (cases rule: fsys_step.cases)
  case (resolve i r)
  show ?thesis unfolding resolve
    by (rule base_inv_resolve(2)) (use resolve assms(2) in \<open>simp_all add: fsys_inv_def\<close>)
next
  case (await k c f pc)
  show ?thesis unfolding await(2)
    by (rule stable_await [OF _ await(3-5)]) (use assms(2) in \<open>simp add: fsys_inv_def\<close>)
next
  case body
  then show ?thesis using main_step_frame(1,2,4,5) [of s s'] by (simp add: stable_refl)
qed (simp_all add: stable_refl)

lemma stable_trans: "stable s s' \<Longrightarrow> stable s' s'' \<Longrightarrow> stable s s''"
  by (auto simp: stable_def)

lemma runs_to_stable: "runs_to fsys_step s s' \<Longrightarrow> fsys_inv s \<Longrightarrow> stable s s' \<and> fsys_inv s'"
proof (induction rule: rtranclp_induct)
  case (step s1 s2)
  then show ?case using step_stable fsys_inv_step stable_trans by blast
qed (simp add: stable_refl)

section \<open>Properties\<close>

text \<open>
  \<open>Await\<close> is consistent: whatever goroutines call it on a future, with whatever contexts and at
  whatever time, all calls that return give the same result; it is the result of the future's
  function, or else the zero value with the error of a context that ended before.
\<close>

theorem future_Await:
  assumes "reach (fsys_init is) fsys_step s" "runs_to fsys_step s s'"
    and "c \<in> set (callers s)" "cpc c = AReturn r" "c' \<in> set (callers s')" "cpc c' = AReturn r'" "cfut c' = cfut c"
  shows "r' = r \<and> (fnret s ! cfut c = Some r \<or> rval r = zero s \<and> rerr r \<in> {Some Canceled, Some DeadlineExceeded})"
proof -
  have inv: "fsys_inv s" using fs.reach_inv [OF assms(1)] by simp
  have st: "stable s s'" "fsys_inv s'" using runs_to_stable [OF assms(2) inv] by simp_all
  have ok: "caller_ok s c" "caller_ok s' c'"
    using inv st(2) assms(3,5) by (simp_all add: fsys_inv_def base_inv_def list_all_iff)
  then have c: "cfut c < length (fut s)" "once (fut s ! cfut c) = OnceDone" "res (fut s ! cfut c) = r"
    using assms(4) by (simp_all add: caller_ok_def)
  have "res (fut s' ! cfut c) = res (fut s ! cfut c)" using st(1) c(1,2) unfolding stable_def by blast
  then have "r' = r" using c(3) ok(2) assms(6,7) by (simp add: caller_ok_def)
  moreover have "settled (zero s) (fnret s ! cfut c) r"
    using inv c by (auto simp: fsys_inv_def base_inv_def fut_ok_def)
  ultimately show ?thesis by (auto simp: settled_def)
qed

text \<open>
  C18. What the combinators return, in every interleaving: when \<open>All\<close> returns no error, it returns for
  each argument, in their order, the value that its function returned without an error; an error of \<open>All\<close>
  comes with a nil slice and is the error of the function of one of the arguments or of a
  context; and \<open>Race\<close> returns what the function of one of the arguments returned, or the zero
  value with the error of a context.
\<close>

theorem future_combinators:
  assumes "reach (fsys_init is) fsys_step s"
  shows "(main s = AllRet (Some vs) eo \<longrightarrow> eo = None \<and> length vs = length is \<and>
      (\<forall>k < length is. fnret s ! (is ! k) = Some \<lparr>rval = vs ! k, rerr = None\<rparr>)) \<and>
    (main s = AllRet None eo \<longrightarrow> eo \<in> {Some Canceled, Some DeadlineExceeded} \<or>
      (\<exists>k v. k < length is \<and> eo \<noteq> None \<and> fnret s ! (is ! k) = Some \<lparr>rval = v, rerr = eo\<rparr>)) \<and>
    (main s = RaceRet v eo \<longrightarrow> v = zero s \<and> eo \<in> {Some Canceled, Some DeadlineExceeded} \<or>
      (\<exists>k < length is. fnret s ! (is ! k) = Some \<lparr>rval = v, rerr = eo\<rparr>))"
proof -
  have ok: "main_ok s (main s)" "args s = is" using fs.reach_inv [OF assms] by (simp_all add: fsys_inv_def)
  show ?thesis
  proof (intro conjI impI)
    assume "main s = AllRet (Some vs) eo"
    then show "eo = None" "length vs = length is" "\<forall>k < length is. fnret s ! (is ! k) = Some \<lparr>rval = vs ! k, rerr = None\<rparr>"
      using ok by (cases eo; simp add: arg_ret_def)+
  next
    assume "main s = AllRet None eo"
    then show "eo \<in> {Some Canceled, Some DeadlineExceeded} \<or>
        (\<exists>k v. k < length is \<and> eo \<noteq> None \<and> fnret s ! (is ! k) = Some \<lparr>rval = v, rerr = eo\<rparr>)"
      using ok by (cases eo) (auto simp: arg_ret_def)
  next
    assume "main s = RaceRet v eo"
    then show "v = zero s \<and> eo \<in> {Some Canceled, Some DeadlineExceeded} \<or>
        (\<exists>k < length is. fnret s ! (is ! k) = Some \<lparr>rval = v, rerr = eo\<rparr>)"
      using ok by (auto simp: arg_ret_def)
  qed
qed


text \<open>
  A run of \<open>Race\<close> on two futures. The first resolves and wins; \<open>Race\<close> cancels its context, and the
  goroutine that awaits the second future stores the error of that context in it. When the
  function of the second future has returned a value, a call of \<open>Await\<close> with another, live context
  gives the error.
\<close>

definition demo_fut :: "nat result option \<Rightarrow> once \<Rightarrow> nat result \<Rightarrow> nat Future" where
  "demo_fut c x r = \<lparr>ch = c, once = x, res = r\<rparr>"

abbreviation ok_result :: "nat \<Rightarrow> nat result" where
  "ok_result n \<equiv> \<lparr>rval = n, rerr = None\<rparr>"

definition demo_callers :: "nat await_pc \<Rightarrow> nat await_pc \<Rightarrow> nat caller list" where
  "demo_callers p q = [\<lparr>cfut = 0, cctx = 0, cpc = p\<rparr>, \<lparr>cfut = 1, cctx = 0, cpc = q\<rparr>]"

text \<open>The steps of a caller, as they extend a run.\<close>

lemma enter_reach:
  assumes "reach I fsys_step s" "k < length (callers s)" "c = callers s ! k" "cpc c = AStart" "once (fut s ! cfut c) = OnceNew"
  shows "reach I fsys_step (s\<lparr>fut := (fut s)[cfut c := (fut s ! cfut c)\<lparr>once := OnceRunning\<rparr>],
    callers := (callers s)[k := c\<lparr>cpc := ASelect\<rparr>]\<rparr>)"
  by (rule reach_step [OF assms(1), OF fsys_step.await [OF assms(2,3)]]) (simp add: assms(4,5) await_step.intros)

lemma value_reach:
  assumes "reach I fsys_step s" "k < length (callers s)" "c = callers s ! k" "cpc c = ASelect" "ch (fut s ! cfut c) = Some r"
  shows "reach I fsys_step (s\<lparr>fut := (fut s)[cfut c := (fut s ! cfut c)\<lparr>ch := None, res := r, once := OnceDone\<rparr>],
    callers := (callers s)[k := c\<lparr>cpc := AReturn r\<rparr>]\<rparr>)"
  by (rule reach_step [OF assms(1), OF fsys_step.await [OF assms(2,3)]]) (simp add: assms(4,5) await_step.intros)

lemma ctx_reach:
  assumes "reach I fsys_step s" "k < length (callers s)" "c = callers s ! k" "cpc c = ASelect" "ctxs s (cctx c) = Some e"
  shows "reach I fsys_step (s\<lparr>fut := (fut s)[cfut c := (fut s ! cfut c)\<lparr>res := \<lparr>rval = zero s, rerr = Some e\<rparr>, once := OnceDone\<rparr>],
    callers := (callers s)[k := c\<lparr>cpc := AReturn \<lparr>rval = zero s, rerr = Some e\<rparr>\<rparr>]\<rparr>)"
  by (rule reach_step [OF assms(1), OF fsys_step.await [OF assms(2,3)]]) (simp add: assms(4,5) await_step.intros)

lemma skip_reach:
  assumes "reach I fsys_step s" "k < length (callers s)" "c = callers s ! k" "cpc c = AStart" "once (fut s ! cfut c) = OnceDone"
  shows "reach I fsys_step (s\<lparr>fut := (fut s)[cfut c := fut s ! cfut c],
    callers := (callers s)[k := c\<lparr>cpc := AReturn (res (fut s ! cfut c))\<rparr>]\<rparr>)"
  by (rule reach_step [OF assms(1), OF fsys_step.await [OF assms(2,3)]]) (simp add: assms(4,5) await_step.intros)

definition demo_state :: "nat Future list \<Rightarrow> nat result option list \<Rightarrow> (nat \<Rightarrow> err option) \<Rightarrow> nat caller list
    \<Rightarrow> (nat \<times> nat result) list \<Rightarrow> nat list \<Rightarrow> nat main \<Rightarrow> nat fsys" where
  "demo_state fs rs cs cl q g m = \<lparr>zero = 0, fut = fs, fnret = rs, ctxs = cs, args = [0, 1], callers = cl, out = q, got = g, main = m\<rparr>"

lemmas demo_simps = demo_state_def demo_fut_def demo_callers_def Async_def

lemma demo_won_reach:
  "reach (fsys_init [0, 1]) fsys_step (demo_state [demo_fut None OnceDone (ok_result 7), Async 0] [Some (ok_result 7), None]
     ((\<lambda>_. None)(0 := Some Canceled)) (demo_callers AEnd AStart) [] [0] (RaceRet 7 None))"
proof -
  let ?R = "reach (fsys_init [0, 1]) fsys_step"
  let ?rs = "[Some (ok_result 7), None]" and ?cs = "\<lambda>_ :: nat. None :: err option"
  let ?s0 = "demo_state [Async 0, Async 0] [None, None] ?cs (demo_callers AStart AStart) [] [] RaceWait"
  let ?s1 = "demo_state [demo_fut (Some (ok_result 7)) OnceNew (ok_result 0), Async 0] ?rs ?cs (demo_callers AStart AStart) [] [] RaceWait"
  let ?s2 = "demo_state [demo_fut (Some (ok_result 7)) OnceRunning (ok_result 0), Async 0] ?rs ?cs (demo_callers ASelect AStart) [] [] RaceWait"
  let ?s3 = "demo_state [demo_fut None OnceDone (ok_result 7), Async 0] ?rs ?cs (demo_callers (AReturn (ok_result 7)) AStart) [] [] RaceWait"
  let ?s4 = "demo_state [demo_fut None OnceDone (ok_result 7), Async 0] ?rs ?cs (demo_callers AEnd AStart) [(0, ok_result 7)] [] RaceWait"
  have "?s0 = Race 0 2 [0, 1]" by (simp add: demo_simps Race_def combinator_def go_callers_def numeral_2_eq_2)
  then have "?R ?s0" by (simp add: reach_start fsys_initI)
  from reach_step [OF this, OF fsys_step.resolve [of 0 ?s0 "ok_result 7"]] have s1: "?R ?s1" by (simp add: demo_simps)
  from enter_reach [OF s1, of 0 "callers ?s1 ! 0"] have s2: "?R ?s2" by (simp add: demo_simps)
  from value_reach [OF s2, of 0 "callers ?s2 ! 0"] have s3: "?R ?s3" by (simp add: demo_simps)
  from reach_step [OF s3, OF fsys_step.send [of 0 ?s3 "callers ?s3 ! 0" "ok_result 7"]] have s4: "?R ?s4" by (simp add: demo_simps)
  from reach_step [OF s4, OF fsys_step.body [OF main_step.race_value [of ?s4 0 "ok_result 7" "[]"]]] show ?thesis
    by (simp add: demo_simps cancel0_def)
qed

lemma race_poisons:
  "reach (fsys_init [0, 1]) fsys_step (demo_state
     [demo_fut None OnceDone (ok_result 7), demo_fut (Some (ok_result 8)) OnceDone \<lparr>rval = 0, rerr = Some Canceled\<rparr>]
     [Some (ok_result 7), Some (ok_result 8)] ((\<lambda>_. None)(0 := Some Canceled))
     (demo_callers AEnd (AReturn \<lparr>rval = 0, rerr = Some Canceled\<rparr>) @
       [\<lparr>cfut = 1, cctx = 1, cpc = AReturn \<lparr>rval = 0, rerr = Some Canceled\<rparr>\<rparr>]) [] [0] (RaceRet 7 None))"
proof -
  let ?R = "reach (fsys_init [0, 1]) fsys_step"
  let ?f = "demo_fut None OnceDone (ok_result 7)" and ?e = "\<lparr>rval = 0 :: nat, rerr = Some Canceled\<rparr>"
  let ?cs = "(\<lambda>_. None)(0 := Some Canceled)" and ?rs = "[Some (ok_result 7), None]"
  let ?s1 = "demo_state [?f, demo_fut None OnceRunning (ok_result 0)] ?rs ?cs (demo_callers AEnd ASelect) [] [0] (RaceRet 7 None)"
  let ?s2 = "demo_state [?f, demo_fut None OnceDone ?e] ?rs ?cs (demo_callers AEnd (AReturn ?e)) [] [0] (RaceRet 7 None)"
  let ?s3 = "demo_state [?f, demo_fut (Some (ok_result 8)) OnceDone ?e] [Some (ok_result 7), Some (ok_result 8)] ?cs
    (demo_callers AEnd (AReturn ?e)) [] [0] (RaceRet 7 None)"
  let ?s4 = "?s3\<lparr>callers := demo_callers AEnd (AReturn ?e) @ [\<lparr>cfut = 1, cctx = 1, cpc = AStart\<rparr>]\<rparr>"
  from enter_reach [OF demo_won_reach, of 1 "demo_callers AEnd AStart ! 1"] have s1: "?R ?s1" by (simp add: demo_simps)
  from ctx_reach [OF s1, of 1 "demo_callers AEnd ASelect ! 1" Canceled] have s2: "?R ?s2" by (simp add: demo_simps)
  from reach_step [OF s2, OF fsys_step.resolve [of 1 ?s2 "ok_result 8"]] have s3: "?R ?s3" by (simp add: demo_simps)
  from reach_step [OF s3, OF fsys_step.new_call [of 1 ?s3 1]] have s4: "?R ?s4" by (simp add: demo_simps)
  from skip_reach [OF s4, of 2 "\<lparr>cfut = 1, cctx = 1, cpc = AStart\<rparr>"] show ?thesis
    by (simp add: demo_simps numeral_2_eq_2)
qed

theorem future_Await_witness:
  "\<exists>s s' c c' r. reach (fsys_init [0, 1 :: nat]) fsys_step (s :: nat fsys) \<and> runs_to fsys_step s s' \<and> c \<in> set (callers s) \<and>
     c' \<in> set (callers s') \<and> c' \<noteq> c \<and> cpc c = AReturn r \<and> cpc c' = AReturn r \<and> rerr r = Some Canceled"
proof -
  let ?e = "\<lparr>rval = 0 :: nat, rerr = Some Canceled\<rparr>"
  let ?c = "\<lparr>cfut = 1, cctx = 0, cpc = AReturn ?e\<rparr>" and ?c' = "\<lparr>cfut = 1, cctx = 1, cpc = AReturn ?e\<rparr>"
  have c: "?c \<in> set (demo_callers AEnd (AReturn ?e) @ [?c'])" "?c' \<in> set (demo_callers AEnd (AReturn ?e) @ [?c'])"
    by (simp_all add: demo_callers_def)
  from future_Await [OF race_poisons rtranclp.rtrancl_refl, of ?c ?e ?c' ?e] c race_poisons show ?thesis
    by (intro exI [of _ "demo_state _ _ _ _ _ _ _"] exI [of _ ?c] exI [of _ ?c'] exI [of _ ?e])
      (auto simp: demo_state_def)
qed

theorem future_combinators_witness:
  "\<exists>k. k < 2 \<and> [Some (ok_result 7), None] ! ([0, 1] ! k) = Some (ok_result 7)"
  using future_combinators [OF demo_won_reach, of "[]" None 7]
  by (simp add: demo_state_def numeral_2_eq_2)


end
