(* ===== verification/Rpc.thy ===== *)
theory Rpc
  imports GoStd
begin

text \<open>
  The RPC layer of \<open>pkg/rpc\<close>: the server and client builders, the interceptors and the JSON codec. The
  gRPC library is a parameter: its \<open>status\<close> package is a record of two functions, the way it
  chains interceptors a function. A handler acts on the world and returns or panics; the clock, the
  logger and the instruments are operations on the world.
\<close>

section \<open>Status codes\<close>

datatype code =
    CodeOK | CodeCanceled | CodeUnknown | CodeInvalidArgument | CodeDeadlineExceeded | CodeNotFound
  | CodeAlreadyExists | CodePermissionDenied | CodeResourceExhausted | CodeFailedPrecondition | CodeAborted
  | CodeOutOfRange | CodeUnimplemented | CodeInternal | CodeUnavailable | CodeDataLoss | CodeUnauthenticated

record status_lib =
  status_Code :: "err \<Rightarrow> code"
  status_Error :: "code \<Rightarrow> string \<Rightarrow> err"

definition status_ok :: "status_lib \<Rightarrow> bool" where
  "status_ok sl \<longleftrightarrow> (\<forall>c m. c \<noteq> CodeOK \<longrightarrow> status_Code sl (status_Error sl c m) = c)"

text \<open>\<open>code := codes.OK; if err != nil { code = status.Code(err) }\<close>\<close>

definition code_of :: "status_lib \<Rightarrow> err option \<Rightarrow> code" where
  "code_of sl eo = (case eo of None \<Rightarrow> CodeOK | Some e \<Rightarrow> status_Code sl e)"

fun isServerError :: "code \<Rightarrow> bool" where
  "isServerError CodeOK = False"
| "isServerError CodeCanceled = False"
| "isServerError CodeInvalidArgument = False"
| "isServerError CodeNotFound = False"
| "isServerError CodeAlreadyExists = False"
| "isServerError CodePermissionDenied = False"
| "isServerError CodeUnauthenticated = False"
| "isServerError CodeResourceExhausted = False"
| "isServerError CodeFailedPrecondition = False"
| "isServerError CodeAborted = False"
| "isServerError CodeOutOfRange = False"
| "isServerError _ = True"

section \<open>Handlers and interceptors\<close>

text \<open>The result of a handler is a response, which may be nil, and an error.\<close>

datatype 'a call = Ret 'a | Pan string

type_synonym ('q, 'r, 'w) UnaryHandler = "'q \<Rightarrow> ('w, ('r option \<times> err option) call) action"
type_synonym ('q, 'r, 'w) UnaryInterceptor = "string \<Rightarrow> ('q, 'r, 'w) UnaryHandler \<Rightarrow> ('q, 'r, 'w) UnaryHandler"

record stream_info =
  FullMethod :: string
  IsClientStream :: bool
  IsServerStream :: bool

type_synonym 'w StreamHandler = "('w, err option call) action"
type_synonym 'w StreamInterceptor = "stream_info \<Rightarrow> 'w StreamHandler \<Rightarrow> 'w StreamHandler"

datatype rpc_level = LevelDebug | LevelError

datatype rpc_log =
    GrpcUnary rpc_level string code duration "err option"
  | GrpcStream rpc_level string code duration bool bool "err option"
  | PanicRecovered string string
  | StreamPanicRecovered string string

record rpc_metrics =
  rpcTotal :: "string \<times> code \<Rightarrow> int"
  rpcDuration :: "string \<Rightarrow> duration list"
  rpcInFlight :: "string \<Rightarrow> int"

text \<open>What the interceptors do to the world: read the clock, log, update the instruments.\<close>

record 'w obs =
  now :: "('w, gotime) action"
  log :: "rpc_log \<Rightarrow> 'w \<Rightarrow> 'w"
  upd :: "(rpc_metrics \<Rightarrow> rpc_metrics) \<Rightarrow> 'w \<Rightarrow> 'w"

definition rpc_Recovery :: "status_lib \<Rightarrow> 'w obs \<Rightarrow> ('q, 'r, 'w) UnaryInterceptor" where
  "rpc_Recovery sl ob method handler req w =
     (case handler req w of
        (Pan r, w1) \<Rightarrow> (Ret (None, Some (status_Error sl CodeInternal (''internal error: '' @ r))), log ob (PanicRecovered method r) w1)
      | (Ret x, w1) \<Rightarrow> (Ret x, w1))"

definition StreamRecovery :: "status_lib \<Rightarrow> 'w obs \<Rightarrow> 'w StreamInterceptor" where
  "StreamRecovery sl ob info handler w =
     (case handler w of
        (Pan r, w1) \<Rightarrow> (Ret (Some (status_Error sl CodeInternal (''internal error: '' @ r))), log ob (StreamPanicRecovered (FullMethod info) r) w1)
      | (Ret e, w1) \<Rightarrow> (Ret e, w1))"

text \<open>The level and the error attribute of a log line.\<close>

definition log_level :: "code \<Rightarrow> rpc_level" where
  "log_level c = (if isServerError c then LevelError else LevelDebug)"

definition log_error :: "code \<Rightarrow> err option \<Rightarrow> err option" where
  "log_error c e = (if isServerError c then e else None)"

definition rpc_Logging :: "status_lib \<Rightarrow> 'w obs \<Rightarrow> ('q, 'r, 'w) UnaryInterceptor" where
  "rpc_Logging sl ob method handler req w =
     (let (start, w1) = now ob w in
      case handler req w1 of
        (Pan r, w2) \<Rightarrow> (Pan r, w2)
      | (Ret (resp, e), w2) \<Rightarrow>
          let (t, w3) = now ob w2; dur = time_Sub t start; c = code_of sl e
          in (Ret (resp, e), log ob (GrpcUnary (log_level c) method c dur (log_error c e)) w3))"

definition StreamLogging :: "status_lib \<Rightarrow> 'w obs \<Rightarrow> 'w StreamInterceptor" where
  "StreamLogging sl ob info handler w =
     (let (start, w1) = now ob w in
      case handler w1 of
        (Pan r, w2) \<Rightarrow> (Pan r, w2)
      | (Ret e, w2) \<Rightarrow>
          let (t, w3) = now ob w2; dur = time_Sub t start; c = code_of sl e
          in (Ret e, log ob (GrpcStream (log_level c) (FullMethod info) c dur (IsClientStream info) (IsServerStream info)
               (log_error c e)) w3))"

definition add_at :: "'k \<Rightarrow> int \<Rightarrow> ('k \<Rightarrow> int) \<Rightarrow> 'k \<Rightarrow> int" where
  "add_at k n f = f(k := f k + n)"

definition observe :: "string \<Rightarrow> duration \<Rightarrow> rpc_metrics \<Rightarrow> rpc_metrics" where
  "observe m d = rpcDuration_update (\<lambda>f. f(m := f m @ [d]))"

definition UnaryInterceptor :: "status_lib \<Rightarrow> 'w obs \<Rightarrow> ('q, 'r, 'w) UnaryInterceptor" where
  "UnaryInterceptor sl ob method handler req w =
     (let w0 = upd ob (rpcInFlight_update (add_at method 1)) w;
          (start, w1) = now ob w0 in
      case handler req w1 of
        (Pan r, w2) \<Rightarrow> (Pan r, w2)
      | (Ret (resp, e), w2) \<Rightarrow>
          let w3 = upd ob (rpcInFlight_update (add_at method (- 1))) w2;
              (t, w4) = now ob w3;
              w5 = upd ob (observe method (time_Sub t start)) w4
          in (Ret (resp, e), upd ob (rpcTotal_update (add_at (method, code_of sl e) 1)) w5))"

definition StreamInterceptor :: "status_lib \<Rightarrow> 'w obs \<Rightarrow> 'w StreamInterceptor" where
  "StreamInterceptor sl ob info handler w =
     (let method = FullMethod info;
          w0 = upd ob (rpcInFlight_update (add_at method 1)) w;
          (start, w1) = now ob w0 in
      case handler w1 of
        (Pan r, w2) \<Rightarrow> (Pan r, w2)
      | (Ret e, w2) \<Rightarrow>
          let w3 = upd ob (rpcInFlight_update (add_at method (- 1))) w2;
              (t, w4) = now ob w3;
              w5 = upd ob (observe method (time_Sub t start)) w4
          in (Ret e, upd ob (rpcTotal_update (add_at (method, code_of sl e) 1)) w5))"

section \<open>Server and client builders\<close>

record ('q, 'r, 'w) serverOptions =
  unaryInterceptors :: "('q, 'r, 'w) UnaryInterceptor list"
  streamInterceptors :: "'w StreamInterceptor list"
  enableReflection :: bool

definition WithUnaryInterceptors :: "('q, 'r, 'w) UnaryInterceptor list \<Rightarrow> ('q, 'r, 'w) serverOptions \<Rightarrow> ('q, 'r, 'w) serverOptions" where
  "WithUnaryInterceptors is opts = opts\<lparr>unaryInterceptors := unaryInterceptors opts @ is\<rparr>"

definition WithStreamInterceptors :: "'w StreamInterceptor list \<Rightarrow> ('q, 'r, 'w) serverOptions \<Rightarrow> ('q, 'r, 'w) serverOptions" where
  "WithStreamInterceptors is opts = opts\<lparr>streamInterceptors := streamInterceptors opts @ is\<rparr>"

definition WithReflection :: "('q, 'r, 'w) serverOptions \<Rightarrow> ('q, 'r, 'w) serverOptions" where
  "WithReflection opts = opts\<lparr>enableReflection := True\<rparr>"

definition NewServer :: "(('q, 'r, 'w) serverOptions \<Rightarrow> ('q, 'r, 'w) serverOptions) list \<Rightarrow> ('q, 'r, 'w) serverOptions" where
  "NewServer os = fold (\<lambda>opt opts. opt opts) os \<lparr>unaryInterceptors = [], streamInterceptors = [], enableReflection = True\<rparr>"

text \<open>
  \<open>Serve\<close>: \<open>wait\<close> is the select, which gives the error of the server's own \<open>Serve\<close> or the end of the
  context.
\<close>

definition rpc_Serve :: "('w, err option) action \<Rightarrow> ('w, err option option) action \<Rightarrow> ('w \<Rightarrow> 'w) \<Rightarrow> ('w, err option) action" where
  "rpc_Serve listen wait gracefulStop w =
     (case listen w of
        (Some e, w1) \<Rightarrow> (Some e, w1)
      | (None, w1) \<Rightarrow>
          (case wait w1 of
             (None, w2) \<Rightarrow> (None, gracefulStop w2)
           | (Some e, w2) \<Rightarrow> (e, w2)))"

text \<open>The dial options of the client, in the order in which the library gets them.\<close>

datatype ('u, 's, 'd) dial_option = InsecureCredentials | ChainUnary "'u list" | ChainStream "'s list" | UserOption 'd

record ('u, 's, 'd) clientOptions =
  cUnary :: "'u list"
  cStream :: "'s list"
  cDial :: "'d list"

definition WithClientUnaryInterceptors :: "'u list \<Rightarrow> ('u, 's, 'd) clientOptions \<Rightarrow> ('u, 's, 'd) clientOptions" where
  "WithClientUnaryInterceptors is opts = opts\<lparr>cUnary := cUnary opts @ is\<rparr>"

definition WithClientStreamInterceptors :: "'s list \<Rightarrow> ('u, 's, 'd) clientOptions \<Rightarrow> ('u, 's, 'd) clientOptions" where
  "WithClientStreamInterceptors is opts = opts\<lparr>cStream := cStream opts @ is\<rparr>"

definition WithDialOptions :: "'d list \<Rightarrow> ('u, 's, 'd) clientOptions \<Rightarrow> ('u, 's, 'd) clientOptions" where
  "WithDialOptions ds opts = opts\<lparr>cDial := cDial opts @ ds\<rparr>"

definition Dial :: "(string \<Rightarrow> ('u, 's, 'd) dial_option list \<Rightarrow> 'res) \<Rightarrow> string
    \<Rightarrow> (('u, 's, 'd) clientOptions \<Rightarrow> ('u, 's, 'd) clientOptions) list \<Rightarrow> 'res" where
  "Dial newClient target os =
     (let opts = fold (\<lambda>opt x. opt x) os \<lparr>cUnary = [], cStream = [], cDial = []\<rparr>
      in newClient target ([InsecureCredentials, ChainUnary (cUnary opts), ChainStream (cStream opts)] @ map UserOption (cDial opts)))"

text \<open>\<open>codec.Register\<close>: the registry of codecs by name.\<close>

definition codec_Register :: "'codec \<Rightarrow> (string \<rightharpoonup> 'codec) \<Rightarrow> string \<rightharpoonup> 'codec" where
  "codec_Register json reg = reg(''json'' \<mapsto> json, ''proto'' \<mapsto> json)"

section \<open>Properties\<close>

text \<open>
  The laws of the environment: the views \<open>m\<close> and \<open>lg\<close> read the instruments and the log lines off the world. A
  handler is quiet if it touches neither. The library runs the first interceptor of a chain
  outermost.
\<close>

definition obs_ok :: "'w obs \<Rightarrow> ('w \<Rightarrow> rpc_metrics) \<Rightarrow> ('w \<Rightarrow> rpc_log list) \<Rightarrow> bool" where
  "obs_ok ob m lg \<longleftrightarrow> (\<forall>f w. m (upd ob f w) = f (m w) \<and> lg (upd ob f w) = lg w) \<and>
     (\<forall>l w. m (log ob l w) = m w \<and> lg (log ob l w) = lg w @ [l]) \<and>
     (\<forall>w. m (snd (now ob w)) = m w \<and> lg (snd (now ob w)) = lg w)"

definition quiet :: "('w \<Rightarrow> rpc_metrics) \<Rightarrow> ('w \<Rightarrow> rpc_log list) \<Rightarrow> ('w, 'a) action \<Rightarrow> bool" where
  "quiet m lg h \<longleftrightarrow> (\<forall>w. m (snd (h w)) = m w \<and> lg (snd (h w)) = lg w)"

definition chain_ok :: "('i list \<Rightarrow> 'c \<Rightarrow> 'h \<Rightarrow> 'h) \<Rightarrow> ('i \<Rightarrow> 'c \<Rightarrow> 'h \<Rightarrow> 'h) \<Rightarrow> bool" where
  "chain_ok chain ap \<longleftrightarrow> (\<forall>info h. chain [] info h = h \<and> (\<forall>i is. chain (i # is) info h = ap i info (chain is info h)))"

lemma obs_simps:
  assumes "obs_ok ob m lg"
  shows "m (upd ob f w) = f (m w)" "lg (upd ob f w) = lg w" "m (log ob l w) = m w" "lg (log ob l w) = lg w @ [l]"
    "m (snd (now ob w)) = m w" "lg (snd (now ob w)) = lg w"
  using assms by (simp_all add: obs_ok_def)

lemma add_at_back [simp]: "add_at k (- n) (add_at k n f) = f"
  by (rule ext) (simp add: add_at_def)

definition observed :: "status_lib \<Rightarrow> 'w obs \<Rightarrow> ('q, 'r, 'w) serverOptions" where
  "observed sl ob = NewServer [WithUnaryInterceptors [rpc_Recovery sl ob, rpc_Logging sl ob, UnaryInterceptor sl ob]]"

text \<open>The world in which the innermost handler runs.\<close>

definition inner_world :: "'w obs \<Rightarrow> string \<Rightarrow> 'w \<Rightarrow> 'w" where
  "inner_world ob method w = snd (now ob (upd ob (rpcInFlight_update (add_at method 1)) (snd (now ob w))))"

lemma observed_chain:
  assumes "chain_ok chain (\<lambda>i. i)"
  shows "chain (unaryInterceptors (observed sl ob)) method h =
    rpc_Recovery sl ob method (rpc_Logging sl ob method (UnaryInterceptor sl ob method h))"
  using assms by (simp add: observed_def NewServer_def WithUnaryInterceptors_def chain_ok_def)

text \<open>The interceptors one by one, on a handler that returns and on one that panics.\<close>

lemma metrics_Ret:
  assumes "obs_ok ob m lg" "h req (snd (now ob (upd ob (rpcInFlight_update (add_at mt 1)) w))) = (Ret (resp, e), w2)"
    and "m w2 = rpcInFlight_update (add_at mt 1) (m w)" "lg w2 = lg w"
  shows "fst (UnaryInterceptor sl ob mt h req w) = Ret (resp, e)"
    "rpcInFlight (m (snd (UnaryInterceptor sl ob mt h req w))) = rpcInFlight (m w)"
    "rpcTotal (m (snd (UnaryInterceptor sl ob mt h req w))) = add_at (mt, code_of sl e) 1 (rpcTotal (m w))"
    "lg (snd (UnaryInterceptor sl ob mt h req w)) = lg w"
  using assms(2-4)
  by (simp_all add: UnaryInterceptor_def Let_def case_prod_beta obs_simps [OF assms(1)] observe_def)

lemma metrics_Pan:
  assumes "h req (snd (now ob (upd ob (rpcInFlight_update (add_at mt 1)) w))) = (Pan p, w2)"
  shows "UnaryInterceptor sl ob mt h req w = (Pan p, w2)"
  using assms by (simp add: UnaryInterceptor_def Let_def case_prod_beta)

lemma logging_Ret:
  assumes "obs_ok ob m lg" "h req (snd (now ob w)) = (Ret (resp, e), w2)"
  shows "fst (rpc_Logging sl ob mt h req w) = Ret (resp, e)"
    "m (snd (rpc_Logging sl ob mt h req w)) = m w2"
    "\<exists>dur. lg (snd (rpc_Logging sl ob mt h req w)) =
      lg w2 @ [GrpcUnary (log_level (code_of sl e)) mt (code_of sl e) dur (log_error (code_of sl e) e)]"
  using assms(2) by (simp_all add: rpc_Logging_def Let_def case_prod_beta obs_simps [OF assms(1)])

text \<open>
  C24. A server with the interceptors in the documented order (recovery, logging, metrics). A call never
  panics. When the handler returns, the client gets its response and its error, one line with
  the code is logged, at the error level exactly for the codes that are the server's fault, the
  call is counted once under its code and the gauge of calls in flight is back at its value. When
  the handler panics, the client gets no response and the status \<open>Internal\<close> with the text of the
  panic, and only the panic is logged; but the call is not counted and the gauge stays one
  too high.
\<close>

theorem rpc_observed:
  assumes "status_ok sl" "obs_ok ob m lg" "chain_ok chain (\<lambda>i. i)" "quiet m lg (h req)"
    and "out = chain (unaryInterceptors (observed sl ob)) method h req w"
  shows "case fst (h req (inner_world ob method w)) of
      Ret (resp, e) \<Rightarrow> fst out = Ret (resp, e) \<and> rpcInFlight (m (snd out)) = rpcInFlight (m w) \<and>
        rpcTotal (m (snd out)) = add_at (method, code_of sl e) 1 (rpcTotal (m w)) \<and>
        (\<exists>dur. lg (snd out) = lg w @ [GrpcUnary (if isServerError (code_of sl e) then LevelError else LevelDebug) method
           (code_of sl e) dur (if isServerError (code_of sl e) then e else None)])
    | Pan p \<Rightarrow> (\<exists>e. fst out = Ret (None, Some e) \<and> status_Code sl e = CodeInternal \<and>
          e = status_Error sl CodeInternal (''internal error: '' @ p)) \<and>
        rpcInFlight (m (snd out)) = add_at method 1 (rpcInFlight (m w)) \<and> rpcTotal (m (snd out)) = rpcTotal (m w) \<and>
        lg (snd out) = lg w @ [PanicRecovered method p]"
proof -
  note ob = obs_simps [OF assms(2)]
  let ?w0 = "snd (now ob w)" and ?M = "UnaryInterceptor sl ob method h"
  obtain r w2 where h: "h req (inner_world ob method w) = (r, w2)" by fastforce
  have w2: "m w2 = rpcInFlight_update (add_at method 1) (m ?w0)" "lg w2 = lg ?w0"
    using assms(4) h ob unfolding quiet_def inner_world_def by (metis snd_conv)+
  have out: "out = rpc_Recovery sl ob method (rpc_Logging sl ob method ?M) req w"
    using assms(5) observed_chain [OF assms(3)] by simp
  show ?thesis
  proof (cases r)
    case (Ret x)
    obtain resp e where x: "r = Ret (resp, e)" using Ret by (cases x) simp
    note M = metrics_Ret [where h = h and req = req and w = ?w0 and mt = "method" and sl = sl and m = m and lg = lg,
      OF assms(2) h [unfolded inner_world_def x] w2]
    obtain w3 where w3: "?M req ?w0 = (Ret (resp, e), w3)" using M(1) by (cases "?M req ?w0") simp
    note L = logging_Ret [where h = ?M and sl = sl and mt = "method", OF assms(2) w3]
    have "out = rpc_Logging sl ob method ?M req w"
      using out L(1) by (cases "rpc_Logging sl ob method ?M req w") (simp add: rpc_Recovery_def)
    then show ?thesis using L M w3 h x ob by (simp add: log_level_def log_error_def)
  next
    case (Pan p)
    have "rpc_Logging sl ob method ?M req w = (Pan p, w2)"
      using metrics_Pan [of h req ob "method" ?w0 p w2 sl] h Pan
      by (simp add: rpc_Logging_def case_prod_beta inner_world_def)
    then have "out = (Ret (None, Some (status_Error sl CodeInternal (''internal error: '' @ p))), log ob (PanicRecovered method p) w2)"
      using out by (simp add: rpc_Recovery_def)
    then show ?thesis using Pan h w2 ob assms(1) by (simp add: status_ok_def)
  qed
qed

text \<open>The stream interceptor recovers in the same way; reflection is on whether asked for or not.\<close>

lemma StreamRecovery_never_panics:
  "\<exists>e w1. StreamRecovery sl ob info h w = (Ret e, w1)"
  by (cases "h w"; cases "fst (h w)") (auto simp: StreamRecovery_def)

lemma WithReflection_no_effect: "NewServer (WithReflection # os) = NewServer os"
  by (simp add: NewServer_def WithReflection_def)

lemma Serve_cases:
  "listen w = (Some e, w1) \<Longrightarrow> rpc_Serve listen wait stop w = (Some e, w1)"
  "listen w = (None, w1) \<Longrightarrow> wait w1 = (None, w2) \<Longrightarrow> rpc_Serve listen wait stop w = (None, stop w2)"
  "listen w = (None, w1) \<Longrightarrow> wait w1 = (Some e2, w2) \<Longrightarrow> rpc_Serve listen wait stop w = (e2, w2)"
  by (simp_all add: rpc_Serve_def)

text \<open>In-memory instances of the library and of the environment.\<close>

fun code_num :: "code \<Rightarrow> nat" where
  "code_num CodeOK = 0"
| "code_num CodeCanceled = 1"
| "code_num CodeUnknown = 2"
| "code_num CodeInvalidArgument = 3"
| "code_num CodeDeadlineExceeded = 4"
| "code_num CodeNotFound = 5"
| "code_num CodeAlreadyExists = 6"
| "code_num CodePermissionDenied = 7"
| "code_num CodeResourceExhausted = 8"
| "code_num CodeFailedPrecondition = 9"
| "code_num CodeAborted = 10"
| "code_num CodeOutOfRange = 11"
| "code_num CodeUnimplemented = 12"
| "code_num CodeInternal = 13"
| "code_num CodeUnavailable = 14"
| "code_num CodeDataLoss = 15"
| "code_num CodeUnauthenticated = 16"

definition all_codes :: "code list" where
  "all_codes = [CodeOK, CodeCanceled, CodeUnknown, CodeInvalidArgument, CodeDeadlineExceeded, CodeNotFound, CodeAlreadyExists, CodePermissionDenied, CodeResourceExhausted, CodeFailedPrecondition, CodeAborted, CodeOutOfRange, CodeUnimplemented, CodeInternal, CodeUnavailable, CodeDataLoss, CodeUnauthenticated]"

definition mem_status :: status_lib where
  "mem_status = \<lparr>status_Code = (\<lambda>e. case e of Errorf [Dec n, Lit m] \<Rightarrow> all_codes ! nat n | _ \<Rightarrow> CodeUnknown),
     status_Error = (\<lambda>c m. Errorf [Dec (int (code_num c)), Lit m])\<rparr>"

lemma mem_status_ok: "status_ok mem_status"
proof -
  have "all_codes ! code_num c = c" for c by (cases c) (simp_all add: all_codes_def)
  then show ?thesis by (simp add: status_ok_def mem_status_def)
qed

definition mem_obs :: "(rpc_metrics \<times> rpc_log list) obs" where
  "mem_obs = \<lparr>now = (\<lambda>w. (0, w)), log = (\<lambda>l (m, ls). (m, ls @ [l])), upd = (\<lambda>f (m, ls). (f m, ls))\<rparr>"

definition list_chain :: "('c \<Rightarrow> 'h \<Rightarrow> 'h) list \<Rightarrow> 'c \<Rightarrow> 'h \<Rightarrow> 'h" where
  "list_chain is info h = foldr (\<lambda>i k. i info k) is h"

lemma mem_obs_ok: "obs_ok mem_obs fst snd"
  by (auto simp: obs_ok_def mem_obs_def)

lemma list_chain_ok: "chain_ok list_chain (\<lambda>i. i)"
  by (simp add: chain_ok_def list_chain_def)

definition zero_metrics :: rpc_metrics where
  "zero_metrics = \<lparr>rpcTotal = (\<lambda>_. 0), rpcDuration = (\<lambda>_. []), rpcInFlight = (\<lambda>_. 0)\<rparr>"

theorem rpc_observed_witness:
  "rpcInFlight (fst (snd (list_chain (unaryInterceptors (observed mem_status mem_obs)) ''/m''
     (\<lambda>(q :: unit) w. (Pan ''boom'' :: (unit option \<times> err option) call, w)) () (zero_metrics, [])))) ''/m'' = 1"
  using rpc_observed [OF mem_status_ok mem_obs_ok list_chain_ok,
      of "\<lambda>(q :: unit) w. (Pan ''boom'' :: (unit option \<times> err option) call, w)" "()" _ "''/m''" "(zero_metrics, [])", OF _ refl]
  by (simp add: quiet_def add_at_def zero_metrics_def)

end
