(* ===== verification/Product.thy ===== *)
theory Product
  imports Rpc Complex_Main
begin

text \<open>
  The product API, \<open>api/product/v1\<close>: the messages, the client stub, the service with its handlers and
  its descriptor. The JSON codec and the connection are parameters. The connection is the gRPC
  library between the stub and the descriptor: it encodes the request, finds the method by its name,
  runs its handler with the server's interceptors, and encodes the response or carries the status of
  the error to the client.
\<close>

section \<open>Messages\<close>

record Product =
  ID :: string
  PName :: string
  Price :: rat

record GetProductRequest =
  get_ID :: string

record ListProductsRequest =
  PageSize :: int
  PageToken :: string

record ListProductsResponse =
  Products :: "Product list"
  NextPageToken :: string

record PlaceOrderRequest =
  ProductID :: string
  Quantity :: int

record PlaceOrderResponse =
  OrderID :: string
  Status :: string

text \<open>A value of type \<open>any\<close> that holds a message, and the Go type it points to.\<close>

datatype msg =
    MGet GetProductRequest
  | MList ListProductsRequest
  | MOrder PlaceOrderRequest
  | MProduct Product
  | MProducts ListProductsResponse
  | MOrdered PlaceOrderResponse

datatype msg_type = TGet | TList | TOrder | TProduct | TProducts | TOrdered

fun type_of :: "msg \<Rightarrow> msg_type" where
  "type_of (MGet m) = TGet"
| "type_of (MList m) = TList"
| "type_of (MOrder m) = TOrder"
| "type_of (MProduct m) = TProduct"
| "type_of (MProducts m) = TProducts"
| "type_of (MOrdered m) = TOrdered"

section \<open>Service\<close>

definition ServiceName :: string where
  "ServiceName = ''product.v1.ProductService''"

definition full_method :: "string \<Rightarrow> string" where
  "full_method name = ''/'' @ ServiceName @ ''/'' @ name"

record 'w ProductServiceServer =
  GetProduct :: "(GetProductRequest, Product, 'w) UnaryHandler"
  ListProducts :: "(ListProductsRequest, ListProductsResponse, 'w) UnaryHandler"
  PlaceOrder :: "(PlaceOrderRequest, PlaceOrderResponse, 'w) UnaryHandler"

definition errUnimplemented :: "status_lib \<Rightarrow> string \<Rightarrow> err" where
  "errUnimplemented sl method = status_Error sl CodeUnimplemented (''method '' @ method @ '' not implemented'')"

definition UnimplementedProductServiceServer :: "status_lib \<Rightarrow> 'w ProductServiceServer" where
  "UnimplementedProductServiceServer sl = \<lparr>
     GetProduct = (\<lambda>_ w. (Ret (None, Some (errUnimplemented sl ''GetProduct'')), w)),
     ListProducts = (\<lambda>_ w. (Ret (None, Some (errUnimplemented sl ''ListProducts'')), w)),
     PlaceOrder = (\<lambda>_ w. (Ret (None, Some (errUnimplemented sl ''PlaceOrder'')), w))\<rparr>"

text \<open>The response of a method as a value of type \<open>any\<close>.\<close>

definition as_any :: "('r \<Rightarrow> msg) \<Rightarrow> ('r option \<times> err option) call \<times> 'w \<Rightarrow> (msg option \<times> err option) call \<times> 'w" where
  "as_any f x = (case x of (Pan p, w) \<Rightarrow> (Pan p, w) | (Ret (r, e), w) \<Rightarrow> (Ret (map_option f r, e), w))"

text \<open>
  The handlers of the descriptor. \<open>dec\<close> decodes the request into a message of the given type; there
  may be no interceptor.
\<close>

type_synonym decoder = "msg_type \<Rightarrow> err + msg"
type_synonym 'w interceptor = "(msg, msg, 'w) UnaryInterceptor option"
type_synonym 'w method_handler = "'w ProductServiceServer \<Rightarrow> decoder \<Rightarrow> 'w interceptor \<Rightarrow> ('w, (msg option \<times> err option) call) action"

definition GetProduct_Handler :: "'w method_handler" where
  "GetProduct_Handler srv dec interceptor w =
     (let handler = (\<lambda>req. case req of MGet r \<Rightarrow> (\<lambda>w. as_any MProduct (GetProduct srv r w)) | _ \<Rightarrow> (\<lambda>w. (Pan ''interface conversion'', w))) in
      case dec TGet of
        Inl e \<Rightarrow> (Ret (None, Some e), w)
      | Inr req \<Rightarrow>
          (case interceptor of
             None \<Rightarrow> handler req w
           | Some i \<Rightarrow> i (full_method ''GetProduct'') handler req w))"

definition ListProducts_Handler :: "'w method_handler" where
  "ListProducts_Handler srv dec interceptor w =
     (let handler = (\<lambda>req. case req of MList r \<Rightarrow> (\<lambda>w. as_any MProducts (ListProducts srv r w)) | _ \<Rightarrow> (\<lambda>w. (Pan ''interface conversion'', w))) in
      case dec TList of
        Inl e \<Rightarrow> (Ret (None, Some e), w)
      | Inr req \<Rightarrow>
          (case interceptor of
             None \<Rightarrow> handler req w
           | Some i \<Rightarrow> i (full_method ''ListProducts'') handler req w))"

definition PlaceOrder_Handler :: "'w method_handler" where
  "PlaceOrder_Handler srv dec interceptor w =
     (let handler = (\<lambda>req. case req of MOrder r \<Rightarrow> (\<lambda>w. as_any MOrdered (PlaceOrder srv r w)) | _ \<Rightarrow> (\<lambda>w. (Pan ''interface conversion'', w))) in
      case dec TOrder of
        Inl e \<Rightarrow> (Ret (None, Some e), w)
      | Inr req \<Rightarrow>
          (case interceptor of
             None \<Rightarrow> handler req w
           | Some i \<Rightarrow> i (full_method ''PlaceOrder'') handler req w))"

definition ProductService_ServiceDesc :: "(string \<times> 'w method_handler) list" where
  "ProductService_ServiceDesc = [(''GetProduct'', GetProduct_Handler), (''ListProducts'', ListProducts_Handler),
     (''PlaceOrder'', PlaceOrder_Handler)]"

section \<open>Client\<close>

text \<open>
  \<open>Invoke\<close> of the connection: the method, the request and the type of the message \<open>out\<close> it decodes into. The
  last case of the stubs is for a message of another type, which \<open>out\<close> cannot hold.
\<close>

type_synonym 'w conn = "string \<Rightarrow> msg \<Rightarrow> msg_type \<Rightarrow> ('w, err + msg) action"

definition client_GetProduct :: "'w conn \<Rightarrow> GetProductRequest \<Rightarrow> ('w, err + Product) action" where
  "client_GetProduct invoke req w =
     (case invoke (full_method ''GetProduct'') (MGet req) TProduct w of
        (Inl e, w1) \<Rightarrow> (Inl e, w1)
      | (Inr (MProduct p), w1) \<Rightarrow> (Inr p, w1)
      | (Inr _, w1) \<Rightarrow> (Inl (ErrNew ''unreachable''), w1))"

definition client_ListProducts :: "'w conn \<Rightarrow> ListProductsRequest \<Rightarrow> ('w, err + ListProductsResponse) action" where
  "client_ListProducts invoke req w =
     (case invoke (full_method ''ListProducts'') (MList req) TProducts w of
        (Inl e, w1) \<Rightarrow> (Inl e, w1)
      | (Inr (MProducts p), w1) \<Rightarrow> (Inr p, w1)
      | (Inr _, w1) \<Rightarrow> (Inl (ErrNew ''unreachable''), w1))"

definition client_PlaceOrder :: "'w conn \<Rightarrow> PlaceOrderRequest \<Rightarrow> ('w, err + PlaceOrderResponse) action" where
  "client_PlaceOrder invoke req w =
     (case invoke (full_method ''PlaceOrder'') (MOrder req) TOrdered w of
        (Inl e, w1) \<Rightarrow> (Inl e, w1)
      | (Inr (MOrdered p), w1) \<Rightarrow> (Inr p, w1)
      | (Inr _, w1) \<Rightarrow> (Inl (ErrNew ''unreachable''), w1))"

section \<open>From the client to the service and back\<close>

record 'b json =
  Marshal :: "msg \<Rightarrow> err + 'b"
  Unmarshal :: "msg_type \<Rightarrow> 'b \<Rightarrow> err + msg"

definition json_ok :: "'b json \<Rightarrow> msg \<Rightarrow> bool" where
  "json_ok js m \<longleftrightarrow> (\<exists>b. Marshal js m = Inr b \<and> Unmarshal js (type_of m) b = Inr m)"

text \<open>What the library promises of a connection to a server with the given interceptor.\<close>

definition conn_ok :: "status_lib \<Rightarrow> 'b json \<Rightarrow> 'w ProductServiceServer \<Rightarrow> 'w interceptor \<Rightarrow> 'w conn \<Rightarrow> bool" where
  "conn_ok sl js srv i invoke \<longleftrightarrow>
     (\<forall>name h q b T w. map_of ProductService_ServiceDesc name = Some h \<longrightarrow> Marshal js q = Inr b \<longrightarrow>
       (case h srv (\<lambda>T. Unmarshal js T b) i w of
          (Ret (Some r, None), w1) \<Rightarrow> \<forall>b'. Marshal js r = Inr b' \<longrightarrow> invoke (full_method name) q T w = (Unmarshal js T b', w1)
        | (Ret (_, Some e), w1) \<Rightarrow> \<exists>e'. invoke (full_method name) q T w = (Inl e', w1) \<and> status_Code sl e' = status_Code sl e
        | _ \<Rightarrow> True))"

lemma conn_ok_value:
  assumes "conn_ok sl js srv i invoke" "map_of ProductService_ServiceDesc name = Some h" "Marshal js q = Inr b"
    and "h srv (\<lambda>T. Unmarshal js T b) i w = (Ret (Some r, None), w1)" "json_ok js r"
  shows "invoke (full_method name) q (type_of r) w = (Inr r, w1)"
proof -
  from assms(5) obtain b' where b': "Marshal js r = Inr b'" "Unmarshal js (type_of r) b' = Inr r" by (auto simp: json_ok_def)
  then show ?thesis
    using assms(1) [unfolded conn_ok_def, rule_format, OF assms(2,3), where w = w and T = "type_of r"] assms(4) by simp
qed

lemma conn_ok_error:
  assumes "conn_ok sl js srv i invoke" "map_of ProductService_ServiceDesc name = Some h" "Marshal js q = Inr b"
    and "h srv (\<lambda>T. Unmarshal js T b) i w = (Ret (x, Some e), w1)"
  shows "\<exists>e'. invoke (full_method name) q T w = (Inl e', w1) \<and> status_Code sl e' = status_Code sl e"
  using assms(1) [unfolded conn_ok_def, rule_format, OF assms(2,3), where w = w and T = T] assms(4) by (cases x) simp_all

lemma observed_fst:
  assumes "chain_ok chain (\<lambda>i. i)"
  shows "fst (chain (unaryInterceptors (observed sl ob)) method h req w) =
    (case fst (h req (inner_world ob method w)) of
       Ret x \<Rightarrow> Ret x | Pan p \<Rightarrow> Ret (None, Some (status_Error sl CodeInternal (''internal error: '' @ p))))"
  unfolding observed_chain [OF assms]
  by (simp add: rpc_Recovery_def rpc_Logging_def UnaryInterceptor_def inner_world_def Let_def case_prod_beta
      split: call.split)

text \<open>What the client should get for an outcome of the service's method.\<close>

definition call_ok :: "status_lib \<Rightarrow> ('r \<Rightarrow> bool) \<Rightarrow> ('r option \<times> err option) call \<Rightarrow> err + 'r \<Rightarrow> bool" where
  "call_ok sl enc res got \<longleftrightarrow>
     (case res of
        Ret (Some r, None) \<Rightarrow> enc r \<longrightarrow> got = Inr r
      | Ret (_, Some e) \<Rightarrow> (\<exists>e'. got = Inl e' \<and> status_Code sl e' = status_Code sl e)
      | Ret (None, None) \<Rightarrow> True
      | Pan p \<Rightarrow> (\<exists>e'. got = Inl e' \<and> status_Code sl e' = CodeInternal))"

definition server_interceptor :: "(('q, 'r, 'w) UnaryInterceptor list \<Rightarrow> ('q, 'r, 'w) UnaryInterceptor) \<Rightarrow> status_lib \<Rightarrow> 'w obs
    \<Rightarrow> ('q, 'r, 'w) UnaryInterceptor option" where
  "server_interceptor chain sl ob = Some (chain (unaryInterceptors (observed sl ob)))"

lemma method_call:
  assumes "status_ok sl" "chain_ok chain (\<lambda>i. i)" "conn_ok sl js srv (server_interceptor chain sl ob) invoke"
    and "map_of ProductService_ServiceDesc name = Some h" "Marshal js q = Inr b"
    and h: "h srv (\<lambda>T. Unmarshal js T b) (server_interceptor chain sl ob) w =
      chain (unaryInterceptors (observed sl ob)) (full_method name) hnd q w"
    and hnd: "\<And>w. hnd q w = as_any f (m w)"
    and f: "\<And>r. type_of (f r) = T" "\<And>r. g (f r) = Inr r" "\<And>e. g' (Inl e) = Inl e" "\<And>x. g' (Inr x) = g x"
  shows "call_ok sl (\<lambda>r. json_ok js (f r)) (fst (m (inner_world ob (full_method name) w)))
    (g' (fst (invoke (full_method name) q T w)))"
proof -
  let ?w1 = "inner_world ob (full_method name) w" and ?run = "h srv (\<lambda>T. Unmarshal js T b) (server_interceptor chain sl ob) w"
  have run: "fst ?run = (case fst (m ?w1) of Ret (r, e) \<Rightarrow> Ret (map_option f r, e)
      | Pan p \<Rightarrow> Ret (None, Some (status_Error sl CodeInternal (''internal error: '' @ p))))"
    unfolding h observed_fst [OF assms(2)] hnd as_any_def by (auto split: prod.split call.split)
  have err: "\<exists>e'. g' (fst (invoke (full_method name) q T w)) = Inl e' \<and> status_Code sl e' = status_Code sl e"
    if "fst ?run = Ret (x, Some e)" for x e
    using conn_ok_error [OF assms(3-5), of w x e "snd ?run" T] that f(3) by (metis fst_conv prod.collapse)
  have val: "g' (fst (invoke (full_method name) q T w)) = Inr r" if "fst ?run = Ret (Some (f r), None)" "json_ok js (f r)" for r
    using conn_ok_value [OF assms(3-5), of w "f r" "snd ?run"] that f by (metis fst_conv prod.collapse)
  have int: "status_Code sl (status_Error sl CodeInternal s) = CodeInternal" for s using assms(1) by (simp add: status_ok_def)
  show ?thesis
    using run err val int unfolding call_ok_def
    by (cases "fst (m ?w1)") (auto split: option.split)
qed

lemma GetProduct_call:
  assumes "status_ok sl" "chain_ok chain (\<lambda>i. i)" "conn_ok sl js srv (server_interceptor chain sl ob) invoke" "json_ok js (MGet r)"
  shows "call_ok sl (\<lambda>p. json_ok js (MProduct p)) (fst (GetProduct srv r (inner_world ob (full_method ''GetProduct'') w)))
    (fst (client_GetProduct invoke r w))"
proof -
  from assms(4) obtain b where b: "Marshal js (MGet r) = Inr b" "Unmarshal js TGet b = Inr (MGet r)" by (auto simp: json_ok_def)
  let ?g = "\<lambda>x. case x of MProduct p \<Rightarrow> Inr p | _ \<Rightarrow> Inl (ErrNew ''unreachable'')"
  let ?hd = "\<lambda>req. case req of MGet r \<Rightarrow> (\<lambda>w. as_any MProduct (GetProduct srv r w)) | _ \<Rightarrow> (\<lambda>w. (Pan ''interface conversion'', w))"
  have "fst (client_GetProduct invoke r w) = case_sum Inl ?g (fst (invoke (full_method ''GetProduct'') (MGet r) TProduct w))"
    by (auto simp: client_GetProduct_def split: prod.split sum.split msg.split)
  then show ?thesis
    using method_call [OF assms(1-3), where name = "''GetProduct''" and h = GetProduct_Handler and hnd = ?hd and f = MProduct and g = ?g and
        g' = "case_sum Inl ?g" and q = "MGet r" and b = b and T = TProduct and w = w and m = "GetProduct srv r"] b
    by (simp add: ProductService_ServiceDesc_def GetProduct_Handler_def server_interceptor_def)
qed

lemma ListProducts_call:
  assumes "status_ok sl" "chain_ok chain (\<lambda>i. i)" "conn_ok sl js srv (server_interceptor chain sl ob) invoke" "json_ok js (MList r)"
  shows "call_ok sl (\<lambda>p. json_ok js (MProducts p)) (fst (ListProducts srv r (inner_world ob (full_method ''ListProducts'') w)))
    (fst (client_ListProducts invoke r w))"
proof -
  from assms(4) obtain b where b: "Marshal js (MList r) = Inr b" "Unmarshal js TList b = Inr (MList r)" by (auto simp: json_ok_def)
  let ?g = "\<lambda>x. case x of MProducts p \<Rightarrow> Inr p | _ \<Rightarrow> Inl (ErrNew ''unreachable'')"
  let ?hd = "\<lambda>req. case req of MList r \<Rightarrow> (\<lambda>w. as_any MProducts (ListProducts srv r w)) | _ \<Rightarrow> (\<lambda>w. (Pan ''interface conversion'', w))"
  have "fst (client_ListProducts invoke r w) = case_sum Inl ?g (fst (invoke (full_method ''ListProducts'') (MList r) TProducts w))"
    by (auto simp: client_ListProducts_def split: prod.split sum.split msg.split)
  then show ?thesis
    using method_call [OF assms(1-3), where name = "''ListProducts''" and h = ListProducts_Handler and hnd = ?hd and f = MProducts and g = ?g and
        g' = "case_sum Inl ?g" and q = "MList r" and b = b and T = TProducts and w = w and m = "ListProducts srv r"] b
    by (simp add: ProductService_ServiceDesc_def ListProducts_Handler_def server_interceptor_def)
qed

lemma PlaceOrder_call:
  assumes "status_ok sl" "chain_ok chain (\<lambda>i. i)" "conn_ok sl js srv (server_interceptor chain sl ob) invoke" "json_ok js (MOrder r)"
  shows "call_ok sl (\<lambda>p. json_ok js (MOrdered p)) (fst (PlaceOrder srv r (inner_world ob (full_method ''PlaceOrder'') w)))
    (fst (client_PlaceOrder invoke r w))"
proof -
  from assms(4) obtain b where b: "Marshal js (MOrder r) = Inr b" "Unmarshal js TOrder b = Inr (MOrder r)" by (auto simp: json_ok_def)
  let ?g = "\<lambda>x. case x of MOrdered p \<Rightarrow> Inr p | _ \<Rightarrow> Inl (ErrNew ''unreachable'')"
  let ?hd = "\<lambda>req. case req of MOrder r \<Rightarrow> (\<lambda>w. as_any MOrdered (PlaceOrder srv r w)) | _ \<Rightarrow> (\<lambda>w. (Pan ''interface conversion'', w))"
  have "fst (client_PlaceOrder invoke r w) = case_sum Inl ?g (fst (invoke (full_method ''PlaceOrder'') (MOrder r) TOrdered w))"
    by (auto simp: client_PlaceOrder_def split: prod.split sum.split msg.split)
  then show ?thesis
    using method_call [OF assms(1-3), where name = "''PlaceOrder''" and h = PlaceOrder_Handler and hnd = ?hd and f = MOrdered and g = ?g and
        g' = "case_sum Inl ?g" and q = "MOrder r" and b = b and T = TOrdered and w = w and m = "PlaceOrder srv r"] b
    by (simp add: ProductService_ServiceDesc_def PlaceOrder_Handler_def server_interceptor_def)
qed

section \<open>Properties\<close>


text \<open>A connection within one process, with messages that need no encoding.\<close>

definition id_json :: "msg json" where
  "id_json = \<lparr>Marshal = Inr, Unmarshal = (\<lambda>T m. Inr m)\<rparr>"

definition loopback :: "'w ProductServiceServer \<Rightarrow> 'w interceptor \<Rightarrow> 'w conn" where
  "loopback srv i method q T w =
     (case map_of (map (\<lambda>(n, h). (full_method n, h)) ProductService_ServiceDesc) method of
        None \<Rightarrow> (Inl (ErrNew ''unknown method''), w)
      | Some h \<Rightarrow>
          (case h srv (\<lambda>_. Inr q) i w of
             (Ret (Some r, None), w1) \<Rightarrow> (Inr r, w1)
           | (Ret (_, Some e), w1) \<Rightarrow> (Inl e, w1)
           | (_, w1) \<Rightarrow> (Inl (ErrNew ''transport''), w1)))"

lemma map_of_full_method: "map_of (map (\<lambda>(n, h). (full_method n, h)) xs) (full_method name) = map_of xs name"
  by (induction xs) (auto simp: full_method_def)

lemma loopback_ok: "conn_ok sl id_json srv i (loopback srv i)"
  unfolding conn_ok_def
  by (auto simp: loopback_def map_of_full_method id_json_def split: prod.split call.split option.split)

definition demo_service :: "'w ProductServiceServer" where
  "demo_service = (UnimplementedProductServiceServer mem_status)\<lparr>
     GetProduct := (\<lambda>r w. (Ret (Some \<lparr>ID = get_ID r, PName = ''Hub'', Price = 35\<rparr>, None), w))\<rparr>"


end
