(* ===== verification/Metrics.thy ===== *)
theory Metrics
  imports Floats GoStrings Rpc
begin

text \<open>
  The Prometheus instruments: the registry and its constructors (\<open>pkg/metrics/metrics.go\<close>), the
  collectors for the worker pool, the cache and the database pool (\<open>pkg/metrics/collectors.go\<close>,
  \<open>pkg/store/metrics.go\<close>), and the instruments of the HTTP and RPC middleware. The client library is a
  parameter: a registry accepts descriptors or refuses them.
\<close>

section \<open>Descriptors and the library\<close>

record desc =
  fqName :: string
  helpText :: string
  constLabels :: "(string \<times> string) list"
  variableLabels :: "string list"

text \<open>
  \<open>desc_of\<close> is the descriptor of a vector of instruments with the given namespace, name, help and label
  names. \<open>MustRegister\<close> takes the descriptors of each collector; it returns or panics.
\<close>

record 'w prom_lib =
  desc_of :: "string \<Rightarrow> string \<Rightarrow> string \<Rightarrow> string list \<Rightarrow> desc"
  NewPromRegistry :: "'w \<Rightarrow> 'w"
  MustRegisterAll :: "desc list list \<Rightarrow> ('w, unit call) action"
  RegisterOne :: "desc list \<Rightarrow> ('w, err option) action"
  goDescs :: "desc list"
  processDescs :: "desc list"
  DefBuckets :: "rat list"

section \<open>Registry\<close>

record Registry =
  namespace :: string

definition NewRegistry :: "'w prom_lib \<Rightarrow> string \<Rightarrow> ('w, Registry call) action" where
  "NewRegistry lib ns w =
     (case MustRegisterAll lib [goDescs lib, processDescs lib] (NewPromRegistry lib w) of
        (Pan p, w1) \<Rightarrow> (Pan p, w1)
      | (Ret _, w1) \<Rightarrow> (Ret \<lparr>namespace = ns\<rparr>, w1))"

definition reg_MustRegister :: "'w prom_lib \<Rightarrow> desc list list \<Rightarrow> ('w, unit call) action" where
  "reg_MustRegister lib cs w = MustRegisterAll lib cs w"

definition reg_Register :: "'w prom_lib \<Rightarrow> desc list \<Rightarrow> ('w, err option) action" where
  "reg_Register lib c w = RegisterOne lib c w"

text \<open>The typed constructors: a vector is registered and returned. A histogram has default buckets.\<close>

record vec =
  vdesc :: desc
  buckets :: "rat list"

definition registered :: "'w prom_lib \<Rightarrow> vec \<Rightarrow> ('w, vec call) action" where
  "registered lib v w =
     (case MustRegisterAll lib [[vdesc v]] w of (Pan p, w1) \<Rightarrow> (Pan p, w1) | (Ret _, w1) \<Rightarrow> (Ret v, w1))"

record CounterOpts =
  oName :: string
  oHelp :: string
  oLabels :: "string list"

type_synonym GaugeOpts = CounterOpts

record HistogramOpts = CounterOpts +
  oBuckets :: "rat list"

definition NewCounter :: "'w prom_lib \<Rightarrow> Registry \<Rightarrow> CounterOpts \<Rightarrow> ('w, vec call) action" where
  "NewCounter lib reg opts w =
     registered lib \<lparr>vdesc = desc_of lib (namespace reg) (oName opts) (oHelp opts) (oLabels opts), buckets = []\<rparr> w"

definition NewGauge :: "'w prom_lib \<Rightarrow> Registry \<Rightarrow> GaugeOpts \<Rightarrow> ('w, vec call) action" where
  "NewGauge lib reg opts w =
     registered lib \<lparr>vdesc = desc_of lib (namespace reg) (oName opts) (oHelp opts) (oLabels opts), buckets = []\<rparr> w"

definition NewHistogram :: "'w prom_lib \<Rightarrow> Registry \<Rightarrow> HistogramOpts \<Rightarrow> ('w, vec call) action" where
  "NewHistogram lib reg opts w =
     (let bs = (if oBuckets opts = [] then DefBuckets lib else oBuckets opts)
      in registered lib \<lparr>vdesc = desc_of lib (namespace reg) (oName opts) (oHelp opts) (oLabels opts), buckets = bs\<rparr> w)"

section \<open>Collectors\<close>

datatype value_type = CounterValue | GaugeValue

record const_metric =
  mdesc :: desc
  mtype :: value_type
  mvalue :: rat

record PoolSnapshot =
  sSubmitted :: "64 word"
  sCompleted :: "64 word"
  sErrors :: "64 word"
  sInFlight :: int
  sQueueDepth :: int

text \<open>\<open>float64(x)\<close> of an unsigned integer.\<close>

definition u2f :: "fpu \<Rightarrow> 64 word \<Rightarrow> rat" where
  "u2f fp x = i2f fp (uint x)"

record 'w PoolCollector =
  pfn :: "('w, PoolSnapshot) action"
  pdescs :: "desc list"

definition pool_desc :: "string \<Rightarrow> string \<Rightarrow> string \<Rightarrow> desc" where
  "pool_desc name metric hlp = \<lparr>fqName = ''gkit_pool_'' @ metric, helpText = hlp, constLabels = [(''pool'', name)], variableLabels = []\<rparr>"

definition NewPoolCollector :: "string \<Rightarrow> ('w, PoolSnapshot) action \<Rightarrow> 'w PoolCollector" where
  "NewPoolCollector name fn = \<lparr>pfn = fn, pdescs = [
     pool_desc name ''jobs_submitted_total'' ''Total number of jobs submitted.'',
     pool_desc name ''jobs_completed_total'' ''Total number of jobs completed.'',
     pool_desc name ''jobs_errors_total'' ''Total number of jobs that returned an error.'',
     pool_desc name ''jobs_in_flight'' ''Number of jobs currently being processed.'',
     pool_desc name ''queue_depth'' ''Number of jobs waiting in the queue buffer.'']\<rparr>"

definition pool_Describe :: "'w PoolCollector \<Rightarrow> desc list" where
  "pool_Describe c = pdescs c"

definition const_metrics :: "desc list \<Rightarrow> (value_type \<times> rat) list \<Rightarrow> const_metric list" where
  "const_metrics ds vs = map2 (\<lambda>d (t, v). \<lparr>mdesc = d, mtype = t, mvalue = v\<rparr>) ds vs"

definition pool_Collect :: "fpu \<Rightarrow> 'w PoolCollector \<Rightarrow> ('w, const_metric list) action" where
  "pool_Collect fp c w =
     (let (s, w1) = pfn c w
      in (const_metrics (pdescs c) [(CounterValue, u2f fp (sSubmitted s)), (CounterValue, u2f fp (sCompleted s)),
            (CounterValue, u2f fp (sErrors s)), (GaugeValue, i2f fp (sInFlight s)), (GaugeValue, i2f fp (sQueueDepth s))], w1))"

record CacheSnapshot =
  sHits :: "64 word"
  sMisses :: "64 word"
  sEvicts :: "64 word"
  sLen :: int

record 'w CacheCollector =
  cfn :: "('w, CacheSnapshot) action"
  cdescs :: "desc list"

definition cache_desc :: "string \<Rightarrow> string \<Rightarrow> string \<Rightarrow> desc" where
  "cache_desc name metric hlp = \<lparr>fqName = ''gkit_cache_'' @ metric, helpText = hlp, constLabels = [(''cache'', name)], variableLabels = []\<rparr>"

definition NewCacheCollector :: "string \<Rightarrow> ('w, CacheSnapshot) action \<Rightarrow> 'w CacheCollector" where
  "NewCacheCollector name fn = \<lparr>cfn = fn, cdescs = [
     cache_desc name ''hits_total'' ''Total cache hits.'',
     cache_desc name ''misses_total'' ''Total cache misses.'',
     cache_desc name ''evictions_total'' ''Total cache evictions (LRU or TTL).'',
     cache_desc name ''size'' ''Current number of items in the cache.'']\<rparr>"

definition cache_Describe :: "'w CacheCollector \<Rightarrow> desc list" where
  "cache_Describe c = cdescs c"

definition cache_Collect :: "fpu \<Rightarrow> 'w CacheCollector \<Rightarrow> ('w, const_metric list) action" where
  "cache_Collect fp c w =
     (let (s, w1) = cfn c w
      in (const_metrics (cdescs c) [(CounterValue, u2f fp (sHits s)), (CounterValue, u2f fp (sMisses s)),
            (CounterValue, u2f fp (sEvicts s)), (GaugeValue, i2f fp (sLen s))], w1))"

text \<open>The collector of the database pool; its descriptors carry no label.\<close>

record pgx_stat =
  TotalConns :: int
  IdleConns :: int
  AcquiredConns :: int
  MaxConns :: int
  AcquireCount :: int

definition pgx_desc :: "string \<Rightarrow> string \<Rightarrow> desc" where
  "pgx_desc name hlp = \<lparr>fqName = name, helpText = hlp, constLabels = [], variableLabels = []\<rparr>"

definition newPoolCollector :: "desc list" where
  "newPoolCollector = [
     pgx_desc ''pgx_pool_total_connections'' ''Total number of connections in the pool.'',
     pgx_desc ''pgx_pool_idle_connections'' ''Number of idle connections in the pool.'',
     pgx_desc ''pgx_pool_used_connections'' ''Number of connections currently in use.'',
     pgx_desc ''pgx_pool_max_connections'' ''Maximum number of connections allowed.'',
     pgx_desc ''pgx_pool_acquire_total'' ''Total number of connection acquire operations.'']"

definition dbpool_Collect :: "fpu \<Rightarrow> ('w, pgx_stat) action \<Rightarrow> ('w, const_metric list) action" where
  "dbpool_Collect fp stat w =
     (let (s, w1) = stat w
      in (const_metrics newPoolCollector [(GaugeValue, i2f fp (TotalConns s)), (GaugeValue, i2f fp (IdleConns s)),
            (GaugeValue, i2f fp (AcquiredConns s)), (GaugeValue, i2f fp (MaxConns s)), (CounterValue, i2f fp (AcquireCount s))], w1))"

section \<open>The instruments of the middleware\<close>

definition http_instruments :: "'w prom_lib \<Rightarrow> vec list" where
  "http_instruments lib = [
     \<lparr>vdesc = desc_of lib [] ''http_requests_total'' ''Total HTTP requests, partitioned by method, path, and status.''
        [''method'', ''path'', ''status''], buckets = []\<rparr>,
     \<lparr>vdesc = desc_of lib [] ''http_request_duration_seconds'' ''HTTP request latency histogram.'' [''method'', ''path''],
        buckets = [5/1000, 1/100, 25/1000, 5/100, 1/10, 25/100, 5/10, 1, 25/10, 5, 10]\<rparr>,
     \<lparr>vdesc = desc_of lib [] ''http_requests_in_flight'' ''Current number of HTTP requests being served.'' [''method''], buckets = []\<rparr>,
     \<lparr>vdesc = desc_of lib [] ''http_response_bytes_total'' ''Total bytes sent in HTTP responses.'' [''method''], buckets = []\<rparr>]"

definition NewHTTPMetrics :: "'w prom_lib \<Rightarrow> ('w, vec list call) action" where
  "NewHTTPMetrics lib w =
     (case MustRegisterAll lib (map (\<lambda>v. [vdesc v]) (http_instruments lib)) w of
        (Pan p, w1) \<Rightarrow> (Pan p, w1) | (Ret _, w1) \<Rightarrow> (Ret (http_instruments lib), w1))"

definition rpc_instruments :: "'w prom_lib \<Rightarrow> vec list" where
  "rpc_instruments lib = [
     \<lparr>vdesc = desc_of lib [] ''grpc_server_requests_total'' ''Total number of gRPC requests completed, by method and code.''
        [''method'', ''code''], buckets = []\<rparr>,
     \<lparr>vdesc = desc_of lib [] ''grpc_server_request_duration_seconds'' ''Histogram of gRPC request latencies.'' [''method''],
        buckets = [1/1000, 5/1000, 1/100, 25/1000, 5/100, 1/10, 25/100, 5/10, 1, 25/10, 5]\<rparr>,
     \<lparr>vdesc = desc_of lib [] ''grpc_server_requests_in_flight'' ''Number of gRPC requests currently being processed.'' [''method''],
        buckets = []\<rparr>]"

definition NewRPCMetrics :: "'w prom_lib \<Rightarrow> ('w, vec list call) action" where
  "NewRPCMetrics lib w =
     (case MustRegisterAll lib (map (\<lambda>v. [vdesc v]) (rpc_instruments lib)) w of
        (Pan p, w1) \<Rightarrow> (Pan p, w1) | (Ret _, w1) \<Rightarrow> (Ret (rpc_instruments lib), w1))"

section \<open>The library's laws\<close>

text \<open>
  A descriptor may be added to a registry when no registered one has its name and its constant
  labels, and all with its name have its help text and label names.
\<close>

definition same_id :: "desc \<Rightarrow> desc \<Rightarrow> bool" where
  "same_id d d' \<longleftrightarrow> fqName d = fqName d' \<and> set (constLabels d) = set (constLabels d')"

definition consistent :: "desc \<Rightarrow> desc \<Rightarrow> bool" where
  "consistent d d' \<longleftrightarrow> fqName d = fqName d' \<longrightarrow> helpText d = helpText d' \<and>
     set (map fst (constLabels d) @ variableLabels d) = set (map fst (constLabels d') @ variableLabels d')"

fun all_fit :: "desc list \<Rightarrow> desc list \<Rightarrow> bool" where
  "all_fit regs [] = True"
| "all_fit regs (d # ds) = (list_all (\<lambda>d'. \<not> same_id d d' \<and> consistent d d') regs \<and> all_fit (regs @ [d]) ds)"

definition prom_ok :: "'w prom_lib \<Rightarrow> ('w \<Rightarrow> desc list) \<Rightarrow> bool" where
  "prom_ok lib regs \<longleftrightarrow>
     (\<forall>cs w. all_fit (regs w) (concat cs) \<longrightarrow>
        (\<exists>w1. MustRegisterAll lib cs w = (Ret (), w1) \<and> regs w1 = regs w @ concat cs)) \<and>
     (\<forall>c cs w. list_ex (\<lambda>d. list_ex (same_id d) (regs w)) c \<longrightarrow> (\<exists>p w1. MustRegisterAll lib (c # cs) w = (Pan p, w1))) \<and>
     (\<forall>w. regs (NewPromRegistry lib w) = []) \<and>
     (\<forall>ns n h ls. desc_of lib ns n h ls =
        \<lparr>fqName = (if ns = [] then n else ns @ ''_'' @ n), helpText = h, constLabels = [], variableLabels = ls\<rparr>) \<and>
     all_fit [] (goDescs lib @ processDescs lib) \<and>
     list_all (\<lambda>d. take 3 (fqName d) = ''go_'' \<or> take 8 (fqName d) = ''process_'') (goDescs lib @ processDescs lib)"

lemma prom_okD:
  assumes "prom_ok lib regs"
  shows "all_fit (regs w) (concat cs) \<Longrightarrow> \<exists>w1. MustRegisterAll lib cs w = (Ret (), w1) \<and> regs w1 = regs w @ concat cs"
    "list_ex (\<lambda>d. list_ex (same_id d) (regs w)) c \<Longrightarrow> \<exists>p w1. MustRegisterAll lib (c # cs) w = (Pan p, w1)"
    "regs (NewPromRegistry lib w) = []"
    "desc_of lib ns n h ls =
        \<lparr>fqName = (if ns = [] then n else ns @ ''_'' @ n), helpText = h, constLabels = [], variableLabels = ls\<rparr>"
    "all_fit [] (goDescs lib @ processDescs lib)"
    "list_all (\<lambda>d. take 3 (fqName d) = ''go_'' \<or> take 8 (fqName d) = ''process_'') (goDescs lib @ processDescs lib)"
  using assms unfolding prom_ok_def by blast+

text \<open>Descriptors with new, different names fit.\<close>

lemma all_fit_names:
  "distinct (map fqName ds) \<Longrightarrow> list_all (\<lambda>d. fqName d \<notin> set (map fqName regs)) ds \<Longrightarrow> all_fit regs ds"
proof (induction ds arbitrary: regs)
  case (Cons d ds)
  have "all_fit (regs @ [d]) ds" by (rule Cons.IH) (use Cons.prems in \<open>auto simp: list_all_iff image_iff\<close>)
  moreover have "list_all (\<lambda>d'. \<not> same_id d d' \<and> consistent d d') regs"
    using Cons.prems by (auto simp: list_all_iff same_id_def consistent_def)
  ultimately show ?case by simp
qed simp

text \<open>
  The contract of a collector: it sends one value for each descriptor it describes, in their order.
\<close>

lemma collectors_contract:
  "map mdesc (fst (pool_Collect fp (NewPoolCollector name fn) w)) = pool_Describe (NewPoolCollector name fn)"
  "map mdesc (fst (cache_Collect fp (NewCacheCollector name cfn') w)) = cache_Describe (NewCacheCollector name cfn')"
  "map mdesc (fst (dbpool_Collect fp stat w)) = newPoolCollector"
  by (simp_all add: pool_Collect_def NewPoolCollector_def pool_Describe_def cache_Collect_def NewCacheCollector_def
      cache_Describe_def dbpool_Collect_def newPoolCollector_def const_metrics_def case_prod_beta)

section \<open>A registry in memory\<close>

text \<open>An instance of the library: the registry is the list of its descriptors.\<close>

definition plain_desc :: "string \<Rightarrow> string \<Rightarrow> desc" where
  "plain_desc name hlp = \<lparr>fqName = name, helpText = hlp, constLabels = [], variableLabels = []\<rparr>"

definition mem_prom :: "desc list prom_lib" where
  "mem_prom = \<lparr>
     desc_of = (\<lambda>ns n h ls. \<lparr>fqName = (if ns = [] then n else ns @ ''_'' @ n), helpText = h, constLabels = [], variableLabels = ls\<rparr>),
     NewPromRegistry = (\<lambda>_. []),
     MustRegisterAll = (\<lambda>cs ds. if all_fit ds (concat cs) then (Ret (), ds @ concat cs) else (Pan ''duplicate metrics collector registration attempted'', ds)),
     RegisterOne = (\<lambda>c ds. if all_fit ds c then (None, ds @ c) else (Some (ErrNew ''duplicate metrics collector registration attempted''), ds)),
     goDescs = [plain_desc ''go_goroutines'' ''Number of goroutines that currently exist.''],
     processDescs = [plain_desc ''process_open_fds'' ''Number of open file descriptors.''],
     DefBuckets = [5/1000, 1/100, 25/1000, 5/100, 1/10, 25/100, 5/10, 1, 25/10, 5, 10]\<rparr>"

lemma all_fit_duplicate: "list_ex (\<lambda>d. list_ex (same_id d) regs) c \<Longrightarrow> \<not> all_fit regs (c @ ds)"
proof (induction c arbitrary: regs)
  case (Cons a c)
  show ?case
  proof (cases "list_ex (same_id a) regs")
    case True
    then show ?thesis by (auto simp: list_all_iff list_ex_iff)
  next
    case False
    then have "list_ex (\<lambda>d. list_ex (same_id d) (regs @ [a])) c" using Cons.prems by (auto simp: list_ex_iff)
    from Cons.IH [OF this] show ?thesis by simp
  qed
qed simp

lemma mem_prom_ok: "prom_ok mem_prom (\<lambda>ds. ds)"
  unfolding prom_ok_def by (intro conjI) (simp_all add: mem_prom_def all_fit_duplicate plain_desc_def same_id_def consistent_def)

text \<open>
  The instruments have fixed names, so a second set of them on the same registry panics, and so does
  a second database pool; two collectors of worker pools with different names are accepted.
\<close>

lemma http_metrics_twice:
  assumes "prom_ok lib regs" "NewHTTPMetrics lib w = (Ret vs, w1)" "regs w1 = regs w @ map vdesc (http_instruments lib)"
  shows "\<exists>p w2. NewHTTPMetrics lib w1 = (Pan p, w2)"
proof -
  let ?d = "vdesc (hd (http_instruments lib))"
  have "list_ex (\<lambda>d. list_ex (same_id d) (regs w1)) [?d]"
    using assms(3) by (simp add: http_instruments_def same_id_def)
  from prom_okD(2) [OF assms(1) this] obtain p w2
    where "MustRegisterAll lib ([?d] # map (\<lambda>v. [vdesc v]) (tl (http_instruments lib))) w1 = (Pan p, w2)" by blast
  moreover have "map (\<lambda>v. [vdesc v]) (http_instruments lib) = [?d] # map (\<lambda>v. [vdesc v]) (tl (http_instruments lib))"
    by (simp add: http_instruments_def)
  ultimately show ?thesis by (simp add: NewHTTPMetrics_def)
qed

lemma store_collector_twice:
  assumes "prom_ok lib regs" "list_all (\<lambda>d. d \<in> set (regs w)) newPoolCollector"
  shows "\<exists>p w1. reg_MustRegister lib [newPoolCollector] w = (Pan p, w1)"
  unfolding reg_MustRegister_def
  by (rule prom_okD(2) [OF assms(1)]) (use assms(2) in \<open>auto simp: newPoolCollector_def same_id_def list_ex_iff\<close>)

lemma pool_collectors_differ:
  assumes "name \<noteq> name'"
  shows "all_fit [] (pool_Describe (NewPoolCollector name f) @ pool_Describe (NewPoolCollector name' f'))"
  using assms by (simp add: pool_Describe_def NewPoolCollector_def pool_desc_def same_id_def consistent_def)

end
