(* ===== verification/Tracing.thy ===== *)
theory Tracing
  imports GoStd
begin

text \<open>
  The OpenTelemetry set-up of \<open>pkg/otel/tracer.go\<close>. The SDK, its exporters and the attribute
  constructors are parameters; resources, exporters, span processors and providers are values of
  the SDK's own types.
\<close>

section \<open>The SDK\<close>

record ('w, 'kv, 's, 'r, 'x, 'p, 't) otel_lib =
  AlwaysSample :: 's
  semconv_ServiceName :: "string \<Rightarrow> 'kv"
  semconv_ServiceVersion :: "string \<Rightarrow> 'kv"
  attribute_String :: "string \<Rightarrow> string \<Rightarrow> 'kv"
  resource_New :: "'kv list \<Rightarrow> ('w, err + 'r) action"
  stdouttrace_New :: "('w, err + 'x) action"
  otlptracegrpc_New :: "string \<Rightarrow> duration \<Rightarrow> ('w, err + 'x) action"
  NewBatchSpanProcessor :: "'x \<Rightarrow> ('w, 'p) action"
  sdk_NewTracerProvider :: "'s \<Rightarrow> 'r \<Rightarrow> ('w, 't) action"
  RegisterSpanProcessor :: "'t \<Rightarrow> 'p \<Rightarrow> 'w \<Rightarrow> 'w"
  SetTracerProvider :: "'t \<Rightarrow> 'w \<Rightarrow> 'w"
  SetTextMapPropagator :: "string list \<Rightarrow> 'w \<Rightarrow> 'w"

section \<open>Options\<close>

record ('kv, 's) otel_config =
  serviceName :: string
  serviceVersion :: string
  environment :: string
  otlpEndpoint :: string
  sampler :: 's
  extraAttrs :: "'kv list"

definition WithServiceName :: "string \<Rightarrow> ('kv, 's) otel_config \<Rightarrow> ('kv, 's) otel_config" where
  "WithServiceName n c = c\<lparr>serviceName := n\<rparr>"

definition WithServiceVersion :: "string \<Rightarrow> ('kv, 's) otel_config \<Rightarrow> ('kv, 's) otel_config" where
  "WithServiceVersion v c = c\<lparr>serviceVersion := v\<rparr>"

definition WithEnvironment :: "string \<Rightarrow> ('kv, 's) otel_config \<Rightarrow> ('kv, 's) otel_config" where
  "WithEnvironment e c = c\<lparr>environment := e\<rparr>"

definition WithOTLPEndpoint :: "string \<Rightarrow> ('kv, 's) otel_config \<Rightarrow> ('kv, 's) otel_config" where
  "WithOTLPEndpoint addr c = c\<lparr>otlpEndpoint := addr\<rparr>"

definition WithSampler :: "'s \<Rightarrow> ('kv, 's) otel_config \<Rightarrow> ('kv, 's) otel_config" where
  "WithSampler s c = c\<lparr>sampler := s\<rparr>"

definition WithAttributes :: "'kv list \<Rightarrow> ('kv, 's) otel_config \<Rightarrow> ('kv, 's) otel_config" where
  "WithAttributes as c = c\<lparr>extraAttrs := extraAttrs c @ as\<rparr>"

type_synonym ('kv, 's) ProviderOption = "('kv, 's) otel_config \<Rightarrow> ('kv, 's) otel_config"

definition otel_cfg :: "('w, 'kv, 's, 'r, 'x, 'p, 't) otel_lib \<Rightarrow> ('kv, 's) ProviderOption list \<Rightarrow> ('kv, 's) otel_config" where
  "otel_cfg lib opts = fold (\<lambda>f c. f c) opts
     \<lparr>serviceName = ''gkit-service'', serviceVersion = [], environment = [], otlpEndpoint = [],
      sampler = AlwaysSample lib, extraAttrs = []\<rparr>"

section \<open>The provider\<close>

definition resource_attrs :: "('w, 'kv, 's, 'r, 'x, 'p, 't) otel_lib \<Rightarrow> ('kv, 's) otel_config \<Rightarrow> 'kv list" where
  "resource_attrs lib cfg =
     [semconv_ServiceName lib (serviceName cfg)] @
     (if serviceVersion cfg \<noteq> [] then [semconv_ServiceVersion lib (serviceVersion cfg)] else []) @
     (if environment cfg \<noteq> [] then [attribute_String lib ''deployment.environment'' (environment cfg)] else []) @
     extraAttrs cfg"

text \<open>The span processors of the exporters: standard output always, OTLP when there is an endpoint.\<close>

definition spanProcessors :: "('w, 'kv, 's, 'r, 'x, 'p, 't) otel_lib \<Rightarrow> string \<Rightarrow> ('w, err + 'p list) action" where
  "spanProcessors lib endpoint w =
     (case stdouttrace_New lib w of
        (Inl e, w1) \<Rightarrow> (Inl (Errorf [Lit ''otel: stdout exporter: '', Wrapped e]), w1)
      | (Inr stdExporter, w1) \<Rightarrow>
          let (sp, w2) = NewBatchSpanProcessor lib stdExporter w1 in
          if endpoint = [] then (Inr [sp], w2)
          else case otlptracegrpc_New lib endpoint (5 * Second) w2 of
            (Inl e, w3) \<Rightarrow> (Inl (Errorf [Lit ''otel: OTLP exporter: '', Wrapped e]), w3)
          | (Inr otlpExporter, w3) \<Rightarrow>
              let (sp', w4) = NewBatchSpanProcessor lib otlpExporter w3 in (Inr [sp, sp'], w4))"

definition NewTracerProvider :: "('w, 'kv, 's, 'r, 'x, 'p, 't) otel_lib \<Rightarrow> ('kv, 's) ProviderOption list
    \<Rightarrow> ('w, err + 't) action" where
  "NewTracerProvider lib opts w =
     (let cfg = otel_cfg lib opts in
      case resource_New lib (resource_attrs lib cfg) w of
        (Inl e, w1) \<Rightarrow> (Inl (Errorf [Lit ''otel: build resource: '', Wrapped e]), w1)
      | (Inr res, w1) \<Rightarrow>
          (case spanProcessors lib (otlpEndpoint cfg) w1 of
             (Inl e, w2) \<Rightarrow> (Inl e, w2)
           | (Inr sps, w2) \<Rightarrow>
               let (tp, w3) = sdk_NewTracerProvider lib (sampler cfg) res w2;
                   w4 = fold (RegisterSpanProcessor lib tp) sps w3;
                   w5 = SetTracerProvider lib tp w4;
                   w6 = SetTextMapPropagator lib [''TraceContext'', ''Baggage''] w5
               in (Inr tp, w6)))"

text \<open>\<open>RecordError\<close> of the helpers: nothing for nil.\<close>

definition otel_RecordError :: "(err \<Rightarrow> 'w \<Rightarrow> 'w) \<Rightarrow> err option \<Rightarrow> 'w \<Rightarrow> 'w" where
  "otel_RecordError span_RecordError e w = (case e of None \<Rightarrow> w | Some er \<Rightarrow> span_RecordError er w)"

section \<open>All or nothing, apart from the batch processor\<close>

text \<open>
  An observation that the constructors of the SDK leave alone, for instance the global provider and
  propagator: a \<open>NewTracerProvider\<close> that fails leaves it alone.
\<close>

definition unobserved :: "('w \<Rightarrow> 'o) \<Rightarrow> ('w, 'kv, 's, 'r, 'x, 'p, 't) otel_lib \<Rightarrow> bool" where
  "unobserved obs lib \<longleftrightarrow>
     (\<forall>as w. obs (snd (resource_New lib as w)) = obs w) \<and> (\<forall>w. obs (snd (stdouttrace_New lib w)) = obs w) \<and>
     (\<forall>a d w. obs (snd (otlptracegrpc_New lib a d w)) = obs w) \<and>
     (\<forall>x w. obs (snd (NewBatchSpanProcessor lib x w)) = obs w)"

lemma unobservedD:
  assumes "unobserved obs lib"
  shows "resource_New lib as w = (r, w1) \<Longrightarrow> obs w1 = obs w" "stdouttrace_New lib w = (x, w1) \<Longrightarrow> obs w1 = obs w"
    "otlptracegrpc_New lib a d w = (x, w1) \<Longrightarrow> obs w1 = obs w" "NewBatchSpanProcessor lib x' w = (p, w1) \<Longrightarrow> obs w1 = obs w"
  using assms unfolding unobserved_def by (metis snd_conv)+

lemma spanProcessors_obs:
  assumes "unobserved obs lib" "spanProcessors lib a w = (r, w1)"
  shows "obs w1 = obs w"
  using assms(2) unobservedD [OF assms(1)]
  by (auto simp: spanProcessors_def Let_def split: prod.splits sum.splits if_splits)

lemma NewTracerProvider_failed:
  assumes "unobserved obs lib" "NewTracerProvider lib opts w = (Inl e, w1)"
  shows "obs w1 = obs w \<and>
    (\<exists>c. errors_Is e c \<and> e \<in> {Errorf [Lit ''otel: build resource: '', Wrapped c],
       Errorf [Lit ''otel: stdout exporter: '', Wrapped c], Errorf [Lit ''otel: OTLP exporter: '', Wrapped c]})"
proof -
  let ?cfg = "otel_cfg lib opts"
  obtain r w2 where r: "resource_New lib (resource_attrs lib ?cfg) w = (r, w2)" by fastforce
  have wrapped: "errors_Is (Errorf [Lit s, Wrapped c]) c" for s c by (rule errors_Is_wrap [of c]) simp_all
  show ?thesis
  proof (cases r)
    case (Inl c)
    then show ?thesis using assms(2) r unobservedD(1) [OF assms(1) r] wrapped
      by (auto simp: NewTracerProvider_def Let_def)
  next
    case (Inr res)
    obtain x w3 where x: "spanProcessors lib (otlpEndpoint ?cfg) w2 = (x, w3)" by fastforce
    with assms(2) r Inr have e: "x = Inl e" "w3 = w1"
      by (auto simp: NewTracerProvider_def Let_def split: sum.splits prod.splits)
    have "obs w1 = obs w" using spanProcessors_obs [OF assms(1) x] unobservedD(1) [OF assms(1) r] e by simp
    moreover have "\<exists>c. e \<in> {Errorf [Lit ''otel: stdout exporter: '', Wrapped c], Errorf [Lit ''otel: OTLP exporter: '', Wrapped c]}"
      using x e by (auto simp: spanProcessors_def Let_def split: prod.splits sum.splits if_splits)
    ultimately show ?thesis using wrapped by blast
  qed
qed

text \<open>
  An OTLP exporter that cannot be made: the processor of standard output has been started and is
  not returned to the caller.
\<close>

lemma NewTracerProvider_leaks:
  assumes "otlpEndpoint (otel_cfg lib opts) \<noteq> []"
    and "resource_New lib (resource_attrs lib (otel_cfg lib opts)) w = (Inr res, w1)" "stdouttrace_New lib w1 = (Inr x, w2)"
    and "NewBatchSpanProcessor lib x w2 = (p, w3)"
    and "otlptracegrpc_New lib (otlpEndpoint (otel_cfg lib opts)) (5 * Second) w3 = (Inl e, w4)"
  shows "NewTracerProvider lib opts w = (Inl (Errorf [Lit ''otel: OTLP exporter: '', Wrapped e]), w4)"
  using assms by (simp add: NewTracerProvider_def spanProcessors_def Let_def)

end
