(* ===== verification/PubSub.thy ===== *)
theory PubSub
  imports GoStd "HOL-Library.Sublist"
begin

text \<open>
  The event bus, \<open>pkg/pubsub/bus.go\<close>. Publishers, the dispatch goroutine of each subscription and
  calls of the unsubscribe functions interleave; a step is a section under the lock of the bus, one
  send to a subscriber, one case of a dispatcher's select, one call of a handler, or one of the
  three actions of an unsubscribe function.
\<close>

section \<open>State\<close>

record 'p bus_Event =
  Topic :: string
  Payload :: 'p

text \<open>
  A closure in a subscriber's channel: the publication it belongs to, whose context it holds, and
  the event.
\<close>

type_synonym 'p closure = "nat \<times> 'p bus_Event"

text \<open>
  The dispatch goroutine: on its way to the select, blocked there, in a handler, ended. An unbuffered
  channel takes a value only from a sender that finds the dispatcher blocked.
\<close>

datatype 'p dispatcher = DLoop | DWait | DRun "'p closure" | DExit

text \<open>
  A subscription: the \<open>rawHandler\<close>, its channel, its context and its goroutine. \<open>isT\<close> is the type
  assertion \<open>payload.(T)\<close>. \<open>accepted\<close> are the closures that were ever put into the channel, \<open>handled\<close>
  those whose handler has returned.
\<close>

record 'p rawHandler =
  topic :: string
  isT :: "'p \<Rightarrow> bool"
  bufCap :: nat
  chan :: "'p closure list"
  chanClosed :: bool
  subDone :: bool
  dpc :: "'p dispatcher"
  accepted :: "'p closure list"
  handled :: "'p closure list"

text \<open>
  A call of \<open>Publish\<close>: the handlers it copied, those it has tried, with whether the channel took the
  closure, and those it has still to call; or its panic.
\<close>

record 'p publication =
  ptopic :: string
  ppayload :: 'p
  copied :: "nat list"
  tried :: "(nat \<times> bool) list"
  todo :: "nat list"
  panicked :: "string option"

datatype unsub_pc = URemove | UCancel | UClose | UReturned | UPanicked

datatype bus_log = HandlerError string err | EventDropped string

record 'p Bus =
  subs :: "string \<Rightarrow> nat list"
  rhs :: "'p rawHandler list"
  pubs :: "'p publication list"
  unsubs :: "(nat \<times> unsub_pc) list"
  blog :: "bus_log list"

definition NewBus :: "'p Bus" where
  "NewBus = \<lparr>subs = (\<lambda>_. []), rhs = [], pubs = [], unsubs = [], blog = []\<rparr>"

section \<open>Operations\<close>

definition new_handler :: "string \<Rightarrow> ('p \<Rightarrow> bool) \<Rightarrow> int \<Rightarrow> 'p rawHandler" where
  "new_handler t ty bufSize = \<lparr>topic = t, isT = ty, bufCap = nat (max bufSize 0), chan = [], chanClosed = False,
     subDone = False, dpc = DLoop, accepted = [], handled = []\<rparr>"

definition Subscribe :: "string \<Rightarrow> ('p \<Rightarrow> bool) \<Rightarrow> int \<Rightarrow> 'p Bus \<Rightarrow> 'p Bus" where
  "Subscribe t ty bufSize b =
     b\<lparr>rhs := rhs b @ [new_handler t ty bufSize], subs := (subs b)(t := subs b t @ [length (rhs b)])\<rparr>"

definition Publish :: "string \<Rightarrow> 'p \<Rightarrow> 'p Bus \<Rightarrow> 'p Bus" where
  "Publish t p b = b\<lparr>pubs := pubs b @ [\<lparr>ptopic = t, ppayload = p, copied = subs b t, tried = [], todo = subs b t, panicked = None\<rparr>]\<rparr>"

text \<open>\<open>Topics\<close> over the order in which the iteration of the map gives its keys.\<close>

definition Topics :: "string list \<Rightarrow> 'p Bus \<Rightarrow> string list" where
  "Topics keys b = filter (\<lambda>t. subs b t \<noteq> []) keys"

definition set_rh :: "nat \<Rightarrow> 'p rawHandler \<Rightarrow> 'p Bus \<Rightarrow> 'p Bus" where
  "set_rh k r b = b\<lparr>rhs := (rhs b)[k := r]\<rparr>"

definition set_pub :: "nat \<Rightarrow> 'p publication \<Rightarrow> 'p Bus \<Rightarrow> 'p Bus" where
  "set_pub i q b = b\<lparr>pubs := (pubs b)[i := q]\<rparr>"

definition set_unsub :: "nat \<Rightarrow> nat \<Rightarrow> unsub_pc \<Rightarrow> 'p Bus \<Rightarrow> 'p Bus" where
  "set_unsub j k pc b = b\<lparr>unsubs := (unsubs b)[j := (k, pc)]\<rparr>"

definition the_event :: "'p publication \<Rightarrow> 'p bus_Event" where
  "the_event q = \<lparr>Topic = ptopic q, Payload = ppayload q\<rparr>"

text \<open>
  The send of \<open>rawHandler.publish\<close> for publication \<open>i\<close>: into the buffer, or into the hands of a blocked
  dispatcher; \<open>None\<close> is the default case of the select.
\<close>

definition try_send :: "nat \<Rightarrow> 'p bus_Event \<Rightarrow> 'p rawHandler \<Rightarrow> 'p rawHandler option" where
  "try_send i ev r =
     (if bufCap r = 0 then
        if dpc r = DWait then Some (r\<lparr>dpc := DRun (i, ev), accepted := accepted r @ [(i, ev)]\<rparr>) else None
      else if length (chan r) < bufCap r then
        Some (r\<lparr>chan := chan r @ [(i, ev)], accepted := accepted r @ [(i, ev)]\<rparr>)
      else None)"

definition tried_one :: "nat \<Rightarrow> bool \<Rightarrow> 'p publication \<Rightarrow> 'p publication" where
  "tried_one k ok q = q\<lparr>tried := tried q @ [(k, ok)], todo := tl (todo q)\<rparr>"

definition publish_one :: "nat \<Rightarrow> nat \<Rightarrow> 'p Bus \<Rightarrow> 'p Bus" where
  "publish_one i k b =
     (let q = pubs b ! i; r = rhs b ! k in
      if \<not> isT r (ppayload q) then set_pub i (q\<lparr>panicked := Some ''interface conversion''\<rparr>) b
      else if chanClosed r then set_pub i (q\<lparr>panicked := Some ''send on closed channel''\<rparr>) b
      else case try_send i (\<lparr>Topic = topic r, Payload = ppayload q\<rparr>) r of
        Some r' \<Rightarrow> set_pub i (tried_one k True q) (set_rh k r' b)
      | None \<Rightarrow> set_pub i (tried_one k False q) (b\<lparr>blog := blog b @ [EventDropped (topic r)]\<rparr>))"

inductive dispatch_step :: "'p rawHandler \<Rightarrow> 'p rawHandler \<Rightarrow> bus_log list \<Rightarrow> bool" where
  ctx_done: "dpc r \<in> {DLoop, DWait} \<Longrightarrow> subDone r \<Longrightarrow> dispatch_step r (r\<lparr>dpc := DExit\<rparr>) []"
| receive: "dpc r \<in> {DLoop, DWait} \<Longrightarrow> chan r = c # q \<Longrightarrow> dispatch_step r (r\<lparr>chan := q, dpc := DRun c\<rparr>) []"
| closed: "dpc r \<in> {DLoop, DWait} \<Longrightarrow> chan r = [] \<Longrightarrow> chanClosed r \<Longrightarrow> dispatch_step r (r\<lparr>dpc := DExit\<rparr>) []"
| block: "dpc r = DLoop \<Longrightarrow> chan r = [] \<Longrightarrow> \<not> chanClosed r \<Longrightarrow> \<not> subDone r \<Longrightarrow> dispatch_step r (r\<lparr>dpc := DWait\<rparr>) []"
| handler_ok: "dpc r = DRun c \<Longrightarrow> dispatch_step r (r\<lparr>dpc := DLoop, handled := handled r @ [c]\<rparr>) []"
| handler_error: "dpc r = DRun c \<Longrightarrow>
     dispatch_step r (r\<lparr>dpc := DLoop, handled := handled r @ [c]\<rparr>) [HandlerError (topic r) e]"

inductive bus_step :: "'p Bus \<Rightarrow> unit \<Rightarrow> 'p Bus \<Rightarrow> bool" where
  subscribe: "bus_step b () (Subscribe t ty n b)"
| publish: "bus_step b () (Publish t p b)"
| deliver: "i < length (pubs b) \<Longrightarrow> panicked (pubs b ! i) = None \<Longrightarrow> todo (pubs b ! i) = k # ks \<Longrightarrow>
     bus_step b () (publish_one i k b)"
| dispatch: "k < length (rhs b) \<Longrightarrow> dispatch_step (rhs b ! k) r l \<Longrightarrow>
     bus_step b () (set_rh k r (b\<lparr>blog := blog b @ l\<rparr>))"
| unsubscribe: "k < length (rhs b) \<Longrightarrow> bus_step b () (b\<lparr>unsubs := unsubs b @ [(k, URemove)]\<rparr>)"
| unsub_remove: "j < length (unsubs b) \<Longrightarrow> unsubs b ! j = (k, URemove) \<Longrightarrow>
     bus_step b () (set_unsub j k UCancel (b\<lparr>subs := (subs b)(topic (rhs b ! k) := remove1 k (subs b (topic (rhs b ! k))))\<rparr>))"
| unsub_cancel: "j < length (unsubs b) \<Longrightarrow> unsubs b ! j = (k, UCancel) \<Longrightarrow>
     bus_step b () (set_unsub j k UClose (set_rh k ((rhs b ! k)\<lparr>subDone := True\<rparr>) b))"
| unsub_close: "j < length (unsubs b) \<Longrightarrow> unsubs b ! j = (k, UClose) \<Longrightarrow> \<not> chanClosed (rhs b ! k) \<Longrightarrow>
     bus_step b () (set_unsub j k UReturned (set_rh k ((rhs b ! k)\<lparr>chanClosed := True\<rparr>) b))"
| unsub_panic: "j < length (unsubs b) \<Longrightarrow> unsubs b ! j = (k, UClose) \<Longrightarrow> chanClosed (rhs b ! k) \<Longrightarrow>
     bus_step b () (set_unsub j k UPanicked b)"

section \<open>Invariant\<close>

definition running :: "'p rawHandler \<Rightarrow> 'p closure list" where
  "running r = (case dpc r of DRun c \<Rightarrow> [c] | _ \<Rightarrow> [])"

definition fifo :: "'p rawHandler \<Rightarrow> bool" where
  "fifo r \<longleftrightarrow> accepted r = handled r @ running r @ chan r \<and> length (chan r) \<le> bufCap r"

definition log_ok :: "'p publication list \<Rightarrow> nat \<Rightarrow> 'p closure list \<Rightarrow> bool" where
  "log_ok ps k cs \<longleftrightarrow> distinct (map fst cs) \<and>
     (\<forall>c \<in> set cs. fst c < length ps \<and> snd c = the_event (ps ! fst c) \<and> (k, True) \<in> set (tried (ps ! fst c)))"

definition rh_ok :: "'p publication list \<Rightarrow> nat \<Rightarrow> 'p rawHandler \<Rightarrow> bool" where
  "rh_ok ps k r \<longleftrightarrow> fifo r \<and> log_ok ps k (accepted r)"

definition try_ok :: "'p rawHandler list \<Rightarrow> 'p closure \<Rightarrow> nat \<times> bool \<Rightarrow> bool" where
  "try_ok rs c x \<longleftrightarrow> (if snd x then c \<in> set (accepted (rs ! fst x))
     else bufCap (rs ! fst x) \<le> length (accepted (rs ! fst x)))"

definition refuses :: "'p \<Rightarrow> 'p rawHandler \<Rightarrow> bool" where
  "refuses p r \<longleftrightarrow> \<not> isT r p \<or> chanClosed r"

definition pub_ok :: "'p rawHandler list \<Rightarrow> nat \<Rightarrow> 'p publication \<Rightarrow> bool" where
  "pub_ok rs i q \<longleftrightarrow> map fst (tried q) @ todo q = copied q \<and> distinct (copied q) \<and>
     (\<forall>k \<in> set (copied q). k < length rs \<and> topic (rs ! k) = ptopic q) \<and>
     (\<forall>x \<in> set (tried q). try_ok rs (i, the_event q) x) \<and>
     (panicked q \<noteq> None \<longrightarrow> (\<exists>k \<in> set (copied q). refuses (ppayload q) (rs ! k)))"

definition bus_inv :: "'p Bus \<Rightarrow> bool" where
  "bus_inv b \<longleftrightarrow> (\<forall>t. distinct (subs b t) \<and> (\<forall>k \<in> set (subs b t). k < length (rhs b) \<and> topic (rhs b ! k) = t)) \<and>
     (\<forall>k < length (rhs b). rh_ok (pubs b) k (rhs b ! k)) \<and> (\<forall>i < length (pubs b). pub_ok (rhs b) i (pubs b ! i)) \<and>
     list_all (\<lambda>x. fst x < length (rhs b)) (unsubs b)"

text \<open>What a step may do to a subscription, and to a publication, without touching the others.\<close>

definition rh_grows :: "'p rawHandler \<Rightarrow> 'p rawHandler \<Rightarrow> bool" where
  "rh_grows r r' \<longleftrightarrow> topic r' = topic r \<and> isT r' = isT r \<and> bufCap r' = bufCap r \<and>
     prefix (accepted r) (accepted r') \<and> (chanClosed r \<longrightarrow> chanClosed r')"

definition rhs_grow :: "'p rawHandler list \<Rightarrow> 'p rawHandler list \<Rightarrow> bool" where
  "rhs_grow rs rs' \<longleftrightarrow> length rs \<le> length rs' \<and> (\<forall>k < length rs. rh_grows (rs ! k) (rs' ! k))"

definition pubs_grow :: "'p publication list \<Rightarrow> 'p publication list \<Rightarrow> bool" where
  "pubs_grow ps ps' \<longleftrightarrow> length ps \<le> length ps' \<and>
     (\<forall>i < length ps. the_event (ps' ! i) = the_event (ps ! i) \<and> set (tried (ps ! i)) \<subseteq> set (tried (ps' ! i)))"

lemma rh_grows_refl [simp]: "rh_grows r r"
  by (simp add: rh_grows_def)

lemma rhs_grow_upd: "k < length rs \<Longrightarrow> rh_grows (rs ! k) r \<Longrightarrow> rhs_grow rs (rs[k := r])"
  by (auto simp: rhs_grow_def nth_list_update)

lemma rhs_grow_append [simp]: "rhs_grow rs (rs @ rs')"
  by (simp add: rhs_grow_def nth_append)

lemma pubs_grow_append [simp]: "pubs_grow ps (ps @ ps')"
  by (simp add: pubs_grow_def nth_append)

lemma pubs_grow_upd:
  "i < length ps \<Longrightarrow> the_event q = the_event (ps ! i) \<Longrightarrow> set (tried (ps ! i)) \<subseteq> set (tried q) \<Longrightarrow> pubs_grow ps (ps[i := q])"
  by (auto simp: pubs_grow_def nth_list_update)

lemma log_ok_grow:
  assumes "log_ok ps k cs" "pubs_grow ps ps'"
  shows "log_ok ps' k cs"
proof -
  have "fst c < length ps' \<and> snd c = the_event (ps' ! fst c) \<and> (k, True) \<in> set (tried (ps' ! fst c))"
    if "c \<in> set cs" for c
  proof -
    have c: "fst c < length ps" "snd c = the_event (ps ! fst c)" "(k, True) \<in> set (tried (ps ! fst c))"
      using assms(1) that by (auto simp: log_ok_def)
    then have "the_event (ps' ! fst c) = the_event (ps ! fst c)" "set (tried (ps ! fst c)) \<subseteq> set (tried (ps' ! fst c))"
      using assms(2) by (auto simp: pubs_grow_def)
    then show ?thesis using c assms(2) by (auto simp: pubs_grow_def)
  qed
  then show ?thesis using assms(1) unfolding log_ok_def by blast
qed

lemma rh_ok_grow: "rh_ok ps k r \<Longrightarrow> pubs_grow ps ps' \<Longrightarrow> rh_ok ps' k r"
  by (auto simp: rh_ok_def intro: log_ok_grow)

lemma try_ok_grow:
  assumes "try_ok rs c x" "rh_grows (rs ! fst x) (rs' ! fst x)"
  shows "try_ok rs' c x"
proof -
  have "prefix (accepted (rs ! fst x)) (accepted (rs' ! fst x))" "bufCap (rs' ! fst x) = bufCap (rs ! fst x)"
    using assms(2) by (simp_all add: rh_grows_def)
  then show ?thesis
    using assms(1) by (auto simp: try_ok_def dest: set_mono_prefix prefix_length_le split: if_splits)
qed

lemma pub_ok_grow:
  assumes "pub_ok rs i q" "rhs_grow rs rs'"
  shows "pub_ok rs' i q"
proof -
  have g: "k < length rs'" "rh_grows (rs ! k) (rs' ! k)" "topic (rs' ! k) = ptopic q" if "k \<in> set (copied q)" for k
    using assms that by (auto simp: pub_ok_def rhs_grow_def rh_grows_def)
  have cp: "map fst (tried q) @ todo q = copied q" "distinct (copied q)" and
    try_old: "\<forall>x \<in> set (tried q). try_ok rs (i, the_event q) x" and
    pan: "panicked q \<noteq> None \<Longrightarrow> \<exists>k \<in> set (copied q). refuses (ppayload q) (rs ! k)"
    using assms(1) by (simp_all add: pub_ok_def)
  have "try_ok rs' (i, the_event q) x" if "x \<in> set (tried q)" for x
  proof -
    have "fst x \<in> set (copied q)" using that by (simp add: cp(1) [symmetric])
    then show ?thesis using try_old that g(2) by (blast intro: try_ok_grow)
  qed
  moreover have "refuses (ppayload q) (rs' ! k)" if "k \<in> set (copied q)" "refuses (ppayload q) (rs ! k)" for k
    using that g(2) [OF that(1)] by (auto simp: refuses_def rh_grows_def)
  ultimately show ?thesis unfolding pub_ok_def using cp pan g by blast
qed

lemma bus_invD:
  assumes "bus_inv b"
  shows "k < length (rhs b) \<Longrightarrow> rh_ok (pubs b) k (rhs b ! k)" "i < length (pubs b) \<Longrightarrow> pub_ok (rhs b) i (pubs b ! i)"
    "distinct (subs b t)" "k \<in> set (subs b t) \<Longrightarrow> k < length (rhs b) \<and> topic (rhs b ! k) = t"
    "j < length (unsubs b) \<Longrightarrow> fst (unsubs b ! j) < length (rhs b)"
  using assms by (auto simp: bus_inv_def list_all_length)

text \<open>Steps on one subscription, on the topics and on the calls of unsubscribe.\<close>

lemma bus_inv_rh:
  assumes "bus_inv b" "k < length (rhs b)" "rh_grows (rhs b ! k) r" "rh_ok (pubs b) k r"
    and "subs b' = subs b" "pubs b' = pubs b" "rhs b' = (rhs b)[k := r]" "list_all (\<lambda>x. fst x < length (rhs b)) (unsubs b')"
  shows "bus_inv b'"
proof -
  have g: "rhs_grow (rhs b) ((rhs b)[k := r])" by (rule rhs_grow_upd [OF assms(2,3)])
  have "topic ((rhs b)[k := r] ! l) = topic (rhs b ! l)" for l
    using assms(2,3) by (cases "l = k") (simp_all add: rh_grows_def)
  then show ?thesis
    unfolding bus_inv_def assms(5-7) using assms(2,4,8) bus_invD [OF assms(1)] pub_ok_grow [OF _ g]
    by (auto simp: nth_list_update)
qed

lemma bus_inv_subs:
  assumes "bus_inv b" "\<And>t. distinct (subs b' t) \<and> set (subs b' t) \<subseteq> set (subs b t)"
    and "pubs b' = pubs b" "rhs b' = rhs b" "list_all (\<lambda>x. fst x < length (rhs b)) (unsubs b')"
  shows "bus_inv b'"
  unfolding bus_inv_def assms(3,4) using bus_invD [OF assms(1)] assms(2,5) by blast

lemma dispatch_step_ok:
  assumes "dispatch_step r r' l" "rh_ok ps k r"
  shows "rh_ok ps k r'" "rh_grows r r'"
  using assms(1,2) by (cases rule: dispatch_step.cases; auto simp: rh_ok_def fifo_def running_def rh_grows_def)+

text \<open>One send of a publication.\<close>

lemma try_send_Some:
  assumes "try_send i ev r = Some r'" "fifo r"
  shows "rh_grows r r'" "accepted r' = accepted r @ [(i, ev)]" "fifo r'"
  using assms by (auto simp: try_send_def rh_grows_def fifo_def running_def split: if_splits)

lemma try_send_None: "try_send i ev r = None \<Longrightarrow> bufCap r \<le> length (chan r)"
  by (auto simp: try_send_def split: if_splits)

lemma tried_one_ok:
  assumes "pub_ok rs i q" "todo q = k # ks" "try_ok rs' (i, the_event q) (k, ok)" "rhs_grow rs rs'"
  shows "pub_ok rs' i (tried_one k ok q)"
  using pub_ok_grow [OF assms(1,4)] assms(2,3) by (auto simp: pub_ok_def tried_one_def the_event_def)

lemma pub_next:
  assumes "pub_ok rs i q" "todo q = k # ks"
  shows "k \<in> set (copied q)" "k < length rs" "topic (rs ! k) = ptopic q" "(k, True) \<notin> set (tried q)"
proof -
  have c: "copied q = map fst (tried q) @ k # ks" "distinct (copied q)"
    using assms(1) by (simp_all add: pub_ok_def flip: assms(2))
  then show k: "k \<in> set (copied q)" by simp
  then show "k < length rs" "topic (rs ! k) = ptopic q" using assms(1) by (auto simp: pub_ok_def)
  show "(k, True) \<notin> set (tried q)" using c by force
qed

lemma sent_ok:
  assumes "log_ok ps k cs" "i < length ps" "(k, True) \<notin> set (tried (ps ! i))"
  shows "log_ok (ps[i := tried_one k True (ps ! i)]) k (cs @ [(i, the_event (ps ! i))])"
proof -
  let ?q = "tried_one k True (ps ! i)"
  have ev: "the_event ?q = the_event (ps ! i)" by (simp add: tried_one_def the_event_def)
  have "log_ok (ps[i := ?q]) k cs"
    by (rule log_ok_grow [OF assms(1) pubs_grow_upd [OF assms(2) ev]]) (auto simp: tried_one_def)
  moreover have "i \<notin> fst ` set cs" using assms(1,3) by (auto simp: log_ok_def)
  moreover have "(k, True) \<in> set (tried ?q)" by (simp add: tried_one_def)
  ultimately show ?thesis using assms(2) ev by (auto simp: log_ok_def)
qed

text \<open>A step of publication \<open>i\<close> that leaves the subscriptions of others alone.\<close>

lemma bus_inv_pub:
  assumes "bus_inv b" "i < length (pubs b)" "pubs b' = (pubs b)[i := q]" "the_event q = the_event (pubs b ! i)"
    and "set (tried (pubs b ! i)) \<subseteq> set (tried q)" "pub_ok (rhs b) i q"
    and "subs b' = subs b" "rhs b' = rhs b" "unsubs b' = unsubs b"
  shows "bus_inv b'"
proof -
  have g: "pubs_grow (pubs b) (pubs b')" unfolding assms(3) by (rule pubs_grow_upd [OF assms(2,4,5)])
  have "rh_ok (pubs b') k (rhs b ! k)" if "k < length (rhs b)" for k
    by (rule rh_ok_grow [OF bus_invD(1) [OF assms(1) that] g])
  moreover have "pub_ok (rhs b) l (pubs b' ! l)" if "l < length (pubs b')" for l
    using that assms(3,6) bus_invD(2) [OF assms(1)] by (cases "l = i") simp_all
  ultimately show ?thesis using assms(1) unfolding bus_inv_def assms(7-9) by simp
qed

lemma bus_inv_sent:
  assumes "bus_inv b" "i < length (pubs b)" "todo (pubs b ! i) = k # ks"
    and "try_send i (the_event (pubs b ! i)) (rhs b ! k) = Some r"
  shows "bus_inv (set_pub i (tried_one k True (pubs b ! i)) (set_rh k r b))"
proof -
  let ?q = "tried_one k True (pubs b ! i)" and ?rs = "(rhs b)[k := r]" and ?ps = "(pubs b)[i := tried_one k True (pubs b ! i)]"
  have q: "pub_ok (rhs b) i (pubs b ! i)" by (rule bus_invD(2) [OF assms(1,2)])
  note k = pub_next(2,4) [OF q assms(3)]
  note r = bus_invD(1) [OF assms(1) k(1)]
  have s: "rh_grows (rhs b ! k) r" "accepted r = accepted (rhs b ! k) @ [(i, the_event (pubs b ! i))]" "fifo r"
    using try_send_Some [OF assms(4)] r by (simp_all add: rh_ok_def)
  have rk: "rh_ok ?ps k r" using sent_ok [OF _ assms(2) k(2)] r s(2,3) by (simp add: rh_ok_def)
  have g: "rhs_grow (rhs b) ?rs" by (rule rhs_grow_upd [OF k(1) s(1)])
  have pg: "pubs_grow (pubs b) ?ps" by (rule pubs_grow_upd [OF assms(2)]) (auto simp: tried_one_def the_event_def)
  have "rh_ok ?ps l (?rs ! l)" if "l < length (rhs b)" for l
    using that rk rh_ok_grow [OF bus_invD(1) [OF assms(1) that] pg] k(1)
    by (cases "l = k") simp_all
  moreover have "pub_ok ?rs i ?q"
    by (rule tried_one_ok [OF q assms(3) _ g]) (use k(1) s(2) in \<open>simp add: try_ok_def\<close>)
  then have "pub_ok ?rs l (?ps ! l)" if "l < length (pubs b)" for l
    using that pub_ok_grow [OF bus_invD(2) [OF assms(1) that] g] assms(2) by (cases "l = i") simp_all
  moreover have "topic (?rs ! l) = topic (rhs b ! l)" for l
    using k(1) s(1) by (cases "l = k") (simp_all add: rh_grows_def)
  ultimately show ?thesis
    using assms(1) by (simp add: bus_inv_def set_pub_def set_rh_def)
qed

lemma bus_inv_publish_one:
  assumes "bus_inv b" "i < length (pubs b)" "todo (pubs b ! i) = k # ks"
  shows "bus_inv (publish_one i k b)"
proof -
  let ?q = "pubs b ! i" and ?r = "rhs b ! k"
  have q: "pub_ok (rhs b) i ?q" by (rule bus_invD(2) [OF assms(1,2)])
  note k = pub_next(1) [OF q assms(3)]
  have kr: "k < length (rhs b)" "\<lparr>Topic = topic ?r, Payload = ppayload ?q\<rparr> = the_event ?q"
    using pub_next(2,3) [OF q assms(3)] by (simp_all add: the_event_def)
  have panic: "bus_inv (set_pub i (?q\<lparr>panicked := Some m\<rparr>) b)" if "refuses (ppayload ?q) ?r" for m
  proof (rule bus_inv_pub [OF assms(1,2)])
    show "pub_ok (rhs b) i (?q\<lparr>panicked := Some m\<rparr>)"
      using q k that by (auto simp: pub_ok_def the_event_def)
  qed (simp_all add: set_pub_def the_event_def)
  show ?thesis
  proof (cases "refuses (ppayload ?q) ?r")
    case True
    then show ?thesis using panic [OF True] by (auto simp: publish_one_def Let_def refuses_def)
  next
    case no: False
    show ?thesis
    proof (cases "try_send i (the_event ?q) ?r")
      case None
      let ?b = "set_pub i (tried_one k False ?q) (b\<lparr>blog := blog b @ [EventDropped (topic ?r)]\<rparr>)"
      have "bufCap ?r \<le> length (accepted ?r)"
        using try_send_None [OF None] bus_invD(1) [OF assms(1) kr(1)] by (simp add: rh_ok_def fifo_def)
      then have "pub_ok (rhs b) i (tried_one k False ?q)"
        by (intro tried_one_ok [OF q assms(3)]) (simp_all add: try_ok_def rhs_grow_def)
      then have "bus_inv ?b"
        by (intro bus_inv_pub [OF assms(1,2), of ?b]) (auto simp: set_pub_def tried_one_def the_event_def)
      then show ?thesis using no None kr(2) by (simp add: publish_one_def Let_def refuses_def)
    next
      case (Some r)
      then show ?thesis
        using no kr(2) bus_inv_sent [OF assms Some] by (simp add: publish_one_def Let_def refuses_def)
    qed
  qed
qed

lemma bus_inv_subscribe: "bus_inv b \<Longrightarrow> bus_inv (Subscribe t ty n b)"
proof -
  assume inv: "bus_inv b"
  have "rh_ok ps (length (rhs b)) (new_handler t ty n)" for ps :: "'a publication list"
    by (simp add: rh_ok_def fifo_def log_ok_def new_handler_def running_def)
  moreover have "pub_ok (rhs b @ [new_handler t ty n]) i (pubs b ! i)" if "i < length (pubs b)" for i
    by (rule pub_ok_grow [OF bus_invD(2) [OF inv that]]) simp
  moreover have "length (rhs b) \<notin> set (subs b t)" using bus_invD(4) [OF inv, of "length (rhs b)"] by blast
  ultimately show ?thesis
    unfolding bus_inv_def Subscribe_def using bus_invD [OF inv] inv
    by (auto simp: nth_append less_Suc_eq new_handler_def bus_inv_def list_all_iff dest: less_SucI)
qed

lemma bus_inv_publish: "bus_inv b \<Longrightarrow> bus_inv (Publish t p b)"
proof -
  assume inv: "bus_inv b"
  let ?q = "\<lparr>ptopic = t, ppayload = p, copied = subs b t, tried = [], todo = subs b t, panicked = None\<rparr>"
  have "pub_ok (rhs b) (length (pubs b)) ?q" using bus_invD(3,4) [OF inv] by (auto simp: pub_ok_def)
  moreover have "rh_ok (pubs b @ [?q]) k (rhs b ! k)" if "k < length (rhs b)" for k
    by (rule rh_ok_grow [OF bus_invD(1) [OF inv that]]) simp
  ultimately show ?thesis
    using inv by (auto simp: bus_inv_def Publish_def nth_append less_Suc_eq)
qed

lemma bus_inv_step:
  assumes "bus_step b u b'" "bus_inv b"
  shows "bus_inv b'"
  using assms(1)
proof (cases rule: bus_step.cases)
  case (dispatch k r l)
  show ?thesis
    by (rule bus_inv_rh [OF assms(2) dispatch(3)])
      (use dispatch dispatch_step_ok [OF dispatch(4) bus_invD(1) [OF assms(2) dispatch(3)]] assms(2)
        in \<open>simp_all add: set_rh_def bus_inv_def\<close>)
next
  case (unsubscribe k)
  show ?thesis by (rule bus_inv_subs [OF assms(2)]) (use unsubscribe assms(2) in \<open>simp_all add: bus_inv_def\<close>)
next
  case (unsub_remove j k)
  have "set (remove1 k xs) \<subseteq> set xs" for xs :: "nat list" by (rule set_remove1_subset)
  then show ?thesis
    by (intro bus_inv_subs [OF assms(2)])
      (use unsub_remove assms(2) bus_invD(5) [OF assms(2), of j] in \<open>auto simp: set_unsub_def bus_inv_def intro: list_all_upd\<close>)
next
  case (unsub_cancel j k)
  have k: "k < length (rhs b)" using bus_invD(5) [OF assms(2), of j] unsub_cancel by simp
  show ?thesis
    by (rule bus_inv_rh [OF assms(2) k, of "(rhs b ! k)\<lparr>subDone := True\<rparr>"])
      (use unsub_cancel k assms(2) bus_invD(1) [OF assms(2) k] in
        \<open>auto simp: set_unsub_def set_rh_def rh_grows_def rh_ok_def fifo_def running_def bus_inv_def intro: list_all_upd\<close>)
next
  case (unsub_close j k)
  have k: "k < length (rhs b)" using bus_invD(5) [OF assms(2), of j] unsub_close by simp
  show ?thesis
    by (rule bus_inv_rh [OF assms(2) k, of "(rhs b ! k)\<lparr>chanClosed := True\<rparr>"])
      (use unsub_close k assms(2) bus_invD(1) [OF assms(2) k] in
        \<open>auto simp: set_unsub_def set_rh_def rh_grows_def rh_ok_def fifo_def running_def bus_inv_def intro: list_all_upd\<close>)
next
  case (unsub_panic j k)
  have "k < length (rhs b)" using bus_invD(5) [OF assms(2), of j] unsub_panic by simp
  then show ?thesis
    by (intro bus_inv_subs [OF assms(2)])
      (use unsub_panic assms(2) in \<open>auto simp: set_unsub_def bus_inv_def intro: list_all_upd\<close>)
qed (use assms(2) in \<open>simp_all add: bus_inv_subscribe bus_inv_publish bus_inv_publish_one\<close>)

interpretation bus: step_invariant "\<lambda>b. b = NewBus" bus_step bus_inv
proof
  show "bus_inv b" if "b = NewBus" for b :: "'a Bus" using that by (simp add: NewBus_def bus_inv_def)
qed (rule bus_inv_step)

section \<open>Publish does not wait\<close>

lemma publish_one_pubs:
  "pubs (publish_one i k b) = (pubs b)[i := pubs (publish_one i k b) ! i] \<or> length (pubs b) \<le> i"
  by (auto simp: publish_one_def Let_def set_pub_def set_rh_def split: option.split)

lemma publish_one_todo:
  assumes "i < length (pubs b)" "todo (pubs b ! i) = k # ks"
  shows "panicked (pubs (publish_one i k b) ! i) \<noteq> None \<or> todo (pubs (publish_one i k b) ! i) = ks"
  using assms by (auto simp: publish_one_def Let_def set_pub_def set_rh_def tried_one_def split: option.split)

lemma publish_one_length: "length (pubs (publish_one i k b)) = length (pubs b)"
  by (auto simp: publish_one_def Let_def set_pub_def set_rh_def split: option.split)

definition pub_load :: "nat \<Rightarrow> 'p Bus \<Rightarrow> nat" where
  "pub_load i b = (if panicked (pubs b ! i) = None then length (todo (pubs b ! i)) else 0)"

interpretation publishing: step_progress bus_step "\<lambda>b. i < length (pubs b)" "\<lambda>b. pub_load i b = 0" "pub_load i" for i
proof
  fix b :: "'p Bus"
  assume i: "i < length (pubs b)" and "pub_load i b \<noteq> 0"
  then obtain k ks where p: "panicked (pubs b ! i) = None" "todo (pubs b ! i) = k # ks"
    by (auto simp: pub_load_def neq_Nil_conv split: if_splits)
  have "bus_step b () (publish_one i k b)" by (rule bus_step.deliver [OF i p])
  moreover have "pub_load i (publish_one i k b) < pub_load i b"
    using publish_one_todo [OF i p(2)] p by (auto simp: pub_load_def)
  ultimately show "\<exists>e b'. bus_step b e b' \<and> i < length (pubs b') \<and> pub_load i b' < pub_load i b"
    using i publish_one_length [of i k b] by metis
qed

section \<open>Properties\<close>


text \<open>
  \<open>Publish\<close> does not wait for its subscribers: from every state the steps of the call itself lead to
  its end, whatever the dispatchers do, also when a channel is full or has no buffer. It ends with
  a panic only if one of the handlers it copied is for another type or was unsubscribed.
\<close>

theorem pubsub_Publish:
  assumes "reach (\<lambda>b. b = NewBus) bus_step b" "i < length (pubs b)"
  shows "(\<exists>b'. runs_to bus_step b b' \<and> (todo (pubs b' ! i) = [] \<or> panicked (pubs b' ! i) \<noteq> None)) \<and>
    (panicked (pubs b ! i) \<noteq> None \<longrightarrow>
      list_ex (\<lambda>k. \<not> isT (rhs b ! k) (ppayload (pubs b ! i)) \<or> chanClosed (rhs b ! k)) (copied (pubs b ! i)))"
proof
  from publishing.reaches_goal [of i b, OF assms(2)] obtain b' where "runs_to bus_step b b'" "pub_load i b' = 0" by blast
  then show "\<exists>b'. runs_to bus_step b b' \<and> (todo (pubs b' ! i) = [] \<or> panicked (pubs b' ! i) \<noteq> None)"
    by (auto simp: pub_load_def split: if_splits)
  show "panicked (pubs b ! i) \<noteq> None \<longrightarrow>
      list_ex (\<lambda>k. \<not> isT (rhs b ! k) (ppayload (pubs b ! i)) \<or> chanClosed (rhs b ! k)) (copied (pubs b ! i))"
    using bus_invD(2) [OF bus.reach_inv [OF assms(1)] assms(2)] by (auto simp: pub_ok_def refuses_def list_ex_iff)
qed

text \<open>
  A run: one subscriber with a buffer of one, one publication that was started before the
  subscriber's unsubscribe function was called.
\<close>

definition demo_rh :: "nat rawHandler" where
  "demo_rh = new_handler ''t'' (\<lambda>_. True) 1"

definition demo_pub :: "nat publication" where
  "demo_pub = \<lparr>ptopic = ''t'', ppayload = 5, copied = [0], tried = [], todo = [0], panicked = None\<rparr>"

definition demo_bus :: "nat list \<Rightarrow> nat rawHandler \<Rightarrow> nat publication \<Rightarrow> (nat \<times> unsub_pc) list \<Rightarrow> nat Bus" where
  "demo_bus ks r q us = \<lparr>subs = (\<lambda>_. [])(''t'' := ks), rhs = [r], pubs = [q], unsubs = us, blog = []\<rparr>"

lemmas demo_bus_simps = demo_bus_def demo_rh_def demo_pub_def new_handler_def

lemma demo_published: "reach (\<lambda>b. b = NewBus) bus_step (demo_bus [0] demo_rh demo_pub [])"
proof -
  have "reach (\<lambda>b. b = NewBus) bus_step NewBus" by (rule reach_start) simp
  from reach_step [OF this, OF bus_step.subscribe [of _ "''t''" "\<lambda>_. True" 1]]
  have "reach (\<lambda>b. b = NewBus) bus_step (Subscribe ''t'' (\<lambda>_. True) 1 (NewBus :: nat Bus))" .
  from reach_step [OF this, OF bus_step.publish [of _ "''t''" 5]] show ?thesis
    by (simp add: Publish_def Subscribe_def NewBus_def demo_bus_simps)
qed

lemma publish_panics_after_unsubscribe:
  "reach (\<lambda>b. b = NewBus) bus_step (demo_bus [] (demo_rh\<lparr>subDone := True, chanClosed := True\<rparr>)
     (demo_pub\<lparr>panicked := Some ''send on closed channel''\<rparr>) [(0, UReturned)])"
proof -
  let ?R = "reach (\<lambda>b. b = NewBus) bus_step"
  let ?b1 = "demo_bus [0] demo_rh demo_pub [(0, URemove)]" and ?b2 = "demo_bus [] demo_rh demo_pub [(0, UCancel)]"
  let ?b3 = "demo_bus [] (demo_rh\<lparr>subDone := True\<rparr>) demo_pub [(0, UClose)]"
  let ?b4 = "demo_bus [] (demo_rh\<lparr>subDone := True, chanClosed := True\<rparr>) demo_pub [(0, UReturned)]"
  from reach_step [OF demo_published, OF bus_step.unsubscribe [of 0]] have b1: "?R ?b1" by (simp add: demo_bus_simps)
  from reach_step [OF b1, OF bus_step.unsub_remove [of 0 _ 0]] have b2: "?R ?b2"
    by (simp add: demo_bus_simps set_unsub_def fun_upd_def cong: if_cong)
  from reach_step [OF b2, OF bus_step.unsub_cancel [of 0 _ 0]] have b3: "?R ?b3"
    by (simp add: demo_bus_simps set_unsub_def set_rh_def)
  from reach_step [OF b3, OF bus_step.unsub_close [of 0 _ 0]] have b4: "?R ?b4"
    by (simp add: demo_bus_simps set_unsub_def set_rh_def)
  from reach_step [OF b4, OF bus_step.deliver [of 0 _ 0 "[]"]] show ?thesis
    by (simp add: demo_bus_simps publish_one_def set_pub_def)
qed

lemma demo_delivered:
  "reach (\<lambda>b. b = NewBus) bus_step (demo_bus [0]
     (demo_rh\<lparr>chan := [(0, \<lparr>Topic = ''t'', Payload = 5\<rparr>)], accepted := [(0, \<lparr>Topic = ''t'', Payload = 5\<rparr>)]\<rparr>)
     (tried_one 0 True demo_pub) [])"
  using reach_step [OF demo_published, OF bus_step.deliver [of 0 _ 0 "[]"]]
  by (simp add: demo_bus_simps publish_one_def set_pub_def set_rh_def try_send_def tried_one_def)


theorem pubsub_Publish_witness:
  "chanClosed (demo_rh\<lparr>subDone := True, chanClosed := True\<rparr>) \<and>
   (\<exists>b'. runs_to bus_step (demo_bus [] (demo_rh\<lparr>subDone := True, chanClosed := True\<rparr>)
     (demo_pub\<lparr>panicked := Some ''send on closed channel''\<rparr>) [(0, UReturned)]) b')"
  using pubsub_Publish [OF publish_panics_after_unsubscribe, of 0]
  by (auto simp: demo_bus_def demo_pub_def demo_rh_def new_handler_def)

end
