(* ===== verification/Server.thy ===== *)
theory Server
  imports Pool Breaker LruCache KeyedLimit Retry Graceful Health Http Product Metrics Tracing PubSub
begin

text \<open>
  The example service, \<open>examples/server/main.go\<close>, which composes the packages: the set-up of
  \<open>main\<close>, the gRPC product service, the HTTP handlers, the health checks, the scheduled job and the
  shutdown hooks. A request is handled as one call here; how calls of the components interleave
  is the subject of their own theories. What the process takes from outside is a record of
  operations on an environment.
\<close>

section \<open>State and environment\<close>

record OrderEvent =
  evProductID :: string
  evQuantity :: int
  evAt :: gotime

definition ErrNotFound :: err where
  "ErrNotFound = ErrNew ''not found''"

record 'e app =
  productCache :: "(string, Product) cache"
  dbBreaker :: breaker
  ipLimiter :: "string keyed"
  app_bus :: "OrderEvent Bus"
  orderPool :: "OrderEvent pool"
  app_env :: 'e

text \<open>
  The clock, the random source, the request's context and timer, the float unit, the JSON codec for
  the messages of the HTTP API, and what the handlers read of a request.
\<close>

record ('c, 'e) services =
  sv_clock :: "('e, gotime) action"
  sv_Float64 :: "('e, rat) action"
  sv_rand_N :: "duration \<Rightarrow> ('e, duration) action"
  sv_ctx_Err :: "'e \<Rightarrow> err option"
  sv_timer :: "duration \<Rightarrow> ('e, bool) action"
  sv_fpu :: fpu
  sv_encode :: "Product \<Rightarrow> string"
  sv_decode :: "'c request \<Rightarrow> err + OrderEvent"
  sv_PathValue :: "'c request \<Rightarrow> string"
  sv_RemoteAddr :: "'c request \<Rightarrow> string"

definition lift :: "('e, 'a) action \<Rightarrow> ('e app, 'a) action" where
  "lift f a = (let (x, e) = f (app_env a) in (x, a\<lparr>app_env := e\<rparr>))"

section \<open>Helpers\<close>

text \<open>The prices are the \<open>float64\<close> values next to 79.99, 49.99, 399.99, 34.99 and 24.99.\<close>

definition sampleProducts :: "Product list" where
  "sampleProducts = [
     \<lparr>ID = ''p1'', PName = ''Wireless Keyboard'', Price = 5628795846771343 / 70368744177664\<rparr>,
     \<lparr>ID = ''p2'', PName = ''Mechanical Mouse'', Price = 7035467042882847 / 140737488355328\<rparr>,
     \<lparr>ID = ''p3'', PName = ''4K Monitor'', Price = 1759174623976489 / 4398046511104\<rparr>,
     \<lparr>ID = ''p4'', PName = ''USB-C Hub'', Price = 4924404717552927 / 140737488355328\<rparr>,
     \<lparr>ID = ''p5'', PName = ''Laptop Stand'', Price = 7034059667999293 / 281474976710656\<rparr>]"

definition zero_product :: Product where
  "zero_product = \<lparr>ID = [], PName = [], Price = 0\<rparr>"

text \<open>The threshold is the \<open>float64\<close> next to 0.2.\<close>

definition fetchProductFromDB :: "('e, rat) action \<Rightarrow> string \<Rightarrow> ('e, Product \<times> err option) action" where
  "fetchProductFromDB rand_Float64 pid e =
     (let (x, e1) = rand_Float64 e in
      if x < 3602879701896397 / 18014398509481984
      then ((zero_product, Some (Errorf [Lit ''transient db error: '', Wrapped ErrNotFound])), e1)
      else ((zero_product, Some (Errorf [Wrapped ErrNotFound, Lit '': product '', Lit pid])), e1))"

definition processOrder :: "(OrderEvent \<Rightarrow> 'w \<Rightarrow> 'w) \<Rightarrow> (int \<Rightarrow> ('w, int) action) \<Rightarrow> (duration \<Rightarrow> 'w \<Rightarrow> 'w) \<Rightarrow> OrderEvent \<Rightarrow> ('w, err option) action" where
  "processOrder log_info rand_IntN time_Sleep ev w =
     (let (n, w1) = rand_IntN 10 (log_info ev w) in (None, time_Sleep (n * Millisecond) w1))"

definition envOr :: "(string \<Rightarrow> string) \<Rightarrow> string \<Rightarrow> string \<Rightarrow> string" where
  "envOr getenv key fallback = (if getenv key \<noteq> [] then getenv key else fallback)"

section \<open>Cache and database\<close>

text \<open>
  \<open>circuitbreaker.Execute\<close> on the server's breaker, with the readings of the clock in their order: the
  second one only when the call is refused.
\<close>

definition execute_db :: "('c, 'e) services \<Rightarrow> ('e app, Product \<times> err option) action \<Rightarrow> ('e app, Product \<times> err option) action" where
  "execute_db sv fn a =
     (let (t1, a1) = lift (sv_clock sv) a; (t1', a2) = lift (sv_clock sv) a1 in
      case allow t1 t1' (dbBreaker a1) of
        (Some er, b) \<Rightarrow> ((zero_product, Some er), a2\<lparr>dbBreaker := b\<rparr>)
      | (None, b) \<Rightarrow>
          let ((p, er), a3) = fn (a1\<lparr>dbBreaker := b\<rparr>);
              (t2, a4) = lift (sv_clock sv) a3
          in ((p, er), a4\<lparr>dbBreaker := breaker_record t2 er (dbBreaker a4)\<rparr>))"

definition get_cached :: "('c, 'e) services \<Rightarrow> string \<Rightarrow> ('e app, Product option) action" where
  "get_cached sv pid a =
     (let (t, a1) = lift (sv_clock sv) a;
          (r, c) = cache_Get t pid (productCache a1)
      in (r, a1\<lparr>productCache := c\<rparr>))"

definition set_cached :: "('c, 'e) services \<Rightarrow> Product \<Rightarrow> 'e app \<Rightarrow> 'e app" where
  "set_cached sv p a =
     (let (t, a1) = lift (sv_clock sv) a in a1\<lparr>productCache := cache_Set t (ID p) p (productCache a1)\<rparr>)"

definition fetch :: "('c, 'e) services \<Rightarrow> string \<Rightarrow> ('e app, Product \<times> err option) action" where
  "fetch sv pid = execute_db sv (lift (fetchProductFromDB (sv_Float64 sv) pid))"

section \<open>The event bus\<close>

text \<open>The loop of \<open>Publish\<close> over the copied handlers, up to a panic of one of them.\<close>

fun bus_publish_loop :: "nat \<Rightarrow> nat list \<Rightarrow> 'p Bus \<Rightarrow> 'p Bus" where
  "bus_publish_loop i [] b = b"
| "bus_publish_loop i (k # ks) b =
     (let b1 = publish_one i k b in if panicked (pubs b1 ! i) = None then bus_publish_loop i ks b1 else b1)"

definition publish_order :: "OrderEvent \<Rightarrow> ('e app, unit call) action" where
  "publish_order ev a =
     (let i = length (pubs (app_bus a));
          b0 = Publish ''orders.placed'' ev (app_bus a);
          b1 = bus_publish_loop i (todo (pubs b0 ! i)) b0
      in (case panicked (pubs b1 ! i) of None \<Rightarrow> Ret () | Some p \<Rightarrow> Pan p, a\<lparr>app_bus := b1\<rparr>))"

section \<open>The gRPC service\<close>

definition svc_GetProduct :: "('c, 'e) services \<Rightarrow> (GetProductRequest, Product, 'e app) UnaryHandler" where
  "svc_GetProduct sv req a =
     (case get_cached sv (get_ID req) a of
        (Some p, a1) \<Rightarrow> (Ret (Some p, None), a1)
      | (None, a1) \<Rightarrow>
          (case fetch sv (get_ID req) a1 of
             ((_, Some er), a2) \<Rightarrow> (Ret (None, Some er), a2)
           | ((p, None), a2) \<Rightarrow> (Ret (Some p, None), set_cached sv p a2)))"

definition svc_ListProducts :: "(ListProductsRequest, ListProductsResponse, 'e app) UnaryHandler" where
  "svc_ListProducts req a =
     (let all = sampleProducts;
          pageSize = (if PageSize req \<le> 0 \<or> int (length all) < PageSize req then int (length all) else PageSize req)
      in (Ret (Some \<lparr>Products = map (\<lambda>i. all ! i) [0..<nat pageSize], NextPageToken = []\<rparr>, None), a))"

text \<open>\<open>UnixNano\<close> for the years in which it is defined.\<close>

definition time_UnixNano :: "gotime \<Rightarrow> int" where
  "time_UnixNano t = t - 62135596800 * Second"

definition svc_PlaceOrder :: "('c, 'e) services \<Rightarrow> (PlaceOrderRequest, PlaceOrderResponse, 'e app) UnaryHandler" where
  "svc_PlaceOrder sv req a =
     (let (t, a1) = lift (sv_clock sv) a in
      case publish_order \<lparr>evProductID = ProductID req, evQuantity = Quantity req, evAt = t\<rparr> a1 of
        (Pan p, a2) \<Rightarrow> (Pan p, a2)
      | (Ret _, a2) \<Rightarrow>
          let (t', a3) = lift (sv_clock sv) a2
          in (Ret (Some \<lparr>OrderID = ''ord-'' @ Itoa (time_UnixNano t'), Status = ''accepted''\<rparr>, None), a3))"

definition productService :: "('c, 'e) services \<Rightarrow> 'e app ProductServiceServer" where
  "productService sv = \<lparr>GetProduct = svc_GetProduct sv, ListProducts = svc_ListProducts, PlaceOrder = svc_PlaceOrder sv\<rparr>"

section \<open>The HTTP handlers\<close>

definition product_attempt :: "('c, 'e) services \<Rightarrow> string \<Rightarrow> ('e app, Product \<times> err option) action" where
  "product_attempt sv pid a =
     (case get_cached sv pid a of (Some p, a1) \<Rightarrow> ((p, None), a1) | (None, a1) \<Rightarrow> fetch sv pid a1)"

definition product_retry :: "('c, 'e) services \<Rightarrow> 'e app retry_options" where
  "product_retry sv =
     retry_config (\<lambda>a. sv_ctx_Err sv (app_env a)) (\<lambda>d. lift (sv_timer sv d))
       [the (WithMaxAttempts 3),
        WithBackoff (WithJitter (\<lambda>d. lift (sv_rand_N sv d)) (ExponentialBackoff_Next (sv_fpu sv)
          \<lparr>Initial = 50 * Millisecond, Multiplier = 2, Max = 500 * Millisecond\<rparr>))]"

definition http_GetProduct :: "('c, 'e) services \<Rightarrow> ('c, 'e app) handler" where
  "http_GetProduct sv r w a =
     (case retry_Do_cfg (product_retry sv) (\<lambda>a. sv_ctx_Err sv (app_env a)) (product_attempt sv (sv_PathValue sv r)) zero_product a of
        ((_, Some er), a1) \<Rightarrow>
          if errors_Is er ErrNotFound then ((Returned, http_Error ''product not found'' 404 w), a1)
          else ((Returned, http_Error ''internal error'' 500 w), a1)
      | ((p, None), a1) \<Rightarrow>
          ((Returned, Write (sv_encode sv p) (SetHeader ''Content-Type'' ''application/json'' w)), a1))"

definition http_PlaceOrder :: "('c, 'e) services \<Rightarrow> ('c, 'e app) handler" where
  "http_PlaceOrder sv r w a =
     (case sv_decode sv r of
        Inl _ \<Rightarrow> ((Returned, http_Error ''invalid body'' 400 w), a)
      | Inr ev \<Rightarrow>
          let (t, a1) = lift (sv_clock sv) a in
          (case publish_order (ev\<lparr>evAt := t\<rparr>) a1 of
             (Pan p, a2) \<Rightarrow> ((Panicked p, w), a2)
           | (Ret _, a2) \<Rightarrow>
               ((Returned, Write (''{'' @ Quote ''status'' @ '':'' @ Quote ''accepted'' @ ''}'' @ [CHR 0x0A]) (WriteHeader 202 w)), a2)))"

text \<open>
  The middleware around the multiplexer. \<open>Allow\<close> reads the clock for a new limiter, for the time of
  the last use and for the refill.
\<close>

definition allow_addr :: "('c, 'e) services \<Rightarrow> string \<Rightarrow> ('e app, bool) action" where
  "allow_addr sv addr a =
     (let (tNew, a1) = (if map_of (kentries (ipLimiter a)) addr = None then lift (sv_clock sv) a else (0, a));
          (tSeen, a2) = lift (sv_clock sv) a1;
          (tFill, a3) = lift (sv_clock sv) a2;
          (ok, kl) = keyed_Allow (sv_fpu sv) (tNew, tSeen, tFill) addr (ipLimiter a3)
      in (ok, a3\<lparr>ipLimiter := kl\<rparr>))"

record 'w http_env =
  he_newID :: "('w, string) action"
  he_log :: "log_entry \<Rightarrow> 'w \<Rightarrow> 'w"
  he_log_panic :: "string \<Rightarrow> 'w \<Rightarrow> 'w"
  he_upd :: "(http_metrics \<Rightarrow> http_metrics) \<Rightarrow> 'w \<Rightarrow> 'w"

definition server_handler :: "('c, 'e) services \<Rightarrow> 'e app http_env \<Rightarrow> ('c, 'e app) handler \<Rightarrow> ('c, 'e app) handler" where
  "server_handler sv he mux = Apply mux [
     RequestID (he_newID he),
     Logging (lift (sv_clock sv)) (he_log he),
     Recovery (he_log_panic he),
     metrics_Middleware (lift (sv_clock sv)) (he_upd he),
     Timeout (lift (sv_clock sv)) (10 * Second),
     RateLimit (\<lambda>r. allow_addr sv (sv_RemoteAddr sv r))]"

definition grpc_server :: "status_lib \<Rightarrow> 'w obs \<Rightarrow> (msg, msg, 'w) serverOptions" where
  "grpc_server sl ob = NewServer [
     WithReflection,
     WithUnaryInterceptors [rpc_Recovery sl ob, rpc_Logging sl ob, UnaryInterceptor sl ob],
     WithStreamInterceptors [StreamRecovery sl ob, StreamLogging sl ob, StreamInterceptor sl ob]]"

section \<open>Health checks and the scheduled job\<close>

definition check_order_pool :: "('x, 'e app) Checker" where
  "check_order_pool ctx a =
     (let d = QueueDepth (pool_Stats (orderPool a)) in
      (if 200 < d then Some (Errorf [Lit ''order queue depth critical: '', Dec (int d)]) else None, a))"

definition check_circuit_breaker :: "('c, 'e) services \<Rightarrow> ('x, 'e app) Checker" where
  "check_circuit_breaker sv ctx a =
     (let (t, a1) = lift (sv_clock sv) a;
          (s, b) = breaker_State t (dbBreaker a1)
      in (if s = StateOpen then Some (ErrNew ''database circuit is open'') else None, a1\<lparr>dbBreaker := b\<rparr>))"

definition healthGroup :: "('c, 'e) services \<Rightarrow> ('x, 'e app) health_group" where
  "healthGroup sv =
     health_Register ''circuit_breaker'' (check_circuit_breaker sv)
       (health_Register ''order_pool'' check_order_pool (health_New [health_WithTimeout (3 * Second)]))"

definition cache_warmup :: "('c, 'e) services \<Rightarrow> ('e app, err option) action" where
  "cache_warmup sv a = (None, fold (set_cached sv) sampleProducts a)"

section \<open>Shutdown\<close>

record ('x, 'w) lifecycle =
  lc_log :: "string \<Rightarrow> 'w \<Rightarrow> 'w"
  lc_cancel :: "'w \<Rightarrow> 'w"
  lc_sched_Stop :: "'w \<Rightarrow> 'w"
  lc_GracefulStop :: "'w \<Rightarrow> 'w"
  lc_http_Shutdown :: "'x \<Rightarrow> ('w, err option) action"
  lc_pool_Stop :: "'w \<Rightarrow> 'w"
  lc_Exit :: "int \<Rightarrow> 'w \<Rightarrow> 'w"

definition shutdown_group :: "('x, 'w) lifecycle \<Rightarrow> ('x, 'w) group" where
  "shutdown_group lc =
     Register ''order-pool'' (\<lambda>_ w. (None, lc_pool_Stop lc (lc_log lc ''draining order pool'' w)))
     (Register ''http-server'' (\<lambda>ctx w. lc_http_Shutdown lc ctx (lc_log lc ''shutting down HTTP server'' w))
     (Register ''grpc-server'' (\<lambda>_ w. (None, lc_GracefulStop lc (lc_log lc ''shutting down gRPC server'' w)))
     (Register ''scheduler'' (\<lambda>_ w. (None, lc_sched_Stop lc (lc_cancel lc (lc_log lc ''stopping scheduler'' w))))
     (graceful_New [graceful_WithTimeout (15 * Second)]))))"

definition main_end :: "('x \<Rightarrow> duration \<Rightarrow> 'x) \<Rightarrow> 'x \<Rightarrow> ('x \<Rightarrow> 'w \<Rightarrow> 'w) \<Rightarrow> 'x \<Rightarrow> ('x, 'w) lifecycle \<Rightarrow> 'w \<Rightarrow> 'w" where
  "main_end with_timeout background await ctx lc w =
     (case ListenAndShutdown with_timeout background await ctx (shutdown_group lc) w of
        (Some e, w1) \<Rightarrow> lc_Exit lc 1 (lc_log lc ''shutdown error'' w1)
      | (None, w1) \<Rightarrow> lc_log lc ''server stopped gracefully'' w1)"

section \<open>Set-up\<close>

definition setup_tracing :: "('e, 'kv, 's, 'r, 'x, 'p, 't) otel_lib \<Rightarrow> (string \<Rightarrow> string) \<Rightarrow> (err \<Rightarrow> 'e \<Rightarrow> 'e) \<Rightarrow> ('e, 't option) action" where
  "setup_tracing lib getenv log_err e =
     (case NewTracerProvider lib [WithServiceName (envOr getenv ''OTEL_SERVICE_NAME'' ''gkit-server''),
          WithEnvironment ''development'', WithOTLPEndpoint (getenv ''OTEL_EXPORTER_OTLP_ENDPOINT'')] e of
        (Inl er, e1) \<Rightarrow> (None, log_err er e1)
      | (Inr tp, e1) \<Rightarrow> (Some tp, e1))"

definition bind_call :: "'a call \<times> 'w \<Rightarrow> ('a \<Rightarrow> ('w, 'b call) action) \<Rightarrow> 'b call \<times> 'w" where
  "bind_call x f = (case x of (Pan p, w) \<Rightarrow> (Pan p, w) | (Ret y, w) \<Rightarrow> f y w)"

text \<open>The snapshots that the collectors take.\<close>

definition cache_snapshot :: "('e app, CacheSnapshot) action" where
  "cache_snapshot a =
     (let s = cache_Stats (productCache a)
      in (\<lparr>sHits = Hits s, sMisses = Misses s, sEvicts = Evicts s, sLen = Len s\<rparr>, a))"

definition pool_snapshot :: "('e app, PoolSnapshot) action" where
  "pool_snapshot a =
     (let s = pool_Stats (orderPool a)
      in (\<lparr>sSubmitted = Submitted s, sCompleted = Completed s, sErrors = Errors s, sInFlight = sint (InFlight s),
           sQueueDepth = int (QueueDepth s)\<rparr>, a))"

definition main_cache :: "(string, Product) cache call" where
  "main_cache =
     (case cache_New 512 [cache_WithTTL (5 * Minute)] of None \<Rightarrow> Pan ''cache: capacity must be >= 1'' | Some c \<Rightarrow> Ret c)"

definition main_breaker :: breaker where
  "main_breaker = breaker_New [WithFailureThreshold 5, WithSuccessThreshold 2, WithOpenTimeout (30 * Second), WithOnStateChange]"

definition main_pool :: "nat \<Rightarrow> OrderEvent pool call" where
  "main_pool n =
     (case pool_New 4 [WithQueueSize 256, WithOnError] n of None \<Rightarrow> Pan ''pool: workers must be >= 1'' | Some p \<Rightarrow> Ret (pool_Start p))"

definition initial_app :: "(string, Product) cache \<Rightarrow> OrderEvent pool \<Rightarrow> 'e \<Rightarrow> 'e app" where
  "initial_app c p e = \<lparr>productCache = c, dbBreaker = main_breaker, ipLimiter = NewKeyed 100 20 [WithKeyTTL (5 * Minute)],
     app_bus = Subscribe ''orders.placed'' (\<lambda>_. True) 64 NewBus, orderPool = p, app_env = e\<rparr>"

text \<open>
  \<open>main\<close> up to the start of the servers, for an order pool with \<open>n\<close> clients. The components do not
  share state, so the record is made when all have been set up; the cache is filled before its
  collector is registered.
\<close>

definition main_setup :: "('c, 'e) services \<Rightarrow> 'e prom_lib \<Rightarrow> nat \<Rightarrow> ('e, 'e app call) action" where
  "main_setup sv lib n e =
     bind_call (NewRegistry lib ''gkit'' e) (\<lambda>reg e.
     bind_call (NewHTTPMetrics lib e) (\<lambda>httpMetrics e.
     bind_call (NewRPCMetrics lib e) (\<lambda>rpcMetrics e.
     bind_call (main_cache, e) (\<lambda>c e.
     bind_call (main_pool n, e) (\<lambda>p e.
     (let a0 = initial_app c p e;
          a1 = fold (set_cached sv) sampleProducts a0
      in bind_call (reg_MustRegister lib [cache_Describe (NewCacheCollector ''product_cache'' cache_snapshot :: 'e app CacheCollector)] (app_env a1)) (\<lambda>_ e.
         bind_call (reg_MustRegister lib [pool_Describe (NewPoolCollector ''order_pool'' pool_snapshot :: 'e app PoolCollector)] e) (\<lambda>_ e.
         (Ret (a1\<lparr>app_env := e\<rparr>), e)))))))))"

section \<open>A product that does not exist\<close>

lemma lift_simps [simp]:
  "fst (lift f a) = fst (f (app_env a))" "productCache (snd (lift f a)) = productCache a" "dbBreaker (snd (lift f a)) = dbBreaker a"
  "ipLimiter (snd (lift f a)) = ipLimiter a" "app_bus (snd (lift f a)) = app_bus a" "orderPool (snd (lift f a)) = orderPool a"
  "app_env (snd (lift f a)) = snd (f (app_env a))"
  by (simp_all add: lift_def case_prod_beta)

text \<open>All readings of the clock lie within the thirty seconds after \<open>T\<close>.\<close>

definition in_window :: "('c, 'e) services \<Rightarrow> gotime \<Rightarrow> bool" where
  "in_window sv T \<longleftrightarrow> (\<forall>e. T \<le> fst (sv_clock sv e) \<and> fst (sv_clock sv e) < T + 30 * Second)"

text \<open>The server's breaker after \<open>f\<close> failures in a row, the fifth of which opened it at \<open>T\<close> or later.\<close>

definition after_failures :: "gotime \<Rightarrow> int \<Rightarrow> breaker \<Rightarrow> bool" where
  "after_failures T f b \<longleftrightarrow> opts b = opts main_breaker \<and> failures b = f \<and>
     (if f < 5 then state b = StateClosed else state b = StateOpen \<and> T \<le> openedAt b)"

lemma main_opts [simp]:
  "opts main_breaker = \<lparr>failureThreshold = 5, successThreshold = 2, openTimeout = 30 * Second, onStateChange = True\<rparr>"
  by (simp add: main_breaker_def breaker_New_def WithFailureThreshold_def WithSuccessThreshold_def WithOpenTimeout_def
      WithOnStateChange_def)

lemma window_open:
  assumes "in_window sv T" "T \<le> u"
  shows "\<not> 30 * Second \<le> time_Sub (fst (sv_clock sv e)) u"
proof -
  have "fst (sv_clock sv e) < T + 30 * Second" using assms(1) by (simp add: in_window_def)
  then show ?thesis using assms(2) time_Sub_ge_iff [of "30 * Second" "fst (sv_clock sv e)" u] by simp
qed

lemma fetch_error:
  "\<exists>er e'. fetchProductFromDB rf pid e = ((zero_product, Some er), e') \<and> errors_Is er ErrNotFound \<and> as_StopError er = None"
proof -
  have "errors_Is (Errorf ps) ErrNotFound" if "Wrapped ErrNotFound \<in> set ps" for ps
    by (rule errors_Is_wrap [of ErrNotFound]) (use that in \<open>force+\<close>)
  moreover have "as_StopError (Errorf [Lit s, Wrapped ErrNotFound]) = None"
    "as_StopError (Errorf [Wrapped ErrNotFound, Lit s, Lit s']) = None" for s s'
    by (simp_all add: as_StopError.simps [of "Errorf ps" for ps] ErrNotFound_def)
  ultimately show ?thesis by (simp add: fetchProductFromDB_def case_prod_beta)
qed

lemma refused_error:
  assumes "errors_Is er ErrNotFound" "er = Errorf [Wrapped ErrOpen, Lit s, Dur d, Lit s']"
  shows False
  using assms by (simp add: errors_Is.simps [of "Errorf ps" for ps] ErrNotFound_def)

lemma allow_closed: "state b = StateClosed \<Longrightarrow> allow t t' b = (None, b)"
  by (simp add: allow_def maybeTransitionFromOpen_def Let_def)

lemma fetch_closed:
  assumes w: "in_window sv T" and b: "after_failures T f (dbBreaker a)" "f < 5"
  shows "\<exists>er a'. fetch sv pid a = ((zero_product, Some er), a') \<and> after_failures T (f + 1) (dbBreaker a') \<and>
    productCache a' = productCache a \<and> as_StopError er = None \<and> errors_Is er ErrNotFound"
proof -
  let ?a1 = "snd (lift (sv_clock sv) a)"
  obtain er e' where er: "fetchProductFromDB (sv_Float64 sv) pid (app_env ?a1) = ((zero_product, Some er), e')"
    "errors_Is er ErrNotFound" "as_StopError er = None" using fetch_error [of "sv_Float64 sv" pid "app_env ?a1"] by (elim exE conjE)
  let ?a3 = "?a1\<lparr>app_env := e'\<rparr>"
  let ?b = "breaker_record (fst (sv_clock sv e')) (Some er) (dbBreaker a)"
  have st: "state (dbBreaker a) = StateClosed" using b by (simp add: after_failures_def)
  have "fetch sv pid a = ((zero_product, Some er), (snd (lift (sv_clock sv) ?a3))\<lparr>dbBreaker := ?b\<rparr>)"
    by (simp add: fetch_def execute_db_def Let_def case_prod_beta allow_closed st) (simp add: lift_def er(1) [simplified] case_prod_beta)
  moreover have "after_failures T (f + 1) ?b"
    using b w by (auto simp: after_failures_def breaker_record_def record_closed_def transition_def Let_def in_window_def)
  ultimately show ?thesis using er by simp
qed

lemma fetch_open:
  assumes w: "in_window sv T" and b: "after_failures T f (dbBreaker a)" "5 \<le> f"
  shows "\<exists>er a'. fetch sv pid a = ((zero_product, Some er), a') \<and> dbBreaker a' = dbBreaker a \<and>
    productCache a' = productCache a \<and> as_StopError er = None \<and> \<not> errors_Is er ErrNotFound"
proof -
  let ?b = "dbBreaker a" and ?a1 = "snd (lift (sv_clock sv) a)"
  let ?t = "fst (sv_clock sv (app_env a))"
  have st: "state ?b = StateOpen" "opts ?b = opts main_breaker" "T \<le> openedAt ?b" using b by (simp_all add: after_failures_def)
  have "maybeTransitionFromOpen ?t ?b = ?b"
    using window_open [OF w st(3), of "app_env a"] st by (simp add: maybeTransitionFromOpen_def)
  then obtain d where "\<And>t'. allow ?t t' ?b = (Some (Errorf [Wrapped ErrOpen, Lit '' (will retry after '', Dur (d t'), Lit '')'']), ?b)"
    using st(1) by (simp add: allow_def Let_def)
  then have "fetch sv pid a = ((zero_product, Some (Errorf [Wrapped ErrOpen, Lit '' (will retry after '',
      Dur (d (fst (sv_clock sv (app_env ?a1)))), Lit '')''])), (snd (lift (sv_clock sv) ?a1))\<lparr>dbBreaker := ?b\<rparr>)"
    by (simp add: fetch_def execute_db_def Let_def case_prod_beta)
  then show ?thesis using refused_error by (auto simp: as_StopError.simps [of "Errorf ps" for ps])
qed

text \<open>One attempt of the retry loop for a product that is not in the cache.\<close>

lemma attempt_missing:
  assumes w: "in_window sv T" and b: "after_failures T f (dbBreaker a)" "f \<le> 5" and c: "items (productCache a) pid = None"
  shows "\<exists>er a'. product_attempt sv pid a = ((zero_product, Some er), a') \<and> after_failures T (min 5 (f + 1)) (dbBreaker a') \<and>
    items (productCache a') pid = None \<and> as_StopError er = None \<and> (errors_Is er ErrNotFound \<longleftrightarrow> f < 5)"
proof -
  obtain a1 where a1: "get_cached sv pid a = (None, a1)" "dbBreaker a1 = dbBreaker a" "items (productCache a1) pid = None"
    using c by (simp add: get_cached_def cache_Get_def Let_def case_prod_beta)
  have b1: "after_failures T f (dbBreaker a1)" using b a1 by simp
  show ?thesis
  proof (cases "f < 5")
    case True
    then show ?thesis using fetch_closed [OF w b1 True, of pid] a1 by (auto simp: product_attempt_def)
  next
    case False
    then have "f = 5" using b(2) by simp
    then show ?thesis using fetch_open [OF w b1, of pid] a1 b1 by (auto simp: product_attempt_def)
  qed
qed

text \<open>The context of the request is not done and its timers fire.\<close>

definition patient :: "('c, 'e) services \<Rightarrow> bool" where
  "patient sv \<longleftrightarrow> (\<forall>e. sv_ctx_Err sv e = None) \<and> (\<forall>d e. fst (sv_timer sv d e))"

lemma product_retry_simps:
  "maxAttempts (product_retry sv) = 3" "onRetry (product_retry sv) = None"
  "sleep (product_retry sv) = contextSleep (\<lambda>a. sv_ctx_Err sv (app_env a)) (\<lambda>d. lift (sv_timer sv d))"
  "backoff (product_retry sv) = WithJitter (\<lambda>d. lift (sv_rand_N sv d)) (ExponentialBackoff_Next (sv_fpu sv)
     \<lparr>Initial = 50 * Millisecond, Multiplier = 2, Max = 500 * Millisecond\<rparr>)"
  by (simp_all add: product_retry_def retry_config_def defaultOptions_def WithMaxAttempts_def WithBackoff_def)

lemma between_patient:
  assumes "patient sv"
  shows "\<exists>a'. between (product_retry sv) n er a = (None, a') \<and> dbBreaker a' = dbBreaker a \<and> productCache a' = productCache a"
  using assms
  by (auto simp: between_def product_retry_simps WithJitter_def Jitter_Next_def ExponentialBackoff_Next_def contextSleep_def
      patient_def Let_def case_prod_beta)

lemma retry_missing:
  assumes w: "in_window sv T" "patient sv" and b: "after_failures T f (dbBreaker a)" "f \<le> 5"
    and c: "items (productCache a) pid = None"
  shows "\<exists>er a'. retry_Do_cfg (product_retry sv) (\<lambda>a. sv_ctx_Err sv (app_env a)) (product_attempt sv pid) zero_product a =
      ((zero_product, Some (ErrMaxAttempts 3 (Some er))), a') \<and>
    after_failures T (min 5 (f + 3)) (dbBreaker a') \<and> (errors_Is er ErrNotFound \<longleftrightarrow> f \<le> 2)"
proof -
  have live: "sv_ctx_Err sv e = None" for e using w(2) by (simp add: patient_def)
  note attempt = attempt_missing [OF w(1)]
  obtain e1 a1 where 1: "product_attempt sv pid a = ((zero_product, Some e1), a1)" "after_failures T (min 5 (f + 1)) (dbBreaker a1)"
    "items (productCache a1) pid = None" "as_StopError e1 = None" using attempt [OF b c] by blast
  obtain a1' where s1: "between (product_retry sv) 0 e1 a1 = (None, a1')" "dbBreaker a1' = dbBreaker a1" "productCache a1' = productCache a1"
    using between_patient [OF w(2)] by blast
  have "min 5 (min 5 (f + 1) + 1) = min 5 (f + 2)" "min 5 (min 5 (f + 2) + 1) = min 5 (f + 3)" "min 5 (f + 2) < 5 \<longleftrightarrow> f \<le> 2" by auto
  note mins = this
  obtain e2 a2 where 2: "product_attempt sv pid a1' = ((zero_product, Some e2), a2)" "after_failures T (min 5 (f + 2)) (dbBreaker a2)"
    "items (productCache a2) pid = None" "as_StopError e2 = None"
    using attempt [of "min 5 (f + 1)" a1' pid] 1 s1 mins by auto
  obtain a2' where s2: "between (product_retry sv) 1 e2 a2 = (None, a2')" "dbBreaker a2' = dbBreaker a2" "productCache a2' = productCache a2"
    using between_patient [OF w(2)] by blast
  obtain e3 a3 where 3: "product_attempt sv pid a2' = ((zero_product, Some e3), a3)" "after_failures T (min 5 (f + 3)) (dbBreaker a3)"
    "as_StopError e3 = None" "errors_Is e3 ErrNotFound \<longleftrightarrow> f \<le> 2"
    using attempt [of "min 5 (f + 2)" a2' pid] 2 s2 mins by auto
  have "[0 .. 3 - 1] = [0, 1, 2 :: int]" by (simp add: upto.simps)
  then show ?thesis using 1 s1 2 s2 3 by (simp add: retry_Do_cfg_def product_retry_simps live)
qed



text \<open>A clock that stands still, and the state of the server with an empty cache.\<close>

definition demo_services :: "(unit, 'e) services" where
  "demo_services = \<lparr>sv_clock = (\<lambda>e. (1, e)), sv_Float64 = (\<lambda>e. (0, e)), sv_rand_N = (\<lambda>d e. (d - 1, e)), sv_ctx_Err = (\<lambda>e. None),
     sv_timer = (\<lambda>d e. (True, e)), sv_fpu = exact_fpu, sv_encode = ID, sv_decode = (\<lambda>r. Inl Canceled), sv_PathValue = rpath,
     sv_RemoteAddr = rpath\<rparr>"

definition demo_request :: "unit request" where
  "demo_request = \<lparr>rmethod = ''GET'', rpath = ''p9'', rpattern = [], rheader = (\<lambda>_. []), rcookie = (\<lambda>_. None),
     rcontext = \<lparr>ctx_id = None, ctx_claims = None, ctx_deadline = None\<rparr>\<rparr>"

definition demo_writer :: writer where
  "demo_writer = \<lparr>layers = [], base = \<lparr>header = (\<lambda>_. None), sent = None, wbody = []\<rparr>\<rparr>"

definition demo_app :: "unit app" where
  "demo_app = (case (main_cache, main_pool 0) of (Ret c, Ret p) \<Rightarrow> initial_app c p ())"

lemma main_cache_eq:
  "main_cache = Ret \<lparr>capacity = 512, ttl = 5 * Minute, clist = [], heap = Map.empty, fresh = 0, items = Map.empty,
     hits = 0, misses = 0, evicts = 0\<rparr>"
  by (simp add: main_cache_def cache_New_def cache_WithTTL_def)

lemma main_pool_Ret: "\<exists>p. main_pool n = Ret p"
  by (simp add: main_pool_def pool_New_def WithQueueSize_def WithOnError_def)

lemma demo_services_ok: "in_window demo_services 0" "patient demo_services"
  by (simp_all add: in_window_def patient_def demo_services_def)

lemma demo_app_cache: "items (productCache demo_app) pid = None"
proof -
  obtain p where "main_pool 0 = Ret p" using main_pool_Ret by blast
  then show ?thesis by (simp add: demo_app_def main_cache_eq initial_app_def)
qed

lemma after_failures_main: "f < 5 \<Longrightarrow> after_failures T f (main_breaker\<lparr>failures := f\<rparr>)"
  by (simp add: after_failures_def) (simp add: main_breaker_def breaker_New_def)


section \<open>The set-up\<close>

definition server_descs :: "'w prom_lib \<Rightarrow> desc list" where
  "server_descs lib = map vdesc (http_instruments lib) @ map vdesc (rpc_instruments lib) @
     cache_Describe (NewCacheCollector ''product_cache'' (cache_snapshot :: (unit app, CacheSnapshot) action)) @
     pool_Describe (NewPoolCollector ''order_pool'' (pool_snapshot :: (unit app, PoolSnapshot) action))"

text \<open>Every registration of the set-up is of a part of these descriptors, after those before it.\<close>

lemma all_fit_append: "all_fit rs (ds @ ds') \<longleftrightarrow> all_fit rs ds \<and> all_fit (rs @ ds) ds'"
  by (induction ds arbitrary: rs) auto

lemma server_descs_fit:
  assumes "prom_ok lib regs"
  shows "all_fit [] ((goDescs lib @ processDescs lib) @ server_descs lib)"
proof -
  have names: "map fqName (server_descs lib) = [''http_requests_total'', ''http_request_duration_seconds'', ''http_requests_in_flight'',
    ''http_response_bytes_total'', ''grpc_server_requests_total'', ''grpc_server_request_duration_seconds'',
    ''grpc_server_requests_in_flight'', ''gkit_cache_hits_total'', ''gkit_cache_misses_total'', ''gkit_cache_evictions_total'',
    ''gkit_cache_size'', ''gkit_pool_jobs_submitted_total'', ''gkit_pool_jobs_completed_total'', ''gkit_pool_jobs_errors_total'',
    ''gkit_pool_jobs_in_flight'', ''gkit_pool_queue_depth'']"
    by (simp add: server_descs_def http_instruments_def rpc_instruments_def prom_okD(4) [OF assms] cache_Describe_def NewCacheCollector_def
        cache_desc_def pool_Describe_def NewPoolCollector_def pool_desc_def)
  have "all_fit (goDescs lib @ processDescs lib) (server_descs lib)"
  proof (rule all_fit_names)
    show "distinct (map fqName (server_descs lib))" unfolding names by simp
    have "list_all (\<lambda>s. \<not> (take 3 s = ''go_'' \<or> take 8 s = ''process_'')) (map fqName (server_descs lib))" unfolding names by simp
    then show "list_all (\<lambda>d. fqName d \<notin> set (map fqName (goDescs lib @ processDescs lib))) (server_descs lib)"
      using prom_okD(6) [OF assms] by (fastforce simp: list_all_iff)
  qed
  then show ?thesis using prom_okD(5) [OF assms] by (subst all_fit_append) simp
qed

text \<open>The sample products in the cache.\<close>

lemma set_cached_simps [simp]:
  "productCache (set_cached sv p a) = cache_Set (fst (sv_clock sv (app_env a))) (ID p) p (productCache a)"
  "app_env (set_cached sv p a) = snd (sv_clock sv (app_env a))" "dbBreaker (set_cached sv p a) = dbBreaker a"
  "app_bus (set_cached sv p a) = app_bus a" "orderPool (set_cached sv p a) = orderPool a"
  "ipLimiter (set_cached sv p a) = ipLimiter a"
  by (simp_all add: set_cached_def case_prod_beta)

lemma fold_set_cached:
  "dbBreaker (fold (set_cached sv) ps a) = dbBreaker a" "app_bus (fold (set_cached sv) ps a) = app_bus a"
  "orderPool (fold (set_cached sv) ps a) = orderPool a"
  by (induction ps arbitrary: a) simp_all

lemma fold_set_cached_env:
  assumes "\<And>e. f (snd (sv_clock sv e)) = f e"
  shows "f (app_env (fold (set_cached sv) ps a)) = f (app_env a)"
  using assms by (induction ps arbitrary: a) simp_all

definition cached_until :: "gotime \<Rightarrow> 'k \<Rightarrow> 'v \<Rightarrow> ('k, 'v) cache \<Rightarrow> bool" where
  "cached_until t k v c \<longleftrightarrow> (case items c k of None \<Rightarrow> False
     | Some el \<Rightarrow> el < cache.fresh c \<and> evalue (entry_at c el) = v \<and> \<not> isExpired t (entry_at c el))"

lemma cached_Get: "cached_until t k v c \<Longrightarrow> fst (cache_Get t k c) = Some v"
  by (auto simp: cached_until_def cache_Get_def Let_def split: option.splits)

text \<open>A new key, in a cache that is not full.\<close>

lemma cached_Set:
  assumes "items c k = None" "int (length (clist c)) < capacity c"
  shows "t \<le> u + ttl c \<Longrightarrow> cached_until t k v (cache_Set u k v c)"
    "cached_until t k' v' c \<Longrightarrow> cached_until t k' v' (cache_Set u k v c)"
    "items (cache_Set u k v c) = (items c)(k \<mapsto> cache.fresh c)" "length (clist (cache_Set u k v c)) = Suc (length (clist c))"
    "capacity (cache_Set u k v c) = capacity c" "ttl (cache_Set u k v c) = ttl c"
  using assms
  by (auto simp: cached_until_def cache_Set_def isExpired_def newExpiry_def time_Add_def time_IsZero_def Let_def split: option.splits)

lemma fold_set_cached_until:
  assumes "\<And>e. T \<le> fst (sv_clock sv e)" "t \<le> T + ttl (productCache a)"
    and "distinct (map ID ps)" "list_all (\<lambda>p. items (productCache a) (ID p) = None) ps"
    and "int (length (clist (productCache a)) + length ps) \<le> capacity (productCache a)"
  shows "list_all (\<lambda>p. cached_until t (ID p) p (productCache (fold (set_cached sv) ps a))) ps \<and>
    (\<forall>k v. cached_until t k v (productCache a) \<longrightarrow> cached_until t k v (productCache (fold (set_cached sv) ps a)))"
  using assms(2-5)
proof (induction ps arbitrary: a)
  case (Cons p ps)
  let ?a = "set_cached sv p a" and ?u = "fst (sv_clock sv (app_env a))"
  have "items (productCache a) (ID p) = None" "int (length (clist (productCache a))) < capacity (productCache a)"
    using Cons.prems(3,4) by simp_all
  note set_p = cached_Set [OF this, where u = ?u and v = p, folded set_cached_simps(1) [where sv = sv]]
  have "t \<le> ?u + ttl (productCache a)" using assms(1) [of "app_env a"] Cons.prems(1) by linarith
  then have "cached_until t (ID p) p (productCache ?a)" by (rule set_p(1))
  moreover have "list_all (\<lambda>q. items (productCache ?a) (ID q) = None) ps"
    using Cons.prems(2,3) set_p(3) by (auto simp: list_all_iff image_iff)
  then have "list_all (\<lambda>p. cached_until t (ID p) p (productCache (fold (set_cached sv) ps ?a))) ps \<and>
    (\<forall>k v. cached_until t k v (productCache ?a) \<longrightarrow> cached_until t k v (productCache (fold (set_cached sv) ps ?a)))"
    by (intro Cons.IH) (use Cons.prems set_p in auto)
  ultimately show ?case using set_p(2) by simp
qed simp

lemma sample_cached:
  assumes "main_cache = Ret c" "\<And>e. T \<le> fst (sv_clock sv e)" "t \<le> T + 5 * Minute"
  shows "list_all (\<lambda>p. fst (cache_Get t (ID p) (productCache (fold (set_cached sv) sampleProducts (initial_app c p' e)))) = Some p) sampleProducts"
proof -
  have "list_all (\<lambda>p. cached_until t (ID p) p (productCache (fold (set_cached sv) sampleProducts (initial_app c p' e)))) sampleProducts"
  proof (rule conjunct1 [OF fold_set_cached_until [OF assms(2)]])
    have c: "productCache (initial_app c p' e) = c" by (simp add: initial_app_def)
    show "t \<le> T + ttl (productCache (initial_app c p' e))" "distinct (map ID sampleProducts)"
      "list_all (\<lambda>p. items (productCache (initial_app c p' e)) (ID p) = None) sampleProducts"
      "int (length (clist (productCache (initial_app c p' e))) + length sampleProducts) \<le> capacity (productCache (initial_app c p' e))"
      using assms(1,3) unfolding c by (auto simp: main_cache_eq sampleProducts_def)
  qed
  then show ?thesis by (auto simp: list_all_iff intro: cached_Get)
qed

lemma main_setup_ok:
  assumes "prom_ok lib regs" "\<forall>e. regs (snd (sv_clock sv e)) = regs e" "\<forall>e. T \<le> fst (sv_clock sv e)" "t \<le> T + 5 * Minute"
  shows "\<exists>a e1. main_setup sv lib n e = (Ret a, e1) \<and> app_env a = e1 \<and>
    regs e1 = goDescs lib @ processDescs lib @ server_descs lib \<and>
    list_all (\<lambda>p. fst (cache_Get t (ID p) (productCache a)) = Some p) sampleProducts \<and>
    after_failures T 0 (dbBreaker a) \<and> Pool.running (orderPool a) = replicate 4 WIdle \<and>
    subs (app_bus a) ''orders.placed'' = [0] \<and> reach (\<lambda>b. b = NewBus) bus_step (app_bus a)"
proof -
  let ?D = "goDescs lib @ processDescs lib" and ?H = "map vdesc (http_instruments lib)" and ?R = "map vdesc (rpc_instruments lib)"
  let ?C = "cache_Describe (NewCacheCollector ''product_cache'' (cache_snapshot :: (unit app, CacheSnapshot) action))"
  let ?P = "pool_Describe (NewPoolCollector ''order_pool'' (pool_snapshot :: (unit app, PoolSnapshot) action))"
  note ok = prom_okD [OF assms(1)]
  have "all_fit [] (?D @ ?H @ ?R @ ?C @ ?P)" using server_descs_fit [OF assms(1)] by (simp add: server_descs_def)
  then have fit: "all_fit [] ?D" "all_fit ?D ?H" "all_fit (?D @ ?H) ?R" "all_fit (?D @ ?H @ ?R) ?C" "all_fit (?D @ ?H @ ?R @ ?C) ?P"
    by (simp_all add: all_fit_append)
  have one: "concat (map (\<lambda>v. [vdesc v]) vs) = map vdesc vs" for vs by (induction vs) simp_all
  obtain e1 where e1: "NewRegistry lib ''gkit'' e = (Ret \<lparr>namespace = ''gkit''\<rparr>, e1)" "regs e1 = ?D"
    using ok(1) [of "NewPromRegistry lib e" "[goDescs lib, processDescs lib]"] ok(3) [of e] fit(1) by (auto simp: NewRegistry_def)
  obtain e2 where e2: "NewHTTPMetrics lib e1 = (Ret (http_instruments lib), e2)" "regs e2 = ?D @ ?H"
    using ok(1) [of e1 "map (\<lambda>v. [vdesc v]) (http_instruments lib)"] fit(2) e1(2) by (auto simp: NewHTTPMetrics_def one)
  obtain e3 where e3: "NewRPCMetrics lib e2 = (Ret (rpc_instruments lib), e3)" "regs e3 = ?D @ ?H @ ?R"
    using ok(1) [of e2 "map (\<lambda>v. [vdesc v]) (rpc_instruments lib)"] fit(3) e2(2) by (auto simp: NewRPCMetrics_def one)
  obtain c where c: "main_cache = Ret c" using main_cache_eq by blast
  obtain p where p: "main_pool n = Ret p" "Pool.running p = replicate 4 WIdle"
    by (simp add: main_pool_def pool_New_def WithQueueSize_def WithOnError_def pool_Start_def)
  let ?a = "fold (set_cached sv) sampleProducts (initial_app c p e3)"
  have env: "regs (app_env ?a) = ?D @ ?H @ ?R"
    using fold_set_cached_env [of regs sv sampleProducts "initial_app c p e3"] assms(2) e3(2) by (simp add: initial_app_def)
  obtain e4 where e4: "MustRegisterAll lib [?C] (app_env ?a) = (Ret (), e4)" "regs e4 = ?D @ ?H @ ?R @ ?C"
    using ok(1) [of "app_env ?a" "[?C]"] fit(4) env by auto
  obtain e5 where e5: "MustRegisterAll lib [?P] e4 = (Ret (), e5)" "regs e5 = ?D @ ?H @ ?R @ ?C @ ?P"
    using ok(1) [of e4 "[?P]"] fit(5) e4(2) by auto
  have "main_setup sv lib n e = (Ret (?a\<lparr>app_env := e5\<rparr>), e5)"
    using e4(1) e5(1)
    by (simp add: main_setup_def bind_call_def e1 e2 e3 c p reg_MustRegister_def Let_def
        cache_Describe_def NewCacheCollector_def pool_Describe_def NewPoolCollector_def)
  moreover have "reach (\<lambda>b. b = NewBus) bus_step (Subscribe ''orders.placed'' (\<lambda>_. True) 64 (NewBus :: OrderEvent Bus))"
    by (rule reach_step [where s = NewBus and e = "()"]) (simp_all add: reach_start bus_step.subscribe)
  moreover have "after_failures T 0 main_breaker" using after_failures_main [of 0 T] by (simp add: main_breaker_def breaker_New_def)
  ultimately show ?thesis
    using sample_cached [OF c, of T sv t p e3] assms(3,4) e5(2) p(2)
    by (simp add: fold_set_cached server_descs_def) (simp add: initial_app_def Subscribe_def NewBus_def)
qed

text \<open>
  C37. The set-up of the server, over a Prometheus client library that keeps its documented rules: it does
  not panic, whatever the registry held before. Every instrument of the HTTP and gRPC middleware and
  every descriptor of the cache and pool collectors gets registered, once. The five sample products
  are served from the cache for five minutes after the first reading of the clock, the breaker is
  closed with no failures, four workers wait for orders, and the bus has one subscriber for them.
\<close>

theorem server_setup:
  assumes "prom_ok lib regs" "\<forall>e. regs (snd (sv_clock sv e)) = regs e" "\<forall>e. T \<le> fst (sv_clock sv e)" "t \<le> T + 5 * Minute"
  shows "\<exists>a e1. main_setup sv lib n e = (Ret a, e1) \<and> app_env a = e1 \<and>
    regs e1 = goDescs lib @ processDescs lib @ server_descs lib \<and>
    list_all (\<lambda>p. fst (cache_Get t (ID p) (productCache a)) = Some p) sampleProducts \<and>
    after_failures T 0 (dbBreaker a) \<and> Pool.running (orderPool a) = replicate 4 WIdle \<and>
    subs (app_bus a) ''orders.placed'' = [0] \<and> reach (\<lambda>b. b = NewBus) bus_step (app_bus a)"
  by (rule main_setup_ok [OF assms])

theorem server_setup_witness:
  "\<exists>a e1. main_setup (demo_services :: (unit, desc list) services) mem_prom 0 [] = (Ret a, e1) \<and> length e1 = 18 \<and>
    fst (cache_Get 5 ''p3'' (productCache a)) = Some (sampleProducts ! 2)"
proof -
  have "length (server_descs mem_prom) = 16"
    by (simp add: server_descs_def http_instruments_def rpc_instruments_def cache_Describe_def NewCacheCollector_def
        pool_Describe_def NewPoolCollector_def)
  moreover have "length (goDescs mem_prom @ processDescs mem_prom) = 2" by (simp add: mem_prom_def)
  moreover have "sampleProducts ! 2 \<in> set sampleProducts" "ID (sampleProducts ! 2) = ''p3''" by (simp_all add: sampleProducts_def)
  ultimately show ?thesis
    using server_setup [OF mem_prom_ok, of "demo_services :: (unit, desc list) services" 1 5 0 "[]"]
    by (fastforce simp: demo_services_def list_all_iff)
qed

section \<open>Orders\<close>

lemma bus_publish_loop_reach:
  assumes "reach (\<lambda>b. b = NewBus) bus_step b" "i < length (pubs b)" "panicked (pubs b ! i) = None" "todo (pubs b ! i) = ks"
  shows "reach (\<lambda>b. b = NewBus) bus_step (bus_publish_loop i ks b)"
  using assms
proof (induction ks arbitrary: b)
  case (Cons k ks)
  let ?b = "publish_one i k b"
  have r: "reach (\<lambda>b. b = NewBus) bus_step ?b"
    by (rule reach_step [OF Cons.prems(1), OF bus_step.deliver [OF Cons.prems(2-4)]])
  show ?case
  proof (cases "panicked (pubs ?b ! i) = None")
    case True
    then have "todo (pubs ?b ! i) = ks" using publish_one_todo [OF Cons.prems(2,4)] by simp
    then have "reach (\<lambda>b. b = NewBus) bus_step (bus_publish_loop i ks ?b)"
      using Cons.IH [OF r] True Cons.prems(2) by (simp add: publish_one_length)
    then show ?thesis using True by simp
  qed (use r in \<open>auto simp: Let_def\<close>)
qed simp

text \<open>\<open>Publish\<close> to a single subscriber that is still subscribed.\<close>

definition order_closure :: "OrderEvent Bus \<Rightarrow> OrderEvent \<Rightarrow> OrderEvent closure" where
  "order_closure b ev = (length (pubs b), \<lparr>Topic = ''orders.placed'', Payload = ev\<rparr>)"

definition order_sent :: "nat \<Rightarrow> OrderEvent \<Rightarrow> OrderEvent Bus \<Rightarrow> OrderEvent Bus \<Rightarrow> bool" where
  "order_sent k ev b b' \<longleftrightarrow>
     (if length (chan (rhs b ! k)) < bufCap (rhs b ! k)
      then chan (rhs b' ! k) = chan (rhs b ! k) @ [order_closure b ev] \<and> blog b' = blog b
      else rhs b' = rhs b \<and> blog b' = blog b @ [EventDropped ''orders.placed''])"

definition order_bus :: "nat \<Rightarrow> OrderEvent Bus \<Rightarrow> bool" where
  "order_bus k b \<longleftrightarrow> reach (\<lambda>b. b = NewBus) bus_step b \<and> subs b ''orders.placed'' = [k] \<and>
     isT (rhs b ! k) = (\<lambda>_. True) \<and> \<not> chanClosed (rhs b ! k) \<and> bufCap (rhs b ! k) = 64"

lemma publish_order_one:
  assumes "order_bus k (app_bus a)"
  shows "\<exists>b. publish_order ev a = (Ret (), a\<lparr>app_bus := b\<rparr>) \<and> order_sent k ev (app_bus a) b \<and> order_bus k b"
proof -
  let ?bus = "app_bus a" and ?t = "''orders.placed''"
  let ?bp = "Publish ?t ev ?bus" and ?i = "length (pubs (app_bus a))"
  let ?bd = "publish_one ?i k ?bp"
  note ok = assms [unfolded order_bus_def]
  have k: "k < length (rhs ?bus)" "topic (rhs ?bus ! k) = ?t"
    using bus_invD(4) [OF bus.reach_inv, of ?bus k ?t] ok by auto
  have r0: "reach (\<lambda>b. b = NewBus) bus_step ?bp" using reach_step [OF conjunct1 [OF ok], OF bus_step.publish] .
  have q: "pubs ?bp ! ?i = \<lparr>ptopic = ?t, ppayload = ev, copied = [k], tried = [], todo = [k], panicked = None\<rparr>"
    "?i < length (pubs ?bp)" "rhs ?bp = rhs ?bus" "blog ?bp = blog ?bus" "subs ?bp = subs ?bus"
    using ok by (simp_all add: Publish_def)
  have one: "panicked (pubs ?bd ! ?i) = None \<and> order_sent k ev ?bus ?bd \<and> subs ?bd = subs ?bus \<and>
      isT (rhs ?bd ! k) = isT (rhs ?bus ! k) \<and> chanClosed (rhs ?bd ! k) = chanClosed (rhs ?bus ! k) \<and> bufCap (rhs ?bd ! k) = bufCap (rhs ?bus ! k)"
    using ok k q by (auto simp: publish_one_def order_sent_def order_closure_def set_pub_def set_rh_def tried_one_def try_send_def Let_def)
  have "reach (\<lambda>b. b = NewBus) bus_step (bus_publish_loop ?i [k] ?bp)" by (rule bus_publish_loop_reach [OF r0]) (simp_all add: q)
  moreover have "bus_publish_loop ?i [k] ?bp = ?bd" by (simp add: Let_def)
  ultimately show ?thesis using one ok q(1) by (intro exI [of _ ?bd]) (simp add: publish_order_def order_bus_def Let_def)
qed


lemma demo_order_bus: "order_bus 0 (app_bus demo_app)"
proof -
  obtain p where "main_pool 0 = Ret p" using main_pool_Ret by blast
  moreover have "reach (\<lambda>b. b = NewBus) bus_step (Subscribe ''orders.placed'' (\<lambda>_. True) 64 (NewBus :: OrderEvent Bus))"
    by (rule reach_step [where s = NewBus and e = "()"]) (simp_all add: reach_start bus_step.subscribe)
  ultimately show ?thesis
    by (simp add: order_bus_def demo_app_def main_cache_eq initial_app_def) (simp add: Subscribe_def NewBus_def new_handler_def)
qed


section \<open>Products\<close>

text \<open>The cache is well-formed and holds only products of the catalogue, each under its own ID.\<close>

definition sample_for :: "string \<Rightarrow> Product \<Rightarrow> bool" where
  "sample_for pid p \<longleftrightarrow> p \<in> set sampleProducts \<and> ID p = pid"

definition catalogue_ok :: "(string, Product) cache \<Rightarrow> bool" where
  "catalogue_ok c \<longleftrightarrow> cache_inv c \<and> list_all (\<lambda>e. sample_for (ekey e) (evalue e)) (lents (cache_abs c))"

lemma lents_do:
  "e \<in> set (lents (snd (lru_do x s))) \<Longrightarrow> e \<in> set (lents s) \<or> (\<exists>t. x = OpSet t (ekey e) (evalue e))"
  by (cases x) (auto simp: lru_without_def lru_entry_def find_Some_iff dest: in_set_butlastD subsetD [OF set_lru_sweep]
      split: option.splits if_splits)

lemma catalogue_do:
  assumes "catalogue_ok c" "\<And>t k v. x = OpSet t k v \<Longrightarrow> sample_for k v"
  shows "catalogue_ok (snd (cache_do x c))"
proof -
  have inv: "cache_inv c" using assms(1) by (simp add: catalogue_ok_def)
  have "cache_inv (snd (cache_do x c)) \<and> cache_abs (snd (cache_do x c)) = snd (lru_do x (cache_abs c))"
    using Get_correct [OF inv] Set_correct [OF inv] Delete_correct [OF inv] Clear_correct [OF inv] Janitor_correct [OF inv]
    by (cases x) (simp_all del: lru_do.simps)
  then show ?thesis using assms unfolding catalogue_ok_def list_all_iff by (metis lents_do)
qed

lemma catalogue_Get: "catalogue_ok c \<Longrightarrow> fst (cache_Get t k c) = Some p \<Longrightarrow> sample_for k p"
  using Get_correct [of c t k]
  by (auto simp: catalogue_ok_def list_all_iff find_Some_iff split: option.splits if_splits)

lemmas catalogue_ops = catalogue_do [where x = "OpGet t k" for t k, simplified]
  catalogue_do [where x = "OpSet t k v" for t k v, simplified] catalogue_do [where x = "OpJanitor clk" for clk, simplified]

text \<open>The invariants of the components together.\<close>

definition server_inv :: "'e app \<Rightarrow> bool" where
  "server_inv a \<longleftrightarrow> catalogue_ok (productCache a) \<and> cb_inv (dbBreaker a) \<and>
     reach (\<lambda>b. b = NewBus) bus_step (app_bus a) \<and> pool_reach (orderPool a)"

lemma server_inv_lift [simp]: "server_inv (snd (lift f a)) = server_inv a"
  by (simp add: server_inv_def)

lemma server_inv_upd:
  assumes "server_inv a"
  shows "cb_inv b \<Longrightarrow> server_inv (a\<lparr>dbBreaker := b\<rparr>)" "catalogue_ok c \<Longrightarrow> server_inv (a\<lparr>productCache := c\<rparr>)"
    "reach (\<lambda>b. b = NewBus) bus_step bu \<Longrightarrow> server_inv (a\<lparr>app_bus := bu\<rparr>)" "pool_reach p \<Longrightarrow> server_inv (a\<lparr>orderPool := p\<rparr>)"
    "server_inv (a\<lparr>app_env := e\<rparr>)" "server_inv (a\<lparr>ipLimiter := l\<rparr>)"
  using assms by (simp_all add: server_inv_def)

lemma server_invD: "server_inv a \<Longrightarrow> cb_inv (dbBreaker a)" "server_inv a \<Longrightarrow> catalogue_ok (productCache a)"
  "server_inv a \<Longrightarrow> reach (\<lambda>b. b = NewBus) bus_step (app_bus a)" "server_inv a \<Longrightarrow> pool_reach (orderPool a)"
  by (simp_all add: server_inv_def)

lemma inv_get_cached:
  assumes "server_inv a"
  shows "server_inv (snd (get_cached sv pid a))" "fst (get_cached sv pid a) = Some p \<Longrightarrow> sample_for pid p"
proof -
  let ?c = "cache_Get (fst (sv_clock sv (app_env a))) pid (productCache a)"
  have g: "get_cached sv pid a = (fst ?c, (snd (lift (sv_clock sv) a))\<lparr>productCache := snd ?c\<rparr>)"
    by (simp add: get_cached_def case_prod_beta)
  show "server_inv (snd (get_cached sv pid a))"
    unfolding g snd_conv by (rule server_inv_upd(2)) (use assms catalogue_ops(1) server_invD(2) in auto)
  show "fst (get_cached sv pid a) = Some p \<Longrightarrow> sample_for pid p"
    unfolding g fst_conv by (rule catalogue_Get [OF server_invD(2) [OF assms]])
qed

lemma inv_set_cached: "server_inv a \<Longrightarrow> p \<in> set sampleProducts \<Longrightarrow> server_inv (set_cached sv p a)"
  unfolding set_cached_def case_prod_beta Let_def
  by (rule server_inv_upd(2)) (auto simp: server_invD sample_for_def intro: catalogue_ops(2))

lemma inv_fetch:
  assumes "server_inv a"
  shows "server_inv (snd (fetch sv pid a)) \<and> snd (fst (fetch sv pid a)) \<noteq> None"
proof -
  let ?a1 = "snd (lift (sv_clock sv) a)"
  let ?al = "allow (fst (sv_clock sv (app_env a))) (fst (sv_clock sv (app_env ?a1))) (dbBreaker a)"
  have b: "cb_inv (snd ?al)" unfolding snd_allow using assms by (intro cb_inv_maybe server_invD)
  obtain er e' where er: "fetchProductFromDB (sv_Float64 sv) pid (app_env ?a1) = ((zero_product, Some er), e')"
    using fetch_error [of "sv_Float64 sv" pid "app_env ?a1"] by (elim exE conjE)
  show ?thesis
  proof (cases "fst ?al")
    case None
    then show ?thesis using assms b
      by (simp add: fetch_def execute_db_def Let_def case_prod_beta split: option.split prod.split)
        (simp add: lift_def er [simplified] case_prod_beta server_inv_upd cb_inv_record server_inv_def)
  next
    case (Some x)
    then show ?thesis using assms b
      by (cases ?al) (simp add: fetch_def execute_db_def Let_def case_prod_beta server_inv_upd)
  qed
qed

lemma inv_attempt:
  assumes "server_inv a"
  shows "server_inv (snd (product_attempt sv pid a)) \<and> (snd (fst (product_attempt sv pid a)) = None \<longrightarrow> sample_for pid (fst (fst (product_attempt sv pid a))))"
  using inv_get_cached [OF assms, of sv pid] inv_fetch [of "snd (get_cached sv pid a)" sv pid]
  by (cases "get_cached sv pid a") (auto simp: product_attempt_def split: option.split)

text \<open>An invariant of the attempts and of what happens between them is one of the retry loop.\<close>

lemma do_loop_inv:
  assumes "\<And>a. P a \<Longrightarrow> P (snd (fn a)) \<and> (snd (fst (fn a)) = None \<longrightarrow> Q (fst (fst (fn a))))"
    and "\<And>n er a. P a \<Longrightarrow> P (snd (between cfg n er a))"
  shows "P a \<Longrightarrow> P (snd (do_loop cfg ctx_Err fn zero ns lst a)) \<and>
    (snd (fst (do_loop cfg ctx_Err fn zero ns lst a)) = None \<longrightarrow> Q (fst (fst (do_loop cfg ctx_Err fn zero ns lst a))))"
proof (induction ns arbitrary: lst a)
  case (Cons n ns)
  obtain x er a1 where fn: "fn a = ((x, er), a1)" by (metis surj_pair)
  have a1: "P a1" "er = None \<Longrightarrow> Q x" using assms(1) [OF Cons.prems] fn by auto
  show ?case
  proof (cases er)
    case (Some e)
    obtain sl a2 where bt: "between cfg n e a1 = (sl, a2)" by fastforce
    have "P a2" using assms(2) [OF a1(1), of n e] bt by simp
    then show ?thesis using Cons.IH a1 Cons.prems Some by (auto simp: fn bt Let_def split: option.split)
  qed (use a1 Cons.prems in \<open>auto simp: fn\<close>)
qed simp

lemma inv_between: "server_inv a \<Longrightarrow> server_inv (snd (between (product_retry sv) n er a))"
  by (simp add: between_def product_retry_simps WithJitter_def Jitter_Next_def ExponentialBackoff_Next_def contextSleep_def
      Let_def case_prod_beta)

lemma inv_retry:
  assumes "server_inv a" "retry_Do_cfg (product_retry sv) (\<lambda>a. sv_ctx_Err sv (app_env a)) (product_attempt sv pid) zero_product a = ((p, er), a1)"
  shows "server_inv a1 \<and> (er = None \<longrightarrow> sample_for pid p)"
  using do_loop_inv [of server_inv "product_attempt sv pid" "sample_for pid" "product_retry sv", OF inv_attempt inv_between assms(1)]
    assms(2) unfolding retry_Do_cfg_def by (metis fst_conv snd_conv)

lemma inv_publish_order:
  assumes "server_inv a"
  shows "server_inv (snd (publish_order ev a))"
proof -
  let ?bp = "Publish ''orders.placed'' ev (app_bus a)" and ?i = "length (pubs (app_bus a))"
  have "reach (\<lambda>b. b = NewBus) bus_step ?bp"
    by (rule reach_step [OF server_invD(3) [OF assms], OF bus_step.publish])
  then have "reach (\<lambda>b. b = NewBus) bus_step (bus_publish_loop ?i (todo (pubs ?bp ! ?i)) ?bp)"
    by (rule bus_publish_loop_reach) (simp_all add: Publish_def)
  then show ?thesis using server_inv_upd(3) [OF assms] by (simp add: publish_order_def Let_def)
qed

section \<open>The server as a whole\<close>

text \<open>
  The states of the server: from the set-up, through requests to the gRPC service and the HTTP handlers,
  the scheduled job, the janitor of the cache, the health check, the rate limiter, steps of the bus
  and of the order pool, and changes of the environment, in any order.
\<close>

definition server_init :: "('c, 'e) services \<Rightarrow> 'e app \<Rightarrow> bool" where
  "server_init sv a \<longleftrightarrow> (\<exists>lib n e e1. main_setup sv lib n e = (Ret a, e1))"

inductive server_step :: "('c, 'e) services \<Rightarrow> 'e app \<Rightarrow> unit \<Rightarrow> 'e app \<Rightarrow> bool" for sv where
  rpc_get: "server_step sv a () (snd (GetProduct (productService sv) req a))"
| rpc_list: "server_step sv a () (snd (ListProducts (productService sv) lreq a))"
| rpc_order: "server_step sv a () (snd (PlaceOrder (productService sv) oreq a))"
| http_get: "server_step sv a () (snd (http_GetProduct sv r w a))"
| http_order: "server_step sv a () (snd (http_PlaceOrder sv r w a))"
| warmup: "server_step sv a () (snd (cache_warmup sv a))"
| janitor: "server_step sv a () (a\<lparr>productCache := deleteExpired clk (productCache a)\<rparr>)"
| health: "server_step sv a () (snd (check_circuit_breaker sv () a))"
| limit: "server_step sv a () (snd (allow_addr sv addr a))"
| bus: "bus_step (app_bus a) () b \<Longrightarrow> server_step sv a () (a\<lparr>app_bus := b\<rparr>)"
| pool: "pool_step (orderPool a) ev p \<Longrightarrow> server_step sv a () (a\<lparr>orderPool := p\<rparr>)"
| world: "server_step sv a () (a\<lparr>app_env := e\<rparr>)"

lemma inv_setup: "main_setup sv lib n e = (Ret a, e1) \<Longrightarrow> server_inv a"
proof -
  assume ms: "main_setup sv lib n e = (Ret a, e1)"
  obtain c p where cp: "main_cache = Ret c" "main_pool n = Ret p" using main_cache_eq main_pool_Ret by metis
  obtain p0 where p0: "pool_New 4 [WithQueueSize 256, WithOnError] n = Some p0" "p = pool_Start p0"
    using cp(2) by (auto simp: main_pool_def split: option.splits)
  have "pool_reach p0" by (rule reach_start) (use p0(1) in \<open>auto simp: pool_init_def\<close>)
  then have "pool_reach p" unfolding p0(2) by (rule pool_reach_step [OF _ pool_step.start])
  moreover have "catalogue_ok c"
    using cp(1) by (simp add: main_cache_eq) (auto simp: catalogue_ok_def cache_inv_def cache_abs_def entries_def)
  moreover have "reach (\<lambda>b. b = NewBus) bus_step (Subscribe ''orders.placed'' (\<lambda>_. True) 64 (NewBus :: OrderEvent Bus))"
    by (rule reach_step [where s = NewBus and e = "()"]) (simp_all add: reach_start bus_step.subscribe)
  ultimately have init: "server_inv (initial_app c p e')" for e'
    by (simp add: server_inv_def initial_app_def main_breaker_def cb_inv_New)
  have fill: "server_inv a0 \<Longrightarrow> set ps \<subseteq> set sampleProducts \<Longrightarrow> server_inv (fold (set_cached sv) ps a0)" for ps a0
    by (induction ps arbitrary: a0) (simp_all add: inv_set_cached)
  from ms obtain e' where "a = (fold (set_cached sv) sampleProducts (initial_app c p e'))\<lparr>app_env := e1\<rparr>"
    by (auto simp: main_setup_def bind_call_def cp Let_def split: prod.splits call.splits)
  then show ?thesis by (simp only:) (rule server_inv_upd(5) [OF fill [OF init subset_refl]])
qed

lemma inv_rpc_get:
  assumes "server_inv a"
  shows "server_inv (snd (svc_GetProduct sv req a)) \<and>
    ((\<exists>p. fst (svc_GetProduct sv req a) = Ret (Some p, None) \<and> sample_for (get_ID req) p) \<or>
     (\<exists>er. fst (svc_GetProduct sv req a) = Ret (None, Some er)))"
  using inv_get_cached [OF assms, of sv "get_ID req"] inv_fetch [of "snd (get_cached sv (get_ID req) a)" sv "get_ID req"]
  by (cases "get_cached sv (get_ID req) a"; cases "fetch sv (get_ID req) (snd (get_cached sv (get_ID req) a))")
    (auto simp: svc_GetProduct_def split: option.split)

lemma inv_http_get:
  assumes "server_inv a"
  shows "server_inv (snd (http_GetProduct sv r w a)) \<and>
    (fst (http_GetProduct sv r w a) \<in> {(Returned, http_Error ''product not found'' 404 w), (Returned, http_Error ''internal error'' 500 w)} \<or>
     (\<exists>p. sample_for (sv_PathValue sv r) p \<and>
        fst (http_GetProduct sv r w a) = (Returned, Write (sv_encode sv p) (SetHeader ''Content-Type'' ''application/json'' w))))"
proof -
  obtain p er a1 where *: "retry_Do_cfg (product_retry sv) (\<lambda>a. sv_ctx_Err sv (app_env a)) (product_attempt sv (sv_PathValue sv r)) zero_product a =
    ((p, er), a1)" by (metis surj_pair)
  show ?thesis using inv_retry [OF assms *] by (auto simp: http_GetProduct_def * split: option.split)
qed

lemma inv_orders:
  assumes "server_inv a"
  shows "server_inv (snd (svc_PlaceOrder sv req a))" "server_inv (snd (http_PlaceOrder sv r w a))"
proof -
  have p: "server_inv (snd (publish_order ev (snd (lift (sv_clock sv) a))))" for ev
    by (rule inv_publish_order) (simp add: assms)
  show "server_inv (snd (svc_PlaceOrder sv req a))" "server_inv (snd (http_PlaceOrder sv r w a))"
    using p assms by (simp_all add: svc_PlaceOrder_def http_PlaceOrder_def Let_def case_prod_beta split: call.split sum.split)
qed

interpretation server: step_invariant "server_init sv" "server_step sv" server_inv for sv
proof
  fix a assume "server_init sv a"
  then show "server_inv a" using inv_setup by (auto simp: server_init_def)
next
  fix a e a' assume a: "server_inv a" and "server_step sv a e a'"
  from this(2) show "server_inv a'"
  proof cases
    case warmup
    have "server_inv a0 \<Longrightarrow> set ps \<subseteq> set sampleProducts \<Longrightarrow> server_inv (fold (set_cached sv) ps a0)" for ps a0
      by (induction ps arbitrary: a0) (simp_all add: inv_set_cached)
    then show ?thesis using a warmup by (simp add: cache_warmup_def)
  next
    case (bus b)
    then show ?thesis using a by (auto intro: server_inv_upd(3) reach_step server_invD)
  next
    case (pool ev p)
    then show ?thesis using a by (auto intro: server_inv_upd(4) reach_step server_invD)
  next
    case health
    then show ?thesis using a
      by (auto simp: check_circuit_breaker_def case_prod_beta Let_def snd_State intro!: server_inv_upd(1) cb_inv_maybe server_invD)
  next
    case (http_get r w)
    then show ?thesis using inv_http_get [OF a, of sv r w] by simp
  next
    case limit
    then show ?thesis using a by (auto simp: allow_addr_def case_prod_beta Let_def intro!: server_inv_upd(6))
  qed (use a inv_rpc_get inv_orders in \<open>auto simp: productService_def svc_ListProducts_def Let_def
      intro!: server_inv_upd catalogue_ops(3) server_invD\<close>)
qed

text \<open>
  C13. In every state that the server reaches the invariants of its components hold together: the cache is
  well-formed, the breaker's counters are within their thresholds, and the bus and the pool are in
  reachable states of their own, so their guarantees apply. A product request through gRPC or HTTP
  never panics and never gives a wrong product: it ends with an error (404 or 500 over HTTP), or
  with the product of the catalogue that has the requested ID.
\<close>

theorem server_reachable:
  assumes "reach (server_init sv) (server_step sv) a"
  shows "cache_inv (productCache a) \<and> cb_inv (dbBreaker a) \<and> reach (\<lambda>b. b = NewBus) bus_step (app_bus a) \<and> pool_reach (orderPool a) \<and>
    ((\<exists>p. fst (GetProduct (productService sv) req a) = Ret (Some p, None) \<and> sample_for (get_ID req) p) \<or>
     (\<exists>er. fst (GetProduct (productService sv) req a) = Ret (None, Some er))) \<and>
    (fst (http_GetProduct sv r w a) \<in> {(Returned, http_Error ''product not found'' 404 w), (Returned, http_Error ''internal error'' 500 w)} \<or>
     (\<exists>p. sample_for (sv_PathValue sv r) p \<and>
        fst (http_GetProduct sv r w a) = (Returned, Write (sv_encode sv p) (SetHeader ''Content-Type'' ''application/json'' w))))"
proof -
  have a: "server_inv a" by (rule server.reach_inv [OF assms])
  then show ?thesis using inv_rpc_get [OF a, of sv req] inv_http_get [OF a, of sv r w]
    by (simp add: server_inv_def catalogue_ok_def productService_def)
qed

lemma demo_reach: "\<exists>a :: desc list app. reach (server_init demo_services) (server_step (demo_services :: (unit, desc list) services)) a \<and>
  fst (cache_Get 1 ''p2'' (productCache a)) = Some (sampleProducts ! 1)"
proof -
  let ?sv = "demo_services :: (unit, desc list) services"
  obtain a e1 where a: "main_setup ?sv mem_prom 0 [] = (Ret a, e1)"
    "list_all (\<lambda>p. fst (cache_Get 1 (ID p) (productCache a)) = Some p) sampleProducts"
    using main_setup_ok [OF mem_prom_ok, of ?sv 1 1 0 "[]"] by (auto simp: demo_services_def)
  have "server_init ?sv a" unfolding server_init_def using a(1) by blast
  then have "reach (server_init ?sv) (server_step ?sv) a" by (rule reach_start)
  then show ?thesis using a(2) by (auto simp: sampleProducts_def)
qed

theorem server_reachable_witness:
  "\<exists>a :: desc list app. cache_inv (productCache a) \<and>
     fst (GetProduct (productService (demo_services :: (unit, desc list) services)) \<lparr>get_ID = ''p2''\<rparr> a) = Ret (Some (sampleProducts ! 1), None)"
proof -
  obtain a :: "desc list app" where a: "reach (server_init (demo_services :: (unit, desc list) services)) (server_step demo_services) a"
    "fst (cache_Get 1 ''p2'' (productCache a)) = Some (sampleProducts ! 1)" using demo_reach by blast
  have "cache_inv (productCache a)" using server_reachable [OF a(1)] by blast
  moreover have "fst (get_cached (demo_services :: (unit, desc list) services) ''p2'' a) = Some (sampleProducts ! 1)"
    using a(2) by (simp add: get_cached_def case_prod_beta demo_services_def)
  then have "fst (GetProduct (productService (demo_services :: (unit, desc list) services)) \<lparr>get_ID = ''p2''\<rparr> a) = Ret (Some (sampleProducts ! 1), None)"
    by (cases "get_cached (demo_services :: (unit, desc list) services) ''p2'' a") (simp add: productService_def svc_GetProduct_def)
  ultimately show ?thesis by blast
qed

section \<open>The other parts\<close>

text \<open>\<open>execute_db\<close> is the breaker's \<open>Execute\<close>, for the readings that the clock gives.\<close>

lemma execute_db_Execute:
  "\<exists>t1 t1' t2. fst (execute_db sv (lift g) a) = fst (breaker_Execute t1 t1' t2 zero_product g (snd (sv_clock sv (app_env a))) (dbBreaker a)) \<and>
     dbBreaker (snd (execute_db sv (lift g) a)) =
       snd (snd (breaker_Execute t1 t1' t2 zero_product g (snd (sv_clock sv (app_env a))) (dbBreaker a)))"
proof -
  let ?e = "snd (sv_clock sv (app_env a))"
  let ?t1 = "fst (sv_clock sv (app_env a))" and ?t1' = "fst (sv_clock sv ?e)" and ?t2 = "fst (sv_clock sv (snd (g ?e)))"
  obtain o' b where al: "allow ?t1 ?t1' (dbBreaker a) = (o', b)" by fastforce
  show ?thesis
    by (rule exI [of _ ?t1], rule exI [of _ ?t1'], rule exI [of _ ?t2], cases o')
      (simp_all add: execute_db_def breaker_Execute_def Let_def case_prod_beta al)
qed

text \<open>A page of the catalogue: its first products. The page token is not used.\<close>

lemma svc_ListProducts_page:
  "svc_ListProducts req a = (Ret (Some \<lparr>Products = (if PageSize req \<le> 0 then sampleProducts else take (nat (PageSize req)) sampleProducts),
     NextPageToken = []\<rparr>, None), a)"
proof -
  have first: "map (\<lambda>i. xs ! i) [0..<n] = take n xs" if "n \<le> length xs" for n and xs :: "Product list"
    using that by (simp add: take_map [symmetric] map_nth list_eq_iff_nth_eq)
  show ?thesis by (auto simp: svc_ListProducts_def Let_def first nat_le_iff)
qed

lemma grpc_server_unary:
  "unaryInterceptors (grpc_server sl ob) = unaryInterceptors (observed sl ob)" "enableReflection (grpc_server sl ob)"
  by (simp_all add: grpc_server_def observed_def NewServer_def WithReflection_def WithUnaryInterceptors_def WithStreamInterceptors_def)

text \<open>
  The shutdown: the order pool is stopped first, while both servers still accept orders for it; an
  error of the HTTP server does not keep the others from stopping.
\<close>

lemma server_shutdown:
  "Shutdown wt ctx (shutdown_group lc) w =
     (let w1 = lc_pool_Stop lc (lc_log lc ''draining order pool'' w);
          (e, w2) = lc_http_Shutdown lc (wt ctx (15 * Second)) (lc_log lc ''shutting down HTTP server'' w1);
          w3 = lc_GracefulStop lc (lc_log lc ''shutting down gRPC server'' w2);
          w4 = lc_sched_Stop lc (lc_cancel lc (lc_log lc ''stopping scheduler'' w3))
      in (case e of None \<Rightarrow> None | Some er \<Rightarrow> Some (Join [hook_error ''http-server'' er]), w4))"
  by (simp add: Shutdown_def shutdown_group_def Register_def graceful_New_def graceful_WithTimeout_def errors_Join_def Let_def
      split: prod.split option.split)

end
