(* ===== verification/Routes.thy ===== *)
theory Routes
  imports Sched Server
begin

text \<open>
  The HTTP side of the example service, \<open>examples/server/main.go\<close>, as a whole: the multiplexer with its
  patterns, the handlers of the metrics and health endpoints, the middleware around them, and the
  scheduler with its jobs. What \<open>net/http\<close> does for the patterns that the server registers is
  written out; paths are those without characters that need escaping.
\<close>

section \<open>Patterns\<close>

datatype seg = SLit string | SWild string

type_synonym pattern = "string \<times> seg list"

fun match_segs :: "seg list \<Rightarrow> string list \<Rightarrow> bool" where
  "match_segs [] [] = True"
| "match_segs (SLit s # ps) (x # xs) = (x = s \<and> match_segs ps xs)"
| "match_segs (SWild n # ps) (x # xs) = (x \<noteq> [] \<and> match_segs ps xs)"
| "match_segs _ _ = False"

text \<open>A pattern for GET also matches HEAD.\<close>

definition match_method :: "string \<Rightarrow> string \<Rightarrow> bool" where
  "match_method pm m \<longleftrightarrow> m = pm \<or> pm = ''GET'' \<and> m = ''HEAD''"

text \<open>\<open>path.Clean\<close> of a rooted path, on its elements; \<open>cleanPath\<close> keeps a trailing slash.\<close>

fun clean_elems :: "string list \<Rightarrow> string list \<Rightarrow> string list" where
  "clean_elems acc [] = rev acc"
| "clean_elems acc (x # xs) =
     (if x = [] \<or> x = ''.'' then clean_elems acc xs
      else if x = ''..'' then clean_elems (tl acc) xs
      else clean_elems (x # acc) xs)"

definition path_elems :: "string \<Rightarrow> string list" where
  "path_elems p = (case Split (CHR ''/'') p of [] \<Rightarrow> [] | x # xs \<Rightarrow> if x = [] then xs else x # xs)"

definition cleanPath :: "string \<Rightarrow> string" where
  "cleanPath p =
     (let es = clean_elems [] (path_elems p); np = concat (map (\<lambda>e. ''/'' @ e) es) in
      if es = [] then ''/'' else if last p = CHR ''/'' then np @ ''/'' else np)"

section \<open>The multiplexer\<close>

text \<open>
  A request with a path that is not clean is redirected (\<open>redirect\<close> is what \<open>http.Redirect\<close> writes).
  Otherwise the handler of the pattern that matches runs; if patterns match with another method the
  answer is 405, and else 404.
\<close>

definition request_path :: "'c request \<Rightarrow> string" where
  "request_path r = (if rmethod r = ''CONNECT'' then rpath r else cleanPath (rpath r))"

definition path_routes :: "(pattern \<times> 'h) list \<Rightarrow> string \<Rightarrow> (pattern \<times> 'h) list" where
  "path_routes routes p = filter (\<lambda>((m, ss), h). match_segs ss (path_elems p)) routes"

definition method_route :: "(pattern \<times> 'h) list \<Rightarrow> string \<Rightarrow> (pattern \<times> 'h) option" where
  "method_route routes m = find (\<lambda>((pm, ss), h). match_method pm m) routes"

definition allowed_methods :: "(pattern \<times> 'h) list \<Rightarrow> string list" where
  "allowed_methods routes = concat (map (\<lambda>((m, ss), h). if m = ''GET'' then [''GET'', ''HEAD''] else [m]) routes)"

definition serve_mux :: "(string \<Rightarrow> 'c request \<Rightarrow> writer \<Rightarrow> writer) \<Rightarrow> (pattern \<times> ('c, 'w) handler) list \<Rightarrow> ('c, 'w) handler" where
  "serve_mux redirect routes r w s =
     (let p = request_path r; here = path_routes routes p in
      if p \<noteq> rpath r then ((Returned, redirect p r w), s)
      else case method_route here (rmethod r) of
        Some (_, h) \<Rightarrow> h r w s
      | None \<Rightarrow>
          if here \<noteq> [] then
            ((Returned, http_Error ''Method Not Allowed'' 405
               (SetHeader ''Allow'' (intersperse_concat '', '' (allowed_methods here)) w)), s)
          else ((Returned, http_Error ''404 page not found'' 404 w), s))"

text \<open>\<open>r.PathValue(name)\<close> after the match with a pattern.\<close>

fun path_value :: "string \<Rightarrow> seg list \<Rightarrow> string list \<Rightarrow> string" where
  "path_value n (SWild m # ps) (x # xs) = (if m = n then x else path_value n ps xs)"
| "path_value n (SLit s # ps) (x # xs) = path_value n ps xs"
| "path_value n _ _ = []"

section \<open>The endpoints\<close>

text \<open>
  What the handlers use besides the services: the JSON text of a report, which of the two health
  checks is first, the Prometheus handler on the collected metrics, and \<open>http.Redirect\<close>.
\<close>

record ('c, 'e) endpoints =
  ep_report :: "Report \<Rightarrow> string"
  ep_swap :: "'e \<Rightarrow> bool"
  ep_promhttp :: "const_metric list \<Rightarrow> writer \<Rightarrow> 'e \<Rightarrow> (outcome \<times> writer) \<times> 'e"
  ep_redirect :: "string \<Rightarrow> 'c request \<Rightarrow> writer \<Rightarrow> writer"

definition write_response :: "response \<Rightarrow> writer \<Rightarrow> writer" where
  "write_response rs w =
     (let w1 = SetHeader ''Content-Type'' (contentType rs) w;
          w2 = (if code rs = 503 then WriteHeader 503 w1 else w1)
      in Write (body rs) w2)"

text \<open>The duration in the report ends after the checks, with the next reading of the clock.\<close>

definition ready_endpoint :: "('c, 'e) services \<Rightarrow> ('c, 'e) endpoints \<Rightarrow> ('c, 'e app) handler" where
  "ready_endpoint sv ep r w a =
     (let (start, a1) = lift (sv_clock sv) a;
          order = (if ep_swap ep (app_env a1) then [1, 0] else [0, 1]);
          a2 = snd (Check (\<lambda>c d. c) order start start (rcontext r) (healthGroup sv) a1);
          finish = fst (lift (sv_clock sv) a2);
          (rs, a3) = ReadyHandler (ep_report ep) (\<lambda>c d. c) order start finish (rcontext r) (healthGroup sv) a1
      in ((Returned, write_response rs w), snd (lift (sv_clock sv) a3)))"

definition live_endpoint :: "('c, 'e) services \<Rightarrow> ('c, 'e) endpoints \<Rightarrow> ('c, 'e app) handler" where
  "live_endpoint sv ep r w a =
     (let (start, a1) = lift (sv_clock sv) a;
          (finish, a2) = lift (sv_clock sv) a1;
          (rs, a3) = LiveHandler (ep_report ep) (\<lambda>c d. c) [] start finish (rcontext r) (healthGroup sv) a2
      in ((Returned, write_response rs w), a3))"

definition metrics_endpoint :: "('c, 'e) services \<Rightarrow> ('c, 'e) endpoints \<Rightarrow> ('c, 'e app) handler" where
  "metrics_endpoint sv ep r w a =
     (let (ms, a1) = cache_Collect (sv_fpu sv) (NewCacheCollector ''product_cache'' cache_snapshot) a;
          (ms', a2) = pool_Collect (sv_fpu sv) (NewPoolCollector ''order_pool'' pool_snapshot) a1;
          (res, e) = ep_promhttp ep (ms @ ms') w (app_env a2)
      in (res, a2\<lparr>app_env := e\<rparr>))"

definition product_pattern :: "seg list" where
  "product_pattern = [SLit ''products'', SWild ''id'']"

definition routed :: "('c, 'e) services \<Rightarrow> ('c, 'e) services" where
  "routed sv = sv\<lparr>sv_PathValue := (\<lambda>r. path_value ''id'' product_pattern (path_elems (rpath r)))\<rparr>"

definition server_routes :: "('c, 'e) services \<Rightarrow> ('c, 'e) endpoints \<Rightarrow> (pattern \<times> ('c, 'e app) handler) list" where
  "server_routes sv ep = [
     ((''GET'', product_pattern), http_GetProduct (routed sv)),
     ((''POST'', [SLit ''orders'']), http_PlaceOrder sv),
     ((''GET'', [SLit ''metrics'']), metrics_endpoint sv ep),
     ((''GET'', [SLit ''healthz'', SLit ''ready'']), ready_endpoint sv ep),
     ((''GET'', [SLit ''healthz'', SLit ''live'']), live_endpoint sv ep)]"

text \<open>The request ID source, the loggers and the instruments act on the environment.\<close>

definition env_http :: "'e http_env \<Rightarrow> 'e app http_env" where
  "env_http he = \<lparr>he_newID = lift (he_newID he),
     he_log = (\<lambda>l a. a\<lparr>app_env := he_log he l (app_env a)\<rparr>),
     he_log_panic = (\<lambda>p a. a\<lparr>app_env := he_log_panic he p (app_env a)\<rparr>),
     he_upd = (\<lambda>f a. a\<lparr>app_env := he_upd he f (app_env a)\<rparr>)\<rparr>"

definition http_server :: "('c, 'e) services \<Rightarrow> ('c, 'e) endpoints \<Rightarrow> 'e http_env \<Rightarrow> ('c, 'e app) handler" where
  "http_server sv ep he = server_handler sv (env_http he) (serve_mux (ep_redirect ep) (server_routes sv ep))"

section \<open>The scheduler\<close>

definition log_stats :: "(string \<Rightarrow> 64 word \<Rightarrow> 64 word \<Rightarrow> int \<Rightarrow> 'e \<Rightarrow> 'e) \<Rightarrow> ('e app, err option) action" where
  "log_stats log_info a =
     (let s = cache_Stats (productCache a)
      in (None, a\<lparr>app_env := log_info ''cache stats'' (Hits s) (Misses s) (Len s) (app_env a)\<rparr>))"

definition main_scheduler :: "('c, 'e) services \<Rightarrow> (string \<Rightarrow> 64 word \<Rightarrow> 64 word \<Rightarrow> int \<Rightarrow> 'e \<Rightarrow> 'e) \<Rightarrow> 'h \<Rightarrow> 'l \<Rightarrow> 'l
    \<Rightarrow> (('e app, err option) action, 'h, 'l) Scheduler" where
  "main_scheduler sv log_info on_error slogDefault lg =
     sched_Every (60 * Second) ''log-stats'' (log_stats log_info)
       (sched_Every (30 * Second) ''cache-warmup'' (cache_warmup sv)
         (sched_New slogDefault 2 [sched_WithLogger lg, sched_WithOnError on_error]))"

section \<open>What the middleware lets through\<close>

text \<open>Two states that differ in the environment only.\<close>

definition only_env :: "'e app \<Rightarrow> 'e app \<Rightarrow> bool" where
  "only_env a a' \<longleftrightarrow> (\<exists>e. a' = a\<lparr>app_env := e\<rparr>)"

lemma only_env_refl [simp]: "only_env a a"
  by (auto simp: only_env_def intro: exI [of _ "app_env a"])

lemma only_env_trans [trans]: "only_env a b \<Longrightarrow> only_env b c \<Longrightarrow> only_env a c"
  by (auto simp: only_env_def)

lemma only_env_lift [simp]: "only_env a (snd (lift f a))"
  by (auto simp: only_env_def lift_def case_prod_beta)

lemma only_env_upd [simp]: "only_env a (a\<lparr>app_env := e\<rparr>)"
  by (auto simp: only_env_def)

lemma only_env_inv: "only_env a a' \<Longrightarrow> server_inv a \<Longrightarrow> server_inv a'"
  by (auto simp: only_env_def server_inv_upd(5))

text \<open>The writer that a middleware gives to the next handler: nothing was sent on the way.\<close>

definition enters :: "writer \<Rightarrow> writer \<Rightarrow> bool" where
  "enters w w1 \<longleftrightarrow> (Http.fresh w \<longrightarrow> Http.fresh w1) \<and> wbody (base w1) = wbody (base w)"

lemma enters_simps [simp]: "enters w w" "enters w (wrapResponseWriter w)" "enters w (SetHeader k v w)"
  by (auto simp: enters_def wrapResponseWriter_def SetHeader_def Http.fresh_def)

text \<open>
  A middleware that calls the next handler once, with the same request up to its context, changes the
  environment only, and passes on what the handler wrote.
\<close>

definition transparent :: "('c, 'e app) Middleware \<Rightarrow> bool" where
  "transparent M \<longleftrightarrow> (\<forall>nxt r w a. \<exists>c w1 a1. only_env a a1 \<and> enters w w1 \<and>
     (let out = nxt (r\<lparr>rcontext := c\<rparr>) w1 a1; res = M nxt r w a in
      only_env (snd out) (snd res) \<and>
      (fst (fst out) = Returned \<longrightarrow> fst (fst res) = Returned \<and> base (snd (fst res)) = base (snd (fst out)))))"

lemma transparentI:
  assumes "\<And>r a. only_env a (A r a)" "\<And>r w a. enters w (W r w a)"
    and "\<And>nxt r w a. only_env (snd (nxt (r\<lparr>rcontext := C r a\<rparr>) (W r w a) (A r a))) (snd (M nxt r w a))"
    and "\<And>nxt r w a. fst (fst (nxt (r\<lparr>rcontext := C r a\<rparr>) (W r w a) (A r a))) = Returned \<Longrightarrow>
      fst (fst (M nxt r w a)) = Returned \<and> base (snd (fst (M nxt r w a))) = base (snd (fst (nxt (r\<lparr>rcontext := C r a\<rparr>) (W r w a) (A r a))))"
  shows "transparent M"
  unfolding transparent_def Let_def using assms by blast

text \<open>The ID of a request, from its header or from the source.\<close>

definition id_of :: "('e, string) action \<Rightarrow> 'c request \<Rightarrow> ('e app, string) action" where
  "id_of g r a = (if rheader r RequestIDHeader = [] then lift g a else (rheader r RequestIDHeader, a))"

lemma transparent_RequestID: "transparent (RequestID (lift g))"
  by (rule transparentI [where A = "\<lambda>r a. snd (id_of g r a)" and W = "\<lambda>r w a. SetHeader RequestIDHeader (fst (id_of g r a)) w"
        and C = "\<lambda>r a. (rcontext r)\<lparr>ctx_id := Some (fst (id_of g r a))\<rparr>"])
    (simp_all add: RequestID_def id_of_def Let_def case_prod_beta)

lemma transparent_Timeout: "transparent (Timeout (lift g) d)"
  by (rule transparentI [where A = "\<lambda>r a. snd (lift g a)" and W = "\<lambda>r w a. w"
        and C = "\<lambda>r a. with_deadline (time_Add (fst (lift g a)) d) (rcontext r)"])
    (simp_all add: Timeout_def Let_def case_prod_beta del: lift_simps)

lemma transparent_Recovery: "transparent (Recovery (\<lambda>p a. a\<lparr>app_env := l p (app_env a)\<rparr>))"
  by (rule transparentI [where A = "\<lambda>r a. a" and W = "\<lambda>r w a. w" and C = "\<lambda>r a. rcontext r"])
    (auto simp: Recovery_def split: prod.split outcome.split)

lemma base_unwrap [simp]: "base (unwrap w) = base w"
  by (simp add: unwrap_def)

lemma transparent_Logging: "transparent (Logging (lift g) (\<lambda>l a. a\<lparr>app_env := lg l (app_env a)\<rparr>))"
  by (rule transparentI [where A = "\<lambda>r a. snd (lift g a)" and W = "\<lambda>r w a. wrapResponseWriter w" and C = "\<lambda>r a. rcontext r"])
    (auto simp: Logging_def Let_def case_prod_beta intro: only_env_trans [OF only_env_lift only_env_upd] split: prod.split outcome.split)

lemma only_env_iff: "only_env a a' \<longleftrightarrow> a' = a\<lparr>app_env := app_env a'\<rparr>"
  by (auto simp: only_env_def)

lemma transparent_metrics: "transparent (metrics_Middleware (lift g) (\<lambda>f a. a\<lparr>app_env := up f (app_env a)\<rparr>))"
  by (rule transparentI [where A = "\<lambda>r a. snd (lift g (a\<lparr>app_env := up (requestsInFlight_update (bump (rmethod r) 1)) (app_env a)\<rparr>))"
        and W = "\<lambda>r w a. wrapResponseWriter w" and C = "\<lambda>r a. rcontext r"])
    (auto simp: metrics_Middleware_def Let_def case_prod_beta lift_def only_env_iff split: prod.split outcome.split)

lemma transparentD:
  assumes "transparent M"
  shows "\<exists>c w1 a1. only_env a a1 \<and> enters w w1 \<and> only_env (snd (nxt (r\<lparr>rcontext := c\<rparr>) w1 a1)) (snd (M nxt r w a)) \<and>
    (fst (fst (nxt (r\<lparr>rcontext := c\<rparr>) w1 a1)) = Returned \<longrightarrow> fst (fst (M nxt r w a)) = Returned \<and>
       base (snd (fst (M nxt r w a))) = base (snd (fst (nxt (r\<lparr>rcontext := c\<rparr>) w1 a1))))"
  by (rule spec [OF spec [OF spec [OF spec [OF assms [unfolded transparent_def Let_def], of nxt], of r], of w], of a])

lemma transparent_comp:
  assumes "transparent M" "transparent N"
  shows "transparent (\<lambda>nxt. M (N nxt))"
  unfolding transparent_def Let_def
proof (intro allI)
  fix nxt :: "('a, 'b app) handler" and r w a
  obtain c w1 a1 where 1: "only_env a a1" "enters w w1"
    "only_env (snd (N nxt (r\<lparr>rcontext := c\<rparr>) w1 a1)) (snd (M (N nxt) r w a))"
    "fst (fst (N nxt (r\<lparr>rcontext := c\<rparr>) w1 a1)) = Returned \<longrightarrow> fst (fst (M (N nxt) r w a)) = Returned \<and>
       base (snd (fst (M (N nxt) r w a))) = base (snd (fst (N nxt (r\<lparr>rcontext := c\<rparr>) w1 a1)))"
    using transparentD [OF assms(1), of a w "N nxt" r] by (elim exE conjE)
  let ?N = "N nxt (r\<lparr>rcontext := c\<rparr>) w1 a1"
  obtain c' w2 a2 where 2: "only_env a1 a2" "enters w1 w2"
    "only_env (snd (nxt (r\<lparr>rcontext := c, rcontext := c'\<rparr>) w2 a2)) (snd ?N)"
    "fst (fst (nxt (r\<lparr>rcontext := c, rcontext := c'\<rparr>) w2 a2)) = Returned \<longrightarrow> fst (fst ?N) = Returned \<and>
       base (snd (fst ?N)) = base (snd (fst (nxt (r\<lparr>rcontext := c, rcontext := c'\<rparr>) w2 a2)))"
    using transparentD [OF assms(2), of a1 w1 nxt "r\<lparr>rcontext := c\<rparr>"] by (elim exE conjE)
  have r: "r\<lparr>rcontext := c, rcontext := c'\<rparr> = r\<lparr>rcontext := c'\<rparr>" by simp
  show "\<exists>c w1 a1. only_env a a1 \<and> enters w w1 \<and>
     only_env (snd (nxt (r\<lparr>rcontext := c\<rparr>) w1 a1)) (snd (M (N nxt) r w a)) \<and>
     (fst (fst (nxt (r\<lparr>rcontext := c\<rparr>) w1 a1)) = Returned \<longrightarrow> fst (fst (M (N nxt) r w a)) = Returned \<and>
        base (snd (fst (M (N nxt) r w a))) = base (snd (fst (nxt (r\<lparr>rcontext := c\<rparr>) w1 a1))))"
  proof (intro exI conjI impI)
    show "only_env a a2" by (rule only_env_trans [OF 1(1) 2(1)])
    show "enters w w2" using 1(2) 2(2) by (simp add: enters_def)
    show "only_env (snd (nxt (r\<lparr>rcontext := c'\<rparr>) w2 a2)) (snd (M (N nxt) r w a))"
      by (rule only_env_trans [OF 2(3) [unfolded r] 1(3)])
    assume o: "fst (fst (nxt (r\<lparr>rcontext := c'\<rparr>) w2 a2)) = Returned"
    note N = mp [OF 2(4) [unfolded r] o]
    show "fst (fst (M (N nxt) r w a)) = Returned" by (rule conjunct1 [OF mp [OF 1(4) conjunct1 [OF N]]])
    show "base (snd (fst (M (N nxt) r w a))) = base (snd (fst (nxt (r\<lparr>rcontext := c'\<rparr>) w2 a2)))"
      by (rule trans [OF conjunct2 [OF mp [OF 1(4) conjunct1 [OF N]]] conjunct2 [OF N]])
  qed
qed

lemma transparent_id: "transparent (\<lambda>nxt. nxt)"
  by (rule transparentI [where A = "\<lambda>r a. a" and W = "\<lambda>r w a. w" and C = "\<lambda>r a. rcontext r"]) simp_all

lemma transparent_Chain: "list_all transparent ms \<Longrightarrow> transparent (http_Chain ms)"
proof (induction ms)
  case Nil
  have "http_Chain [] = (\<lambda>nxt. nxt :: ('a, 'b app) handler)" by (rule ext) (rule http_Chain_Nil)
  then show ?case using transparent_id by (simp only:)
next
  case (Cons m ms)
  have "http_Chain (m # ms) = (\<lambda>nxt. m (http_Chain ms nxt))" by (rule ext) (rule http_Chain_Cons)
  moreover have "transparent m" "transparent (http_Chain ms)" using Cons by simp_all
  ultimately show ?case using transparent_comp [of m "http_Chain ms"] by (simp only:)
qed

section \<open>The handlers keep the server's invariant\<close>

definition keeps :: "('c, 'e app) handler \<Rightarrow> bool" where
  "keeps h \<longleftrightarrow> (\<forall>r w a. server_inv a \<longrightarrow> server_inv (snd (h r w a)))"

lemma find_mem: "find P xs = Some x \<Longrightarrow> x \<in> set xs"
  by (induction xs) (auto split: if_splits)

lemma serve_mux_cases:
  "(\<exists>w'. serve_mux redirect routes r w s = ((Returned, w'), s)) \<or> (\<exists>p h. (p, h) \<in> set routes \<and> serve_mux redirect routes r w s = h r w s)"
proof (cases "request_path r = rpath r")
  case clean: True
  let ?here = "path_routes routes (request_path r)"
  show ?thesis
  proof (cases "method_route ?here (rmethod r)")
    case None
    with clean show ?thesis by (simp add: serve_mux_def Let_def)
  next
    case (Some x)
    then have "x \<in> set routes" using find_mem [of _ ?here x] by (auto simp: method_route_def path_routes_def)
    moreover have "serve_mux redirect routes r w s = snd x r w s"
      using clean Some by (simp add: serve_mux_def Let_def case_prod_beta)
    ultimately show ?thesis by (metis prod.collapse)
  qed
qed (simp add: serve_mux_def Let_def)

lemma keeps_mux:
  assumes "\<And>p h. (p, h) \<in> set routes \<Longrightarrow> keeps h"
  shows "keeps (serve_mux redirect routes)"
  unfolding keeps_def
proof (intro allI impI)
  fix r w and a :: "'b app" assume a: "server_inv a"
  consider w' where "serve_mux redirect routes r w a = ((Returned, w'), a)"
    | p h where "(p, h) \<in> set routes" "serve_mux redirect routes r w a = h r w a"
    using serve_mux_cases [of redirect routes r w a] by blast
  then show "server_inv (snd (serve_mux redirect routes r w a))"
  proof cases
    case (2 p h)
    then show ?thesis using assms [OF 2(1)] a unfolding keeps_def by simp
  qed (use a in simp)
qed

lemma inv_check_one:
  assumes "i < 2" "server_inv a"
  shows "server_inv (snd (check_one wt ctx (healthGroup sv) i (rs, a)))"
proof -
  have "i = 0 \<or> i = 1" using assms(1) by auto
  then show ?thesis using assms(2)
    by (auto simp: check_one_def healthGroup_def health_Register_def health_New_def health_WithTimeout_def check_order_pool_def
        check_circuit_breaker_def Let_def case_prod_beta snd_State intro!: server_inv_upd(1) cb_inv_maybe server_invD)
qed

lemma inv_checks:
  assumes "set order \<subseteq> {0, 1}" "server_inv a"
  shows "server_inv (snd (fold (check_one wt ctx (healthGroup sv)) order (rs, a)))"
  using assms
proof (induction order arbitrary: rs a)
  case (Cons i order)
  have "server_inv (snd (check_one wt ctx (healthGroup sv) i (rs, a)))" by (rule inv_check_one) (use Cons.prems in auto)
  then show ?case using Cons.IH Cons.prems(1) by (cases "check_one wt ctx (healthGroup sv) i (rs, a)") simp
qed simp

lemma snd_handler: "snd (health_handler enc wt order t t' ctx g a) = snd (fold (check_one wt ctx g) order (replicate (length (checks g)) zero_result, a))"
  by (simp add: health_handler_def Check_def Let_def case_prod_beta)

lemma keeps_ready: "keeps (ready_endpoint sv ep)"
  by (auto simp: keeps_def ready_endpoint_def ReadyHandler_def Let_def case_prod_beta snd_handler intro!: inv_checks
      simp del: fold.simps)

lemma keeps_live: "keeps (live_endpoint sv ep)"
  by (simp add: keeps_def live_endpoint_def LiveHandler_def Let_def case_prod_beta snd_handler)

lemma keeps_metrics: "keeps (metrics_endpoint sv ep)"
  by (simp add: keeps_def metrics_endpoint_def cache_Collect_def pool_Collect_def NewCacheCollector_def NewPoolCollector_def
      cache_snapshot_def pool_snapshot_def Let_def case_prod_beta server_inv_upd(5))

lemma keeps_product: "keeps (http_GetProduct sv)"
  using inv_http_get unfolding keeps_def by blast

lemma keeps_order: "keeps (http_PlaceOrder sv)"
  using inv_orders(2) unfolding keeps_def by blast

lemma keeps_routes: "(p, h) \<in> set (server_routes sv ep) \<Longrightarrow> keeps h"
  unfolding server_routes_def by (auto simp: keeps_product keeps_order keeps_ready keeps_live keeps_metrics)

text \<open>
  No path matches two patterns of the server: the registration does not panic for a conflict, and the
  order of the patterns does not matter.
\<close>

lemma match_segs_Nil [simp]: "match_segs [] xs \<longleftrightarrow> xs = []"
  by (cases xs) simp_all

lemma match_segs_Cons: "match_segs (g # gs) xs \<longleftrightarrow>
    (\<exists>y ys. xs = y # ys \<and> (case g of SLit l \<Rightarrow> y = l | SWild n \<Rightarrow> y \<noteq> []) \<and> match_segs gs ys)"
  by (cases xs; cases g) simp_all

lemma server_routes_disjoint: "length (path_routes (server_routes sv ep) p) \<le> 1"
  by (auto simp: path_routes_def server_routes_def product_pattern_def match_segs_Cons)

text \<open>The jobs of the scheduler do not fail, and keep the invariant.\<close>

lemma main_scheduler_jobs:
  assumes "server_inv a" "sc \<in> set (schedules (main_scheduler sv l h d lg))"
  shows "fst (Fn (job sc) a) = None \<and> server_inv (snd (Fn (job sc) a))"
proof -
  have "server_inv (snd (cache_warmup sv a))"
    by (rule server.inv_step [OF server_step.warmup assms(1)])
  moreover have "server_inv (snd (log_stats l a))" by (simp add: log_stats_def Let_def server_inv_upd(5) assms(1))
  ultimately show ?thesis using assms(2)
    by (auto simp: main_scheduler_def sched_Every_def sched_New_def log_stats_def cache_warmup_def Let_def)
qed

section \<open>A request through the whole server\<close>

lemma Split_sep: "c \<notin> set xs \<Longrightarrow> Split c (xs @ c # ys) = xs # Split c ys"
  by (induction xs) auto

lemma Split_none: "c \<notin> set xs \<Longrightarrow> Split c xs = [xs]"
  by (induction xs) auto

definition product_request :: "string \<Rightarrow> 'c request \<Rightarrow> bool" where
  "product_request pid r \<longleftrightarrow> rmethod r = ''GET'' \<and> rpath r = ''/products/'' @ pid \<and> CHR ''/'' \<notin> set pid \<and>
     pid \<noteq> [] \<and> pid \<noteq> ''.'' \<and> pid \<noteq> ''..''"

lemma product_path:
  assumes "product_request pid r"
  shows "path_elems (rpath r) = [''products'', pid]" "request_path r = rpath r"
proof -
  have p: "rpath r = ''/products/'' @ pid" "CHR ''/'' \<notin> set pid" "pid \<noteq> []" "pid \<noteq> ''.''" "pid \<noteq> ''..''" "rmethod r = ''GET''"
    using assms by (simp_all add: product_request_def)
  have "Split (CHR ''/'') (rpath r) = [[], ''products'', pid]"
    using Split_sep [of "CHR ''/''" "''products''" pid] p by (simp add: Split_none)
  then show e: "path_elems (rpath r) = [''products'', pid]" by (simp add: path_elems_def)
  have "last (rpath r) = last pid" using p by simp
  then have "last (rpath r) \<noteq> CHR ''/''" using p(2,3) last_in_set by metis
  moreover have "clean_elems [] (path_elems (rpath r)) = [''products'', pid]" unfolding e using p by simp
  ultimately show "request_path r = rpath r" using p(1,6) by (simp add: request_path_def cleanPath_def Let_def del: append.simps)
qed

lemma mux_product:
  assumes "product_request pid r"
  shows "serve_mux redirect (server_routes sv ep) r w a = http_GetProduct (routed sv) r w a" "sv_PathValue (routed sv) r = pid"
proof -
  have "rmethod r = ''GET''" "pid \<noteq> []" using assms by (simp_all add: product_request_def)
  then show "serve_mux redirect (server_routes sv ep) r w a = http_GetProduct (routed sv) r w a"
    using product_path [OF assms]
    by (simp add: serve_mux_def Let_def path_routes_def method_route_def match_method_def server_routes_def product_pattern_def)
  show "sv_PathValue (routed sv) r = pid"
    by (simp add: routed_def product_path(1) [OF assms] product_pattern_def)
qed

text \<open>The chain of the server around the limiter and the multiplexer.\<close>

definition outer :: "('c, 'e) services \<Rightarrow> 'e http_env \<Rightarrow> ('c, 'e app) Middleware list" where
  "outer sv he = [RequestID (he_newID (env_http he)), Logging (lift (sv_clock sv)) (he_log (env_http he)),
     Recovery (he_log_panic (env_http he)), metrics_Middleware (lift (sv_clock sv)) (he_upd (env_http he)),
     Timeout (lift (sv_clock sv)) (10 * Second)]"

definition limited :: "('c, 'e) services \<Rightarrow> ('c, 'e) endpoints \<Rightarrow> ('c, 'e app) handler" where
  "limited sv ep = RateLimit (\<lambda>r. allow_addr sv (sv_RemoteAddr sv r)) (serve_mux (ep_redirect ep) (server_routes sv ep))"

lemma http_server_chain: "http_server sv ep he = http_Chain (outer sv he) (limited sv ep)"
  by (simp add: http_server_def server_handler_def Apply_def outer_def limited_def http_Chain_Cons http_Chain_Nil)

lemma transparent_outer: "transparent (http_Chain (outer sv he))"
  by (rule transparent_Chain)
    (simp add: outer_def env_http_def transparent_RequestID transparent_Logging transparent_Recovery transparent_metrics transparent_Timeout)

definition returns :: "('c, 'w) handler \<Rightarrow> bool" where
  "returns h \<longleftrightarrow> (\<forall>r w s. fst (fst (h r w s)) = Returned)"

lemma returns_Recovery: "returns (Recovery l h)"
  by (auto simp: returns_def Recovery_def split: prod.split outcome.split)

lemma returns_Logging: "returns h \<Longrightarrow> returns (Logging g l h)"
  by (auto simp: returns_def Logging_def Let_def case_prod_beta split: prod.split outcome.split)

lemma returns_RequestID: "returns h \<Longrightarrow> returns (RequestID g h)"
  by (simp add: returns_def RequestID_def Let_def case_prod_beta)

lemma http_server_returns: "returns (http_server sv ep he)"
  unfolding http_server_chain outer_def http_Chain_Cons by (intro returns_RequestID returns_Logging returns_Recovery)

lemma inv_limited: "server_inv a \<Longrightarrow> server_inv (snd (limited sv ep r w a))"
proof -
  assume "server_inv a"
  then have al: "server_inv (snd (allow_addr sv addr a))" for addr
    by (auto simp: allow_addr_def case_prod_beta Let_def intro!: server_inv_upd(6))
  have "keeps (serve_mux (ep_redirect ep) (server_routes sv ep))" by (rule keeps_mux [OF keeps_routes])
  then have "server_inv (snd (serve_mux (ep_redirect ep) (server_routes sv ep) r w (snd (allow_addr sv (sv_RemoteAddr sv r) a))))"
    using al unfolding keeps_def by blast
  then show ?thesis using al by (simp add: limited_def RateLimit_def Let_def case_prod_beta)
qed

text \<open>What a product request gets behind the limiter.\<close>

definition product_answer :: "('c, 'e) services \<Rightarrow> string \<Rightarrow> rw \<Rightarrow> bool" where
  "product_answer sv pid b \<longleftrightarrow> sent b \<in> {Some 404, Some 429, Some 500} \<or>
     sent b = Some 200 \<and> (\<exists>p. sample_for pid p \<and> wbody b = sv_encode sv p)"

lemma limited_eq:
  assumes "product_request pid r"
  shows "limited sv ep r w a = (let (ok, a1) = allow_addr sv (sv_RemoteAddr sv r) a in
    if ok then http_GetProduct (routed sv) r w a1 else ((Returned, http_Error ''rate limit exceeded'' 429 w), a1))"
  by (simp add: mux_product(1) [OF assms] limited_def RateLimit_def Let_def case_prod_beta)

lemma base_json:
  assumes "Http.fresh w" "wbody (base w) = []"
  shows "sent (base (Write b (SetHeader k v w))) = Some 200" "wbody (base (Write b (SetHeader k v w))) = b"
  using assms by (simp_all add: Http.fresh_def Write_def SetHeader_def base_Write_def base_WriteHeader_def Let_def)

lemma limited_product:
  assumes "server_inv a" "product_request pid r" "Http.fresh w" "wbody (base w) = []"
  shows "fst (fst (limited sv ep r w a)) = Returned \<and> product_answer sv pid (base (snd (fst (limited sv ep r w a))))"
proof -
  let ?al = "allow_addr sv (sv_RemoteAddr sv r) a"
  let ?out = "http_GetProduct (routed sv) r w (snd ?al)"
  have "server_inv (snd ?al)"
    using assms(1) by (auto simp: allow_addr_def case_prod_beta Let_def intro!: server_inv_upd(6))
  from conjunct2 [OF inv_http_get [OF this, of "routed sv" r w]] have
    "fst ?out \<in> {(Returned, http_Error ''product not found'' 404 w), (Returned, http_Error ''internal error'' 500 w)} \<or>
     (\<exists>p. sample_for pid p \<and> fst ?out = (Returned, Write (sv_encode sv p) (SetHeader ''Content-Type'' ''application/json'' w)))"
    by (simp add: mux_product(2) [OF assms(2)]) (simp add: routed_def)
  then have "fst (fst ?out) = Returned \<and> product_answer sv pid (base (snd (fst ?out)))"
    using http_Error_fresh [OF assms(3)] base_json [OF assms(3,4)] by (auto simp: product_answer_def)
  then show ?thesis using http_Error_fresh [OF assms(3)]
    by (simp add: limited_eq [OF assms(2)] product_answer_def Let_def case_prod_beta)
qed

text \<open>A product that the cache holds at every time the clock may show.\<close>

definition in_cache :: "('c, 'e) services \<Rightarrow> string \<Rightarrow> Product \<Rightarrow> 'e app \<Rightarrow> bool" where
  "in_cache sv pid p a \<longleftrightarrow> (\<forall>e. fst (cache_Get (fst (sv_clock sv e)) pid (productCache a)) = Some p)"

lemma in_cache_keep: "in_cache sv pid p a \<Longrightarrow> only_env a a1 \<Longrightarrow> in_cache sv pid p a1"
  "in_cache sv pid p a \<Longrightarrow> in_cache sv pid p (snd (allow_addr sv addr a))"
  by (auto simp: in_cache_def only_env_def allow_addr_def case_prod_beta Let_def lift_def)

lemma http_GetProduct_cached:
  assumes "\<forall>e. sv_ctx_Err sv e = None" "in_cache sv (sv_PathValue sv r) p a"
  shows "fst (http_GetProduct sv r w a) = (Returned, Write (sv_encode sv p) (SetHeader ''Content-Type'' ''application/json'' w))"
proof -
  obtain a1 where "get_cached sv (sv_PathValue sv r) a = (Some p, a1)"
    using assms(2) by (auto simp: in_cache_def get_cached_def case_prod_beta Let_def lift_def)
  then show ?thesis using assms(1)
    by (simp add: http_GetProduct_def retry_Do_cfg_def product_retry_simps product_attempt_def upto_Cons)
qed

lemma limited_cached:
  assumes "\<forall>e. sv_ctx_Err sv e = None" "in_cache sv pid p a" "product_request pid r" "Http.fresh w" "wbody (base w) = []"
  shows "fst (fst (limited sv ep r w a)) = Returned \<and> (sent (base (snd (fst (limited sv ep r w a)))) = Some 429 \<or>
    sent (base (snd (fst (limited sv ep r w a)))) = Some 200 \<and> wbody (base (snd (fst (limited sv ep r w a)))) = sv_encode sv p)"
proof -
  let ?al = "allow_addr sv (sv_RemoteAddr sv r) a"
  have "in_cache (routed sv) (sv_PathValue (routed sv) r) p (snd ?al)"
    using in_cache_keep(2) [OF assms(2)] unfolding mux_product(2) [OF assms(3)] by (simp add: in_cache_def routed_def)
  then have "fst (http_GetProduct (routed sv) r w (snd ?al)) = (Returned, Write (sv_encode sv p) (SetHeader ''Content-Type'' ''application/json'' w))"
    using http_GetProduct_cached [of "routed sv" r p "snd ?al" w] assms(1) by (simp add: routed_def)
  then show ?thesis using http_Error_fresh [OF assms(4)] base_json [OF assms(4,5)]
    by (simp add: limited_eq [OF assms(3)] Let_def case_prod_beta)
qed

text \<open>
  C14. A request through the whole HTTP server: request ID, logging, recovery, metrics, timeout, rate limit,
  multiplexer and handler. From every state that the server reaches, and for every request, the
  call returns and does not panic, even if a handler panics, and leaves a state in which the
  invariants of the components hold. A GET of \<open>/products/{id}\<close> is answered with 404, 429 or 500, or with
  200 and exactly the encoded product of the catalogue that has this ID; if the cache holds the product
  and the request is not cancelled, it is answered with 200 and that product unless the limiter refuses (429).
\<close>

theorem server_http:
  assumes "reach (server_init sv) (server_step sv) a"
  shows "fst (fst (http_server sv ep he r w a)) = Returned \<and> server_inv (snd (http_server sv ep he r w a)) \<and>
    (\<forall>pid. product_request pid r \<and> Http.fresh w \<and> wbody (base w) = [] \<longrightarrow>
       (let b = base (snd (fst (http_server sv ep he r w a))) in
        product_answer sv pid b \<and>
        (\<forall>p. (\<forall>e. sv_ctx_Err sv e = None) \<and> in_cache sv pid p a \<longrightarrow>
           sent b = Some 429 \<or> sent b = Some 200 \<and> wbody b = sv_encode sv p)))"
proof -
  let ?h = "http_server sv ep he r w a"
  have a: "server_inv a" by (rule server.reach_inv [OF assms])
  obtain c w1 a1 where 1: "only_env a a1" "enters w w1"
    "only_env (snd (limited sv ep (r\<lparr>rcontext := c\<rparr>) w1 a1)) (snd ?h)"
    "fst (fst (limited sv ep (r\<lparr>rcontext := c\<rparr>) w1 a1)) = Returned \<longrightarrow> fst (fst ?h) = Returned \<and>
       base (snd (fst ?h)) = base (snd (fst (limited sv ep (r\<lparr>rcontext := c\<rparr>) w1 a1)))"
    using transparentD [OF transparent_outer [of sv he], of a w "limited sv ep" r, folded http_server_chain] by (elim exE conjE)
  have a1: "server_inv a1" by (rule only_env_inv [OF 1(1) a])
  have "server_inv (snd ?h)" by (rule only_env_inv [OF 1(3) inv_limited [OF a1]])
  moreover have "product_answer sv pid (base (snd (fst ?h))) \<and>
    (\<forall>p. (\<forall>e. sv_ctx_Err sv e = None) \<and> in_cache sv pid p a \<longrightarrow>
       sent (base (snd (fst ?h))) = Some 429 \<or> sent (base (snd (fst ?h))) = Some 200 \<and> wbody (base (snd (fst ?h))) = sv_encode sv p)"
    if "product_request pid r" "Http.fresh w" "wbody (base w) = []" for pid
  proof (intro conjI allI impI)
    have pr: "product_request pid (r\<lparr>rcontext := c\<rparr>)" "Http.fresh w1" "wbody (base w1) = []"
      using that 1(2) by (simp_all add: product_request_def enters_def)
    show "product_answer sv pid (base (snd (fst ?h)))" using limited_product [OF a1 pr, of sv ep] 1(4) by simp
    fix p assume "(\<forall>e. sv_ctx_Err sv e = None) \<and> in_cache sv pid p a"
    then show "sent (base (snd (fst ?h))) = Some 429 \<or> sent (base (snd (fst ?h))) = Some 200 \<and> wbody (base (snd (fst ?h))) = sv_encode sv p"
      using limited_cached [OF _ in_cache_keep(1) [OF _ 1(1)] pr, of sv p ep] 1(4) by simp
  qed
  ultimately show ?thesis using http_server_returns [of sv ep he] unfolding returns_def Let_def by blast
qed

definition demo_endpoints :: "(unit, 'e) endpoints" where
  "demo_endpoints = \<lparr>ep_report = (\<lambda>_. []), ep_swap = (\<lambda>_. False), ep_promhttp = (\<lambda>ms w e. ((Returned, Write [] w), e)),
     ep_redirect = (\<lambda>p r w. SetHeader ''Location'' p w)\<rparr>"

definition demo_http_env :: "'e http_env" where
  "demo_http_env = \<lparr>he_newID = (\<lambda>e. (''id'', e)), he_log = (\<lambda>_ e. e), he_log_panic = (\<lambda>_ e. e), he_upd = (\<lambda>_ e. e)\<rparr>"

theorem server_http_witness:
  "\<exists>(a :: desc list app) b. b = base (snd (fst (http_server (demo_services :: (unit, desc list) services) demo_endpoints demo_http_env
       (demo_request\<lparr>rpath := ''/products/p2''\<rparr>) demo_writer a))) \<and>
     (sent b = Some 429 \<or> sent b = Some 200 \<and> wbody b = ''p2'')"
proof -
  obtain a :: "desc list app" where a: "reach (server_init (demo_services :: (unit, desc list) services)) (server_step demo_services) a"
    "fst (cache_Get 1 ''p2'' (productCache a)) = Some (sampleProducts ! 1)" using demo_reach by blast
  have "product_request ''p2'' (demo_request\<lparr>rpath := ''/products/p2''\<rparr>)" "Http.fresh demo_writer" "wbody (base demo_writer) = []"
    by (simp_all add: product_request_def demo_request_def demo_writer_def Http.fresh_def)
  moreover have "in_cache (demo_services :: (unit, desc list) services) ''p2'' (sampleProducts ! 1) a" using a(2)
    by (simp add: in_cache_def demo_services_def)
  moreover have "sv_encode (demo_services :: (unit, desc list) services) (sampleProducts ! 1) = ''p2''" "\<forall>e. sv_ctx_Err (demo_services :: (unit, desc list) services) e = None"
    by (simp_all add: demo_services_def sampleProducts_def)
  ultimately show ?thesis
    using server_http [OF a(1), of demo_endpoints demo_http_env "demo_request\<lparr>rpath := ''/products/p2''\<rparr>" demo_writer]
    unfolding Let_def by metis
qed

end
