(* ===== verification/Testutil.thy ===== *)
theory Testutil
  imports Store
begin

text \<open>
  The helpers of \<open>pkg/testutil\<close>. The loops poll a condition or a database until a deadline; whether
  they end depends on the clock, so they are partial functions and the theorems show that they
  return. \<open>Fatalf\<close> ends the test.
\<close>

section \<open>Assertions\<close>

datatype 'a tb = Passed 'a | Fatal string

definition Must :: "err option \<Rightarrow> unit tb" where
  "Must e = (case e of None \<Rightarrow> Passed () | Some er \<Rightarrow> Fatal (''unexpected error: '' @ err_Error er))"

definition MustVal :: "'a \<Rightarrow> err option \<Rightarrow> 'a tb" where
  "MustVal val e = (case e of None \<Rightarrow> Passed val | Some er \<Rightarrow> Fatal (''unexpected error: '' @ err_Error er))"

text \<open>\<open>Errorf\<close> marks the test as failed and goes on.\<close>

definition AssertNoError :: "(string \<Rightarrow> 'w \<Rightarrow> 'w) \<Rightarrow> err option \<Rightarrow> 'w \<Rightarrow> 'w" where
  "AssertNoError t_Errorf e w =
     (case e of None \<Rightarrow> w | Some er \<Rightarrow> t_Errorf (''unexpected error: '' @ err_Error er) w)"

text \<open>The port of the listener, which is closed again.\<close>

definition FreePort :: "(string \<Rightarrow> ('w, err + int) action) \<Rightarrow> (int \<Rightarrow> 'w \<Rightarrow> 'w) \<Rightarrow> ('w, int tb) action" where
  "FreePort listen close_lis w =
     (case listen ''127.0.0.1:0'' w of
        (Inl e, w1) \<Rightarrow> (Fatal (''testutil.FreePort: '' @ err_Error e), w1)
      | (Inr port, w1) \<Rightarrow> (Passed port, close_lis port w1))"

section \<open>Polling\<close>

text \<open>The clock and \<open>time.Sleep\<close>.\<close>

record 'w timing =
  tm_Now :: "('w, gotime) action"
  tm_Sleep :: "duration \<Rightarrow> 'w \<Rightarrow> 'w"

partial_function (option) eventually_loop :: "'w timing \<Rightarrow> ('w, bool) action \<Rightarrow> gotime \<Rightarrow> duration \<Rightarrow> 'w \<Rightarrow> (bool \<times> 'w) option" where
  "eventually_loop tm condition deadline tick w =
     (let (now, w1) = tm_Now tm w in
      if now < deadline then
        (let (ok, w2) = condition w1 in
         if ok then Some (True, w2) else eventually_loop tm condition deadline tick (tm_Sleep tm tick w2))
      else Some (False, w1))"

definition Eventually :: "'w timing \<Rightarrow> ('w, bool) action \<Rightarrow> duration \<Rightarrow> duration \<Rightarrow> 'w \<Rightarrow> (unit tb \<times> 'w) option" where
  "Eventually tm condition timeout tick w =
     (let (start, w1) = tm_Now tm w in
      case eventually_loop tm condition (time_Add start timeout) tick w1 of
        None \<Rightarrow> None
      | Some (True, w2) \<Rightarrow> Some (Passed (), w2)
      | Some (False, w2) \<Rightarrow> Some (Fatal (''condition not met within '' @ duration_String timeout), w2))"

definition RequireEventually :: "'w timing \<Rightarrow> ('w, bool) action \<Rightarrow> duration \<Rightarrow> duration \<Rightarrow> 'w \<Rightarrow> (unit tb \<times> 'w) option" where
  "RequireEventually tm condition timeout tick w = Eventually tm condition timeout tick w"

section \<open>A database in a container\<close>

text \<open>The container library, and \<open>t.Cleanup\<close>.\<close>

record ('k, 'w) containers =
  StartContainer :: "string \<Rightarrow> string \<Rightarrow> (string \<times> string) list \<Rightarrow> ('w, err + 'k) action"
  Terminate :: "'k \<Rightarrow> 'w \<Rightarrow> 'w"
  ct_Host :: "'k \<Rightarrow> ('w, err + string) action"
  MappedPort :: "'k \<Rightarrow> string \<Rightarrow> ('w, err + string) action"
  Cleanup :: "('w \<Rightarrow> 'w) \<Rightarrow> 'w \<Rightarrow> 'w"

partial_function (option) open_loop :: "'w timing \<Rightarrow> ('w, err + 'p) action \<Rightarrow> gotime \<Rightarrow> 'w \<Rightarrow> ((err + 'p) \<times> 'w) option" where
  "open_loop tm open_db deadline w =
     (case open_db w of
        (Inr db, w1) \<Rightarrow> Some (Inr db, w1)
      | (Inl e, w1) \<Rightarrow>
          let (now, w2) = tm_Now tm w1 in
          if deadline < now then Some (Inl e, w2)
          else open_loop tm open_db deadline (tm_Sleep tm (200 * Millisecond) w2))"

definition postgres_dsn :: "string \<Rightarrow> string \<Rightarrow> string" where
  "postgres_dsn host port = ''postgres://gkit:secret@'' @ host @ '':'' @ port @ ''/gkit?sslmode=disable''"

definition StartPostgres :: "'w timing \<Rightarrow> ('k, 'w) containers \<Rightarrow> ('p, 'w) pgx_lib \<Rightarrow> 'w \<Rightarrow> ('p tb \<times> 'w) option" where
  "StartPostgres tm ct lib w =
     (case StartContainer ct ''postgres:16-alpine'' ''5432/tcp''
          [(''POSTGRES_USER'', ''gkit''), (''POSTGRES_PASSWORD'', ''secret''), (''POSTGRES_DB'', ''gkit'')] w of
        (Inl e, w1) \<Rightarrow> Some (Fatal (''testutil.StartPostgres: start container: '' @ err_Error e), w1)
      | (Inr c, w1) \<Rightarrow>
          (case ct_Host ct c (Cleanup ct (Terminate ct c) w1) of
             (Inl e, w2) \<Rightarrow> Some (Fatal (''testutil.StartPostgres: host: '' @ err_Error e), w2)
           | (Inr host, w2) \<Rightarrow>
               (case MappedPort ct c ''5432/tcp'' w2 of
                  (Inl e, w3) \<Rightarrow> Some (Fatal (''testutil.StartPostgres: mapped port: '' @ err_Error e), w3)
                | (Inr port, w3) \<Rightarrow>
                    let (start, w4) = tm_Now tm w3 in
                    case open_loop tm (store_Open lib (postgres_dsn host port) []) (time_Add start (30 * Second)) w4 of
                      None \<Rightarrow> None
                    | Some (Inl e, w5) \<Rightarrow> Some (Fatal (''testutil.StartPostgres: open store: '' @ err_Error e), w5)
                    | Some (Inr db, w5) \<Rightarrow> Some (Passed db, Cleanup ct (lib_Close lib db) w5))))"

section \<open>The loops return\<close>

text \<open>
  A clock \<open>at\<close> that does not run backwards, and a sleep that takes at least its duration.
\<close>

definition time_passes :: "'w timing \<Rightarrow> ('w \<Rightarrow> gotime) \<Rightarrow> bool" where
  "time_passes tm at \<longleftrightarrow> (\<forall>w. fst (tm_Now tm w) = at w \<and> at w \<le> at (snd (tm_Now tm w))) \<and>
     (\<forall>d w. at w + d \<le> at (tm_Sleep tm d w))"

lemma time_passesD:
  assumes "time_passes tm at"
  shows "tm_Now tm w = (now, w1) \<Longrightarrow> now = at w" "tm_Now tm w = (now, w1) \<Longrightarrow> at w \<le> at w1"
    "at w + d \<le> at (tm_Sleep tm d w)"
  using assms unfolding time_passes_def by (metis fst_conv snd_conv)+

definition takes_time :: "('w \<Rightarrow> gotime) \<Rightarrow> ('w, 'a) action \<Rightarrow> bool" where
  "takes_time at f \<longleftrightarrow> (\<forall>w. at w \<le> at (snd (f w)))"

lemma takes_timeD: "takes_time at f \<Longrightarrow> f w = (x, w1) \<Longrightarrow> at w \<le> at w1"
  unfolding takes_time_def by (metis snd_conv)

lemma eventually_loop_returns:
  assumes "time_passes tm at" "takes_time at condition" "0 < tick"
  shows "\<exists>r w'. eventually_loop tm condition deadline tick w = Some (r, w') \<and>
    (if r then \<exists>w1. condition w1 = (True, w') else deadline \<le> at w')"
proof (induction "nat (deadline - at w)" arbitrary: w rule: less_induct)
  case less
  obtain now w1 where n: "tm_Now tm w = (now, w1)" by fastforce
  obtain ok w2 where c: "condition w1 = (ok, w2)" by fastforce
  have t: "now = at w" "at w \<le> at w1" "at w1 \<le> at w2" "at w2 + tick \<le> at (tm_Sleep tm tick w2)"
    using time_passesD [OF assms(1)] takes_timeD [OF assms(2)] n c by blast+
  show ?case
  proof (cases "now < deadline \<and> \<not> ok")
    case True
    then have "nat (deadline - at (tm_Sleep tm tick w2)) < nat (deadline - at w)" using t assms(3) by linarith
    from less.hyps [OF this] True show ?thesis by (subst eventually_loop.simps) (simp add: n c)
  next
    case False
    then have "eventually_loop tm condition deadline tick w = (if now < deadline then Some (True, w2) else Some (False, w1))"
      by (subst eventually_loop.simps) (auto simp: n c)
    then show ?thesis using t c False by (cases "now < deadline") auto
  qed
qed

lemma open_loop_returns:
  assumes "time_passes tm at" "takes_time at open_db"
  shows "\<exists>r w'. open_loop tm open_db deadline w = Some (r, w') \<and>
    (case r of Inl e \<Rightarrow> deadline < at w' | Inr db \<Rightarrow> \<exists>w1. open_db w1 = (Inr db, w'))"
proof (induction "nat (deadline + 1 - at w)" arbitrary: w rule: less_induct)
  case less
  obtain r w1 where o: "open_db w = (r, w1)" by fastforce
  obtain now w2 where n: "tm_Now tm w1 = (now, w2)" by fastforce
  let ?w = "tm_Sleep tm (200 * Millisecond) w2"
  have t: "at w \<le> at w1" "now = at w1" "at w1 \<le> at w2" "at w2 + 200 * Millisecond \<le> at ?w"
    using time_passesD [OF assms(1)] takes_timeD [OF assms(2)] n o by blast+
  show ?case
  proof (cases r)
    case (Inl e)
    show ?thesis
    proof (cases "deadline < now")
      case True
      have "open_loop tm open_db deadline w = Some (Inl e, w2)" by (subst open_loop.simps) (simp add: o n Inl True)
      then show ?thesis using t True by auto
    next
      case False
      then have "nat (deadline + 1 - at ?w) < nat (deadline + 1 - at w)" using t by linarith
      from less.hyps [OF this] False Inl show ?thesis by (subst open_loop.simps) (simp add: o n)
    qed
  next
    case (Inr db)
    have "open_loop tm open_db deadline w = Some (Inr db, w1)" by (subst open_loop.simps) (simp add: o Inr)
    then show ?thesis using o Inr by auto
  qed
qed

text \<open>
  \<open>Eventually\<close> returns: it passes when the condition held at one of its polls, and fails the test only
  when the timeout is over.
\<close>

lemma Eventually_returns:
  assumes "time_passes tm at" "takes_time at condition" "0 < tick"
  shows "\<exists>r w'. Eventually tm condition timeout tick w = Some (r, w') \<and>
    (case r of Passed _ \<Rightarrow> \<exists>w1. condition w1 = (True, w') | Fatal _ \<Rightarrow> at w + timeout \<le> at w')"
proof -
  obtain start w1 where n: "tm_Now tm w = (start, w1)" by fastforce
  then have "start = at w" by (rule time_passesD(1) [OF assms(1)])
  then show ?thesis using eventually_loop_returns [OF assms, of "time_Add start timeout" w1] n
    by (auto simp: Eventually_def time_Add_def split: bool.splits if_splits)
qed

end
