(* ===== verification/Spec2Isabelle.thy ===== *)
theory Spec2Isabelle
  imports Breaker LruCache KeyedLimit Retry Saga Graceful Health Pool Pipeline Config Validation Feature Auth
    Sync Lock Queue Outbox EventStore RedisCache
    Streams Fan Debounce Sched Future Routes Testutil
begin

text \<open>
  A verification of gkit, a toolkit of Go packages for services. The packages under \<open>src/pkg\<close> are
  independent of each other except where this is said; most are used together by a service as
  middleware around its handlers and as workers beside them. There is one theory per component,
  over \<open>Prelude\<close> (step systems, refinement, progress, list lemmas) and \<open>GoStd\<close> and \<open>GoStrings\<close>
  (what the code uses of Go's standard library: times, durations, errors and their wrapping,
  decimal and quoted text). The names of the definitions are those of the source, with a prefix
  where two packages use the same name.

  \<^bold>\<open>How code is modelled.\<close>
  \<^item> A struct is a record, a closed set of cases a datatype, an \<open>error\<close> a value of type \<open>err option\<close>,
    a call that may panic a value of \<open>fn_outcome\<close> or of an option.
  \<^item> A function that is given to the code (a handler, a hook, a job) is an action on a world of an
    arbitrary type, \<open>('w, 'a) action\<close>; what it does to the world is threaded through the calls.
  \<^item> A mutex-protected component is a state with one function per method. Goroutines that interleave
    are an inductive step relation, one rule per atomic action (a channel operation, a case of a
    select, a locked section), and a property holds in every state that \<open>reach\<close> gives.
  \<^item> Readings of the clock are arguments or steps of the environment. Go's \<open>int\<close> is \<open>int\<close>; where the
    code can leave the range of 64 bits the wrap-around is written out (\<open>wrap64\<close>).
  \<^item> External services are parameters: a record with an operation for each call that the code makes,
    and the laws of the service as predicates (\<open>server_ok\<close> for Redis in \<open>Lock\<close>, \<open>pg_tx_ok\<close>, \<open>pg_exec_ok\<close>,
    \<open>pg_query_ok\<close> for the pgx pool in \<open>Store\<close>, \<open>redis_kv\<close> in \<open>RedisCache\<close>). In-memory instances
    (\<open>mem_pg\<close>, \<open>mem_server\<close>, \<open>two_redis\<close>) satisfy the laws and serve as witnesses.

  \<^bold>\<open>Resilience.\<close>
  \<^item> \<open>Breaker\<close>: \<open>pkg/circuitbreaker/breaker.go\<close>. The states, \<open>Execute\<close> and the recording of results; an
    invariant of all reachable states, when the breaker trips, how it recovers.
  \<^item> \<open>RateLimit\<close> and \<open>KeyedLimit\<close>: \<open>pkg/ratelimit\<close>. The token bucket over floating-point numbers with
    their rounding as a parameter (\<open>Floats\<close>): no more events than burst plus rate times elapsed time,
    and \<open>WaitN\<close> returns; the limiter per key refines a map of independent buckets.
  \<^item> \<open>Retry\<close>: \<open>pkg/retry\<close>. The loop returns the first success, the first final error or the last error,
    and its delays are bounded; the exponential backoff overflows for large attempts.
  \<^item> \<open>Saga\<close>: \<open>pkg/saga/saga.go\<close>. \<open>Run\<close> equals nested steps that undo themselves.
  \<^item> \<open>Graceful\<close> and \<open>Health\<close>: \<open>pkg/graceful/shutdown.go\<close>, \<open>pkg/health/health.go\<close>.

  \<^bold>\<open>Data.\<close>
  \<^item> \<open>LruCache\<close>: \<open>pkg/cache/cache.go\<close>, the linked list and the map with its expiry, as a refinement of a
    list of entries in the order of their use.
  \<^item> \<open>RedisCache\<close>: \<open>pkg/rediscache/cache.go\<close>. What is set is read back until it expires, and \<open>Flush\<close>
    deletes the keys of this cache and no others.
  \<^item> \<open>Store\<close>: \<open>pkg/store\<close>. \<open>WithTx\<close> commits when the function returns nil and otherwise leaves the
    database as it was, also on a panic; queries, retries of the connection, migrations. \<open>Queue\<close>,
    \<open>Outbox\<close> and \<open>EventStore\<close> are built on it and their proofs use its laws.
  \<^item> \<open>Queue\<close>: \<open>pkg/queue/queue.go\<close>, jobs with attempts, backoff and a dead state. \<open>Outbox\<close>:
    \<open>pkg/outbox/outbox.go\<close>, the relay marks events as published only after all were. \<open>EventStore\<close>:
    \<open>pkg/eventstore/eventstore.go\<close>, appends with optimistic concurrency, versions without gaps,
    snapshots.
  \<^item> \<open>Lock\<close>: \<open>pkg/lock/lock.go\<close>, the Redis lock with tokens: mutual exclusion while the lock has not
    expired, and \<open>WithLock\<close>.

  \<^bold>\<open>Concurrency.\<close>
  \<^item> \<open>Pool\<close>: \<open>pkg/pool/pool.go\<close>; \<open>Pipeline\<close>: \<open>pkg/pipeline/pipeline.go\<close>; \<open>Sched\<close>: \<open>pkg/sched/scheduler.go\<close>;
    \<open>PubSub\<close>: \<open>pkg/pubsub/bus.go\<close>; \<open>Streams\<close>, \<open>Fan\<close>, \<open>Future\<close>, \<open>Sync\<close> and \<open>Debounce\<close>: \<open>stream.go\<close>, \<open>future.go\<close>
    and \<open>semaphore.go\<close> of \<open>pkg/async\<close>; in \<open>Debounce\<close> the passing of time is a step. Safety by
    invariants (the locale \<open>step_invariant\<close>), and that \<open>Stop\<close>, \<open>All\<close>, \<open>Race\<close>, \<open>Publish\<close> and the barrier
    return by a measure (the locale \<open>step_progress\<close> where a goal is to be reached).

  \<^bold>\<open>Requests.\<close>
  \<^item> \<open>Http\<close> and \<open>Auth\<close>: \<open>pkg/middleware\<close>, \<open>pkg/auth/auth.go\<close>; \<open>Config\<close>: \<open>pkg/config/config.go\<close>; \<open>Validation\<close>:
    \<open>pkg/validation/validation.go\<close>; \<open>Feature\<close>: \<open>pkg/feature/feature.go\<close>.
  \<^item> \<open>Rpc\<close>: \<open>pkg/rpc\<close>, the interceptors, the builders of server and client and \<open>Serve\<close>, over the gRPC
    library: behind the interceptors no call panics, and what is logged and counted. \<open>Product\<close>:
    \<open>api/product/v1\<close>, from the client stub to the service and back.
  \<^item> \<open>Metrics\<close>: \<open>pkg/metrics\<close>, \<open>pkg/store/metrics.go\<close> and the instruments of the HTTP and RPC middleware,
    over a Prometheus registry (\<open>prom_ok\<close>; \<open>mem_prom\<close> is an instance). \<open>Tracing\<close>: \<open>pkg/otel/tracer.go\<close>, the
    set-up of the provider and its error paths.

  \<^bold>\<open>The service.\<close>
  \<^item> \<open>Server\<close>: \<open>examples/server/main.go\<close>, built on the definitions of the other theories. The set-up does
    not panic and registers every instrument once; the invariants of cache, breaker, bus and pool hold
    together in every state that requests, jobs and steps of the components lead to; what a request
    for a product or an order answers, with retries, cache, breaker and bus in between; the order of
    the shutdown. A request is one step there; the interleavings inside the components are in their
    own theories.
  \<^item> \<open>Routes\<close>: the HTTP side of the same file, the multiplexer with its patterns (what \<open>net/http\<close> does for
    them is written out), the endpoints, the chain of middleware around them and the jobs of the
    scheduler. Every request returns without a panic and keeps the invariants, and a product
    request gets the product of its path or one of the error codes.
  \<^item> \<open>Testutil\<close>: \<open>pkg/testutil\<close>. The polling loops are partial functions, and return when time passes.

  \<^bold>\<open>Bounds.\<close> Loops over data are structural recursions. \<open>Acquire\<close> of the lock and \<open>Flush\<close> of the Redis
  cache poll a service and take a number of rounds as fuel; the theorems on them either hold for every
  fuel or say which fuel is enough. Stream operators run on inputs that end. Liveness is stated as
  the possibility to reach the goal from every reachable state (there is no fairness of the
  scheduler in the model, and a select picks any ready case).

  \<^bold>\<open>Not modelled.\<close> \<open>internal/clock/clock.go\<close> only forwards to \<open>time\<close>, and no package uses it. Of \<open>pkg/otel\<close>,
  \<open>pkg/metrics\<close>, \<open>pkg/rpc\<close>, \<open>pkg/store\<close>, \<open>pkg/rediscache\<close> (\<open>NewClient\<close>) and the JSON codec the functions that do no more than call their library are
  left out, of the example server the goroutines that listen on the ports. Log lines and trace spans
  are modelled only where another operation depends on them or a property is about them.
\<close>

end
